(* ===== verification/Go_Prelude.thy ===== *)
theory Go_Prelude
  imports
    Main
    "HOL-Library.Word"
    "HOL-Library.Multiset"
    "HOL-Library.Monad_Syntax"
    "HOL-Library.Signed_Division"
begin

unbundle bit_operations_syntax

text \<open>
  The shared base of the development: the types that name Go's machine integers and the
  repository's byte-string types, slice access with Go's run-time panics, and the generic
  lemmas on lists, options and words that the component theories use.

  Conventions. A run-time panic of the Go program (an index out of range, a nil pointer
  dereference, an explicit \<^verbatim>\<open>panic\<close>) is the value \<^const>\<open>None\<close> of the \<open>option\<close> monad; an
  operation that can panic returns \<open>'a option\<close> and is sequenced with \<open>do\<close> blocks. A Go
  \<^verbatim>\<open>error\<close> result is the left value of a sum. A pointer that may be nil is an \<open>option\<close> value;
  a Go map is a map \<open>'k \<rightharpoonup> 'v\<close> where the code only looks keys up, and an association list
  where the code ranges over it: the list order stands for Go's unspecified iteration order.
  Mutexes are not modelled: every operation is one atomic step, as the locks make it.
\<close>

section \<open>Types\<close>

type_synonym u8 = "8 word"
type_synonym u32 = "32 word"
type_synonym u64 = "64 word"
type_synonym Hash = "u8 list"
type_synonym Identifier = "u8 list"
type_synonym KramaID = string
type_synonym ClusterID = string

text \<open>\<^verbatim>\<open>common.NilHash\<close> and \<^verbatim>\<open>Hash.IsNil\<close> of src/common/hash.go.\<close>

definition NilHash :: Hash where
  "NilHash = replicate 32 0"

definition Hash_IsNil :: "Hash \<Rightarrow> bool" where
  "Hash_IsNil h \<longleftrightarrow> h = NilHash"

section \<open>Slices\<close>

text \<open>Reading and writing one element of a slice; an index out of range panics.\<close>

definition go_index :: "'a list \<Rightarrow> int \<Rightarrow> 'a option" where
  "go_index xs i = (if 0 \<le> i \<and> i < int (length xs) then Some (xs ! nat i) else None)"

definition go_update :: "'a list \<Rightarrow> int \<Rightarrow> 'a \<Rightarrow> 'a list option" where
  "go_update xs i v = (if 0 \<le> i \<and> i < int (length xs) then Some (xs[nat i := v]) else None)"

text \<open>\<^verbatim>\<open>copy(dst, src)\<close>: the first \<open>min (len dst) (len src)\<close> elements of \<open>dst\<close> are overwritten.\<close>

definition go_copy :: "'a list \<Rightarrow> 'a list \<Rightarrow> 'a list" where
  "go_copy dst src = take (length dst) src @ drop (length src) dst"

text \<open>A loop that runs a body which can panic over the elements of a slice.\<close>

fun foldM :: "('a \<Rightarrow> 's \<Rightarrow> 's option) \<Rightarrow> 'a list \<Rightarrow> 's \<Rightarrow> 's option" where
  "foldM f [] s = Some s"
| "foldM f (x # xs) s = Option.bind (f x s) (foldM f xs)"

section \<open>Shared automation\<close>

named_theorems go_simps \<open>how slice access evaluates inside its bounds\<close>
named_theorems inv_intros \<open>an operation keeps the invariant of its component\<close>

lemma go_index_Some [go_simps]:
  "0 \<le> i \<Longrightarrow> i < int (length xs) \<Longrightarrow> go_index xs i = Some (xs ! nat i)"
  by (simp add: go_index_def)

lemma go_index_int [simp]:
  "go_index xs (int n) = (if n < length xs then Some (xs ! n) else None)"
  by (simp add: go_index_def)

lemma go_index_0 [simp]: "go_index (x # xs) 0 = Some x"
  by (simp add: go_index_def)

lemma go_index_eq_Some [go_simps]:
  "go_index xs i = Some x \<longleftrightarrow> 0 \<le> i \<and> nat i < length xs \<and> x = xs ! nat i"
  by (auto simp: go_index_def)

lemma go_index_eq_None: "go_index xs i = None \<longleftrightarrow> i < 0 \<or> int (length xs) \<le> i"
  by (auto simp: go_index_def)

lemma go_update_int [simp]:
  "go_update xs (int n) v = (if n < length xs then Some (xs[n := v]) else None)"
  by (simp add: go_update_def)

lemma go_update_eq_Some [go_simps]:
  "go_update xs i v = Some ys \<longleftrightarrow> 0 \<le> i \<and> nat i < length xs \<and> ys = xs[nat i := v]"
  by (auto simp: go_update_def)

lemma length_go_copy [simp]: "length (go_copy dst src) = length dst"
  by (simp add: go_copy_def)

lemma nth_go_copy:
  "i < length dst \<Longrightarrow> go_copy dst src ! i = (if i < length src then src ! i else dst ! i)"
  by (auto simp: go_copy_def nth_append)

lemma go_copy_same_length: "length src = length dst \<Longrightarrow> go_copy dst src = src"
  by (simp add: go_copy_def)

lemma foldM_append: "foldM f (xs @ ys) s = Option.bind (foldM f xs s) (foldM f ys)"
  by (induction xs arbitrary: s) (auto split: Option.bind_splits)

text \<open>An invariant of the body is an invariant of the loop.\<close>

lemma foldM_invariant:
  assumes "foldM f xs s = Some s'" and "P s"
    and "\<And>x s s'. x \<in> set xs \<Longrightarrow> P s \<Longrightarrow> f x s = Some s' \<Longrightarrow> P s'"
  shows "P s'"
  using assms
proof (induction xs arbitrary: s)
  case Nil
  then show ?case by simp
next
  case (Cons x xs)
  from Cons.prems(1) obtain t where t: "f x s = Some t" "foldM f xs t = Some s'"
    by (auto split: Option.bind_splits)
  have "P t" using Cons.prems(2) t(1) by (rule Cons.prems(3) [rotated]) simp
  show ?case
  proof (rule Cons.IH [OF t(2) \<open>P t\<close>])
    show "\<And>y s s'. y \<in> set xs \<Longrightarrow> P s \<Longrightarrow> f y s = Some s' \<Longrightarrow> P s'"
      by (rule Cons.prems(3)) auto
  qed
qed

text \<open>A body that never panics makes a loop that never panics.\<close>

lemma foldM_total:
  assumes "P s" and "\<And>x s. x \<in> set xs \<Longrightarrow> P s \<Longrightarrow> \<exists>s'. f x s = Some s' \<and> P s'"
  shows "\<exists>s'. foldM f xs s = Some s' \<and> P s'"
  using assms
proof (induction xs arbitrary: s)
  case Nil
  then show ?case by simp
next
  case (Cons x xs)
  then obtain t where "f x s = Some t" "P t" by force
  with Cons show ?case by simp
qed

text \<open>A loop over a slice with the index: the assertion before index \<open>j\<close> gives the one before the
  next index, and the body does not panic.\<close>

lemma foldM_enumerate:
  assumes "P k s"
    and "\<And>j s. k \<le> j \<Longrightarrow> j < k + length xs \<Longrightarrow> P j s \<Longrightarrow> \<exists>s'. f (j, xs ! (j - k)) s = Some s' \<and> P (Suc j) s'"
  shows "\<exists>s'. foldM f (enumerate k xs) s = Some s' \<and> P (k + length xs) s'"
  using assms
proof (induction xs arbitrary: k s)
  case Nil
  then show ?case by simp
next
  case (Cons x xs)
  from Cons.prems(2) [of k s] Cons.prems(1) obtain t where t: "f (k, x) s = Some t" "P (Suc k) t" by auto
  have "\<exists>s'. foldM f (enumerate (Suc k) xs) t = Some s' \<and> P (Suc k + length xs) s'"
  proof (rule Cons.IH [OF t(2)])
    fix j s assume "Suc k \<le> j" "j < Suc k + length xs" "P j s"
    moreover from this have "(x # xs) ! (j - k) = xs ! (j - Suc k)" by (simp add: nth_Cons')
    ultimately show "\<exists>s'. f (j, xs ! (j - Suc k)) s = Some s' \<and> P (Suc j) s'"
      using Cons.prems(2) [of j s] by simp
  qed
  then show ?case using t(1) by simp
qed

lemma foldM_upt:
  assumes "P 0 s" and "\<And>j s. j < n \<Longrightarrow> P j s \<Longrightarrow> \<exists>s'. f j s = Some s' \<and> P (Suc j) s'"
  shows "\<exists>s'. foldM f [0..<n] s = Some s' \<and> P n s'"
  using assms
proof (induction n)
  case 0
  then show ?case by simp
next
  case (Suc n)
  then obtain t where t: "foldM f [0..<n] s = Some t" "P n t" by force
  with Suc.prems(2) [of n t] show ?case by (auto simp: foldM_append)
qed

lemma those_map_total:
  assumes "\<And>x. x \<in> set xs \<Longrightarrow> \<exists>y. f x = Some y \<and> Q x y"
  shows "\<exists>ys. those (map f xs) = Some ys \<and> list_all2 Q xs ys"
  using assms
proof (induction xs)
  case Nil
  then show ?case by simp
next
  case (Cons x xs)
  then obtain ys where "those (map f xs) = Some ys" "list_all2 Q xs ys" by force
  moreover obtain y where "f x = Some y" "Q x y" using Cons.prems by force
  ultimately show ?case by auto
qed

text \<open>The index of the first element of a slice with a property, as a search loop finds it.\<close>

definition first_index :: "('a \<Rightarrow> bool) \<Rightarrow> 'a list \<Rightarrow> nat" where
  "first_index P xs = length (takeWhile (\<lambda>x. \<not> P x) xs)"

lemma find_enumerate:
  "find (\<lambda>(j, x). P x) (enumerate n xs)
    = (if first_index P xs < length xs then Some (n + first_index P xs, xs ! first_index P xs) else None)"
  by (induction xs arbitrary: n) (auto simp: first_index_def)

lemma first_index_le: "first_index P xs \<le> length xs"
  by (simp add: first_index_def length_takeWhile_le)

lemma first_index_append:
  "first_index P (xs @ ys) = (if first_index P xs < length xs then first_index P xs else length xs + first_index P ys)"
  by (induction xs) (auto simp: first_index_def)

lemma first_index_less_iff: "first_index P xs < length xs \<longleftrightarrow> (\<exists>x \<in> set xs. P x)"
  by (induction xs) (auto simp: first_index_def)

lemma first_index_nth: "first_index P xs < length xs \<Longrightarrow> P (xs ! first_index P xs)"
  using nth_length_takeWhile [of "\<lambda>x. \<not> P x" xs] by (auto simp: first_index_def)

lemma first_index_before: "j < first_index P xs \<Longrightarrow> \<not> P (xs ! j)"
  by (metis first_index_def nth_mem set_takeWhileD takeWhile_nth)

lemma first_index_map: "first_index P (map f xs) = first_index (P \<circ> f) xs"
  by (simp add: first_index_def takeWhile_map o_def)

section \<open>Counting\<close>

lemma length_filter_update:
  assumes "i < length xs"
  shows "length (filter P (xs[i := v])) + (if P (xs ! i) then 1 else 0)
    = length (filter P xs) + (if P v then 1 else 0)"
  using assms
proof (induction xs arbitrary: i)
  case Nil
  then show ?case by simp
next
  case (Cons x xs)
  then show ?case by (cases i) auto
qed

lemma sum_list_update_nat:
  fixes xs :: "nat list"
  assumes "i < length xs"
  shows "sum_list (xs[i := v]) + xs ! i = sum_list xs + v"
  using assms
proof (induction xs arbitrary: i)
  case Nil
  then show ?case by simp
next
  case (Cons x xs)
  then show ?case by (cases i) auto
qed

section \<open>Words\<close>

lemma and_exp_gt_0:
  fixes e :: "'a::len word"
  shows "e AND 2 ^ n > 0 \<longleftrightarrow> bit e n"
  by (simp add: word_neq_0_conv [symmetric] and_exp_eq_0_iff_not_bit)

end
