(* ===== verification/Bits.thy ===== *)
theory Bits
  imports Go_Prelude
begin

text \<open>
  The bit array of src/common/arrayofbits.go, the representation of every vote set, node-set
  response and signer list of the consensus code. A bit array is a size and a slice of 64-bit
  elements; the methods with a nil check on the receiver take an \<open>ArrayOfBits option\<close>.
  The theory closes with the interface \<open>bit_array\<close>: what the clients of the bit array rely on,
  and its interpretation on the definitions below.
\<close>

section \<open>Definitions\<close>

record ArrayOfBits =
  Size :: int
  Elements :: "u64 list"

definition MaxInteger :: "int \<Rightarrow> int \<Rightarrow> int" where
  "MaxInteger a b = (if a > b then a else b)"

definition MinInteger :: "int \<Rightarrow> int \<Rightarrow> int" where
  "MinInteger a b = (if a < b then a else b)"

definition numElements :: "int \<Rightarrow> int" where
  "numElements bits = (bits + 63) sdiv 64"

text \<open>\<^verbatim>\<open>make([]uint64, n)\<close>: a negative length panics.\<close>

definition make_u64 :: "int \<Rightarrow> u64 list option" where
  "make_u64 n = (if n < 0 then None else Some (replicate (nat n) 0))"

text \<open>\<^verbatim>\<open>uint64(1) << uint(index%64)\<close>: the conversion of a negative remainder to \<^verbatim>\<open>uint\<close> wraps,
  and a shift by 64 or more gives 0.\<close>

definition bit_mask :: "int \<Rightarrow> u64" where
  "bit_mask index = push_bit (nat ((index smod 64) mod 2 ^ 64)) 1"

definition NewArrayOfBits :: "int \<Rightarrow> ArrayOfBits option" where
  "NewArrayOfBits size' =
     (if size' \<le> 0 then None
      else Some \<lparr>Size = size', Elements = replicate (nat (numElements size')) 0\<rparr>)"

definition SizeOf :: "ArrayOfBits option \<Rightarrow> int" where
  "SizeOf b = (case b of None \<Rightarrow> 0 | Some a \<Rightarrow> Size a)"

definition getIndex :: "ArrayOfBits \<Rightarrow> int \<Rightarrow> bool option" where
  "getIndex b index =
     (if index \<ge> Size b then Some False
      else do {
        e \<leftarrow> go_index (Elements b) (index sdiv 64);
        Some (e AND bit_mask index > 0)
      })"

definition GetIndex :: "ArrayOfBits option \<Rightarrow> int \<Rightarrow> bool option" where
  "GetIndex b i = (case b of None \<Rightarrow> Some False | Some a \<Rightarrow> getIndex a i)"

definition setIndex :: "ArrayOfBits \<Rightarrow> int \<Rightarrow> bool \<Rightarrow> (bool \<times> ArrayOfBits) option" where
  "setIndex b index v =
     (if index \<ge> Size b then Some (False, b)
      else do {
        e \<leftarrow> go_index (Elements b) (index sdiv 64);
        es \<leftarrow> go_update (Elements b) (index sdiv 64)
               (if v then e OR bit_mask index else e AND NOT (bit_mask index));
        Some (True, b\<lparr>Elements := es\<rparr>)
      })"

definition SetIndex ::
  "ArrayOfBits option \<Rightarrow> int \<Rightarrow> bool \<Rightarrow> (bool \<times> ArrayOfBits option) option" where
  "SetIndex b index v =
     (case b of None \<Rightarrow> Some (False, None)
      | Some a \<Rightarrow> do { (r, a') \<leftarrow> setIndex a index v; Some (r, Some a') })"

definition bits_copy :: "ArrayOfBits \<Rightarrow> ArrayOfBits" where
  "bits_copy b = \<lparr>Size = Size b, Elements = Elements b\<rparr>"

definition bits_Copy :: "ArrayOfBits option \<Rightarrow> ArrayOfBits option" where
  "bits_Copy b = map_option bits_copy b"

definition copyBits :: "ArrayOfBits \<Rightarrow> int \<Rightarrow> ArrayOfBits option" where
  "copyBits b size' = do {
     c \<leftarrow> make_u64 (numElements size');
     Some \<lparr>Size = size', Elements = go_copy c (Elements b)\<rparr>
   }"

text \<open>The loop \<^verbatim>\<open>for i := 0; i < n; i++ { c.Elements[i] op= input.Elements[i] }\<close>.\<close>

definition combine_elements ::
  "(u64 \<Rightarrow> u64 \<Rightarrow> u64) \<Rightarrow> nat \<Rightarrow> u64 list \<Rightarrow> u64 list \<Rightarrow> u64 list option" where
  "combine_elements f n xs c = foldM (\<lambda>i c. do {
       x \<leftarrow> go_index c (int i);
       y \<leftarrow> go_index xs (int i);
       go_update c (int i) (f x y)
     }) [0..<n] c"

definition bits_Or :: "ArrayOfBits option \<Rightarrow> ArrayOfBits option \<Rightarrow> ArrayOfBits option option" where
  "bits_Or b input =
     (case b of
        None \<Rightarrow> (case input of None \<Rightarrow> Some None | Some _ \<Rightarrow> Some (bits_Copy input))
      | Some a \<Rightarrow>
          (case input of
             None \<Rightarrow> Some (bits_Copy b)
           | Some i \<Rightarrow> do {
               c \<leftarrow> copyBits a (MaxInteger (Size a) (Size i));
               es \<leftarrow> combine_elements (OR)
                      (nat (MinInteger (int (length (Elements a))) (int (length (Elements i)))))
                      (Elements i) (Elements c);
               Some (Some (c\<lparr>Elements := es\<rparr>))
             }))"

definition bits_Xor :: "ArrayOfBits option \<Rightarrow> ArrayOfBits option \<Rightarrow> ArrayOfBits option option" where
  "bits_Xor b input =
     (case b of
        None \<Rightarrow> (case input of None \<Rightarrow> Some None | Some _ \<Rightarrow> Some (bits_Copy input))
      | Some a \<Rightarrow>
          (case input of
             None \<Rightarrow> Some (bits_Copy b)
           | Some i \<Rightarrow> do {
               c \<leftarrow> copyBits a (MaxInteger (Size a) (Size i));
               es \<leftarrow> combine_elements (XOR)
                      (nat (MinInteger (int (length (Elements a))) (int (length (Elements i)))))
                      (Elements i) (Elements c);
               Some (Some (c\<lparr>Elements := es\<rparr>))
             }))"

definition bits_and :: "ArrayOfBits \<Rightarrow> ArrayOfBits \<Rightarrow> ArrayOfBits option" where
  "bits_and b input = do {
     c \<leftarrow> copyBits b (MinInteger (Size b) (Size input));
     es \<leftarrow> combine_elements (AND) (length (Elements c)) (Elements input) (Elements c);
     Some (c\<lparr>Elements := es\<rparr>)
   }"

definition bits_And :: "ArrayOfBits option \<Rightarrow> ArrayOfBits option \<Rightarrow> ArrayOfBits option option" where
  "bits_And b input =
     (case (b, input) of
        (Some a, Some i) \<Rightarrow> do { c \<leftarrow> bits_and a i; Some (Some c) }
      | _ \<Rightarrow> Some None)"

definition bits_not :: "ArrayOfBits \<Rightarrow> ArrayOfBits" where
  "bits_not b = (let c = bits_copy b in c\<lparr>Elements := map NOT (Elements c)\<rparr>)"

definition bits_Not :: "ArrayOfBits option \<Rightarrow> ArrayOfBits option" where
  "bits_Not b = map_option bits_not b"

definition bits_Subtract ::
  "ArrayOfBits option \<Rightarrow> ArrayOfBits option \<Rightarrow> ArrayOfBits option option" where
  "bits_Subtract b input =
     (case (b, input) of
        (Some a, Some i) \<Rightarrow> do {
          c \<leftarrow> copyBits a (Size a);
          es \<leftarrow> combine_elements (\<lambda>x y. x AND NOT y)
                 (nat (MinInteger (int (length (Elements a))) (int (length (Elements i)))))
                 (Elements i) (Elements c);
          Some (Some (c\<lparr>Elements := es\<rparr>))
        }
      | _ \<Rightarrow> Some None)"

definition bits_IsEmpty :: "ArrayOfBits option \<Rightarrow> bool" where
  "bits_IsEmpty b = (case b of None \<Rightarrow> True | Some a \<Rightarrow> \<not> list_ex (\<lambda>e. e > 0) (Elements a))"

definition bits_IsFull :: "ArrayOfBits option \<Rightarrow> bool option" where
  "bits_IsFull b =
     (case b of
        None \<Rightarrow> Some True
      | Some a \<Rightarrow>
          (if Elements a = [] then None
           else if list_ex (\<lambda>e. NOT e \<noteq> 0) (butlast (Elements a)) then Some False
           else
             (let lastElemBits = (Size a + 63) smod 64 + 1;
                  lastElem = last (Elements a)
              in Some ((lastElem + 1)
                   AND (push_bit (nat (lastElemBits mod 2 ^ 64)) 1 - 1) = 0))))"

text \<open>The loops of \<^verbatim>\<open>GetTrueIndices\<close> and \<^verbatim>\<open>GetTrueIndicesMap\<close>: \<open>put\<close> records one set index,
  an append in the first and a map insertion in the second.\<close>

definition scan_element ::
  "(int \<Rightarrow> 'r \<Rightarrow> 'r) \<Rightarrow> u64 \<Rightarrow> nat \<Rightarrow> 'r \<times> int \<Rightarrow> 'r \<times> int" where
  "scan_element put elem n = fold (\<lambda>j (acc, curBit).
       (if elem AND push_bit j 1 > 0 then put curBit acc else acc, curBit + 1)) [0..<n]"

definition scan_array :: "(int \<Rightarrow> 'r \<Rightarrow> 'r) \<Rightarrow> ArrayOfBits \<Rightarrow> 'r \<Rightarrow> 'r option" where
  "scan_array put b acc0 =
     (if Elements b = [] then None
      else
        (let (acc, curBit) = fold (\<lambda>elem (acc, curBit).
               if elem = 0 then (acc, curBit + 64)
               else scan_element put elem 64 (acc, curBit)) (butlast (Elements b)) (acc0, 0);
             lastElem = last (Elements b);
             numFinalSize = Size b - curBit
         in Some (fst (scan_element put lastElem (nat numFinalSize) (acc, curBit)))))"

definition GetTrueIndices :: "ArrayOfBits \<Rightarrow> int list option" where
  "GetTrueIndices b = scan_array (\<lambda>i acc. acc @ [i]) b []"

definition GetTrueIndicesMap :: "ArrayOfBits \<Rightarrow> int set option" where
  "GetTrueIndicesMap b = scan_array insert b {}"

definition TrueIndicesSize :: "ArrayOfBits \<Rightarrow> int option" where
  "TrueIndicesSize b = map_option (\<lambda>xs. int (length xs)) (GetTrueIndices b)"

text \<open>\<open>Intn\<close> is \<^verbatim>\<open>math/rand.Intn\<close>, a value below its argument.\<close>

definition PickRandom :: "(int \<Rightarrow> int) \<Rightarrow> ArrayOfBits option \<Rightarrow> (int \<times> bool) option" where
  "PickRandom Intn b =
     (case b of
        None \<Rightarrow> Some (0, False)
      | Some a \<Rightarrow> do {
          trueIndices \<leftarrow> GetTrueIndices a;
          if length trueIndices = 0 then Some (0, False)
          else do {
            i \<leftarrow> go_index trueIndices (Intn (int (length trueIndices)));
            Some (i, True)
          }
        })"

text \<open>\<^verbatim>\<open>binary.LittleEndian.PutUint64\<close>.\<close>

definition PutUint64 :: "u64 \<Rightarrow> u8 list" where
  "PutUint64 w = map (\<lambda>k. ucast (drop_bit (8 * k) w)) [0..<8]"

definition bits_Bytes :: "ArrayOfBits \<Rightarrow> u8 list option" where
  "bits_Bytes b =
     (let numBytes = (Size b + 7) sdiv 8
      in if numBytes < 0 then None
         else foldM (\<lambda>i bytes.
                if i * 8 \<le> length bytes
                then Some (take (i * 8) bytes
                       @ go_copy (drop (i * 8) bytes) (PutUint64 (Elements b ! i)))
                else None)
              [0..<length (Elements b)] (replicate (nat numBytes) 0))"

definition bits_Update :: "ArrayOfBits option \<Rightarrow> ArrayOfBits option \<Rightarrow> ArrayOfBits option" where
  "bits_Update b inputbits =
     (case (b, inputbits) of
        (Some a, Some i) \<Rightarrow> Some (a\<lparr>Elements := go_copy (Elements a) (Elements i)\<rparr>)
      | _ \<Rightarrow> b)"

section \<open>Well-formed arrays and the bit they hold at an index\<close>

definition wf_bits :: "ArrayOfBits \<Rightarrow> bool" where
  "wf_bits b \<longleftrightarrow> 0 < Size b \<and> int (length (Elements b)) = numElements (Size b)"

definition bit_at :: "ArrayOfBits \<Rightarrow> nat \<Rightarrow> bool" where
  "bit_at b n \<longleftrightarrow> int n < Size b \<and> bit (Elements b ! (n div 64)) (n mod 64)"

lemma sdiv_pos: "0 \<le> (a::int) \<Longrightarrow> 0 < b \<Longrightarrow> a sdiv b = a div b"
  by (cases "a = 0") (auto simp: signed_divide_int_def)

lemma smod_pos: "0 \<le> (a::int) \<Longrightarrow> 0 < b \<Longrightarrow> a smod b = a mod b"
  by (cases "a = 0") (auto simp: signed_modulo_int_def)

lemma numElements_pos: "0 \<le> n \<Longrightarrow> numElements n = (n + 63) div 64"
  by (simp add: numElements_def sdiv_pos)

lemma bit_mask_int: "bit_mask (int n) = 2 ^ (n mod 64)"
proof -
  have "(int n smod 64) mod 2 ^ 64 = int (n mod 64)"
    by (simp add: smod_pos zmod_int)
  then show ?thesis by (simp add: bit_mask_def del: of_nat_mod)
qed

lemma element_index: "int n sdiv 64 = int (n div 64)"
  by (simp add: sdiv_pos zdiv_int)

lemma wf_bits_element_lt: "wf_bits b \<Longrightarrow> int n < Size b \<Longrightarrow> n div 64 < length (Elements b)"
  by (simp add: wf_bits_def numElements_pos)

lemma wf_bits_nonempty: "wf_bits b \<Longrightarrow> Elements b \<noteq> []"
  by (auto simp: wf_bits_def numElements_pos)

lemma wf_bits_length: "wf_bits b \<Longrightarrow> length (Elements b) = (nat (Size b) + 63) div 64"
proof -
  assume wf: "wf_bits b"
  then obtain k where "Size b = int k" by (metis wf_bits_def order_less_imp_le nonneg_int_cases)
  with wf have "int (length (Elements b)) = int ((k + 63) div 64)"
    by (simp add: wf_bits_def numElements_pos zdiv_int)
  with \<open>Size b = int k\<close> show ?thesis by (simp only: of_nat_eq_iff nat_int)
qed

lemma wf_bits_split:
  assumes "wf_bits b"
  obtains k r where "length (Elements b) = Suc k" and "Size b = int (64 * k + r)"
    and "0 < r" and "r \<le> 64"
proof -
  define k where "k = length (Elements b) - 1"
  have len: "length (Elements b) = Suc k" using wf_bits_nonempty [OF assms] by (simp add: k_def)
  then have "64 * k < nat (Size b)" "nat (Size b) - 64 * k \<le> 64"
    using wf_bits_length [OF assms] by auto
  with len show ?thesis using that [of k "nat (Size b) - 64 * k"] by simp
qed

section \<open>Reading and writing one bit\<close>

lemma getIndex_int: "wf_bits b \<Longrightarrow> getIndex b (int n) = Some (bit_at b n)"
  using wf_bits_element_lt [of b n]
  by (auto simp: getIndex_def bit_at_def bit_mask_int element_index and_exp_gt_0)

lemma bit_set_mask:
  fixes e :: u64
  assumes "n < 64"
  shows "bit (if v then e OR 2 ^ n else e AND NOT (2 ^ n)) m
    \<longleftrightarrow> (if m = n then v else bit e m)"
  using assms by (auto simp: bit_simps dest: bit_imp_le_length)

lemma setIndex_int:
  assumes "wf_bits b" and "int n < Size b"
  obtains b' where "setIndex b (int n) v = Some (True, b')" and "wf_bits b'"
    and "Size b' = Size b" and "\<And>m. bit_at b' m \<longleftrightarrow> (if m = n then v else bit_at b m)"
proof -
  let ?i = "n div 64"
  let ?e = "if v then Elements b ! ?i OR bit_mask (int n) else Elements b ! ?i AND NOT (bit_mask (int n))"
  let ?b = "b\<lparr>Elements := (Elements b)[?i := ?e]\<rparr>"
  have i: "?i < length (Elements b)" using assms by (rule wf_bits_element_lt)
  have "setIndex b (int n) v = Some (True, ?b)"
    using assms(2) i by (simp add: setIndex_def element_index)
  moreover have "wf_bits ?b" using assms(1) by (simp add: wf_bits_def)
  moreover have "bit_at ?b m \<longleftrightarrow> (if m = n then v else bit_at b m)" for m
  proof (cases "m div 64 = ?i")
    case True
    then have "m mod 64 = n mod 64 \<longleftrightarrow> m = n"
      by (metis div_mult_mod_eq)
    with True i assms(2) show ?thesis
      using bit_set_mask [of "n mod 64" v "Elements b ! ?i" "m mod 64"]
      by (auto simp: bit_at_def bit_mask_int)
  next
    case False
    then show ?thesis by (auto simp: bit_at_def)
  qed
  ultimately show ?thesis using that by simp
qed

lemma setIndex_out: "Size b \<le> i \<Longrightarrow> setIndex b i v = Some (False, b)"
  by (simp add: setIndex_def)

section \<open>The interface of the bit array\<close>

text \<open>
  What the vote sets and node sets rely on: inside the size every write is seen by the next
  read of that index and of no other, outside the size nothing is written. From these laws the
  number of set bits follows the writes, which is what the response counters are compared to.
\<close>

locale bit_array =
  fixes inv :: "'b \<Rightarrow> bool"
    and len :: "'b \<Rightarrow> int"
    and get :: "'b \<Rightarrow> int \<Rightarrow> bool option"
    and put :: "'b \<Rightarrow> int \<Rightarrow> bool \<Rightarrow> (bool \<times> 'b) option"
  assumes get_in: "inv b \<Longrightarrow> 0 \<le> i \<Longrightarrow> \<exists>v. get b i = Some v"
    and get_out: "len b \<le> i \<Longrightarrow> get b i = Some False"
    and put_in: "inv b \<Longrightarrow> 0 \<le> i \<Longrightarrow> i < len b \<Longrightarrow>
      \<exists>b'. put b i v = Some (True, b') \<and> inv b' \<and> len b' = len b
        \<and> (\<forall>j \<ge> 0. get b' j = (if j = i then Some v else get b j))"
    and put_out: "len b \<le> i \<Longrightarrow> put b i v = Some (False, b)"
begin

definition ones :: "'b \<Rightarrow> int set" where
  "ones b = {i. 0 \<le> i \<and> get b i = Some True}"

lemma ones_bounded: "ones b \<subseteq> {0..<len b}"
proof
  fix i assume "i \<in> ones b"
  then show "i \<in> {0..<len b}" using get_out [of b i] by (force simp: ones_def)
qed

lemma finite_ones [simp]: "finite (ones b)"
  by (rule finite_subset [OF ones_bounded]) simp

lemma card_ones_le: "inv b \<Longrightarrow> 0 \<le> len b \<Longrightarrow> int (card (ones b)) \<le> len b"
  using card_mono [OF _ ones_bounded [of b]] by simp

lemma put_total: "inv b \<Longrightarrow> 0 \<le> i \<Longrightarrow> \<exists>r b'. put b i v = Some (r, b') \<and> inv b' \<and> len b' = len b"
  using put_in [of b i v] put_out [of b i v] by (cases "i < len b") force+

lemma put_ones:
  assumes "inv b" and "0 \<le> i" and "i < len b" and "put b i v = Some (r, b')"
  shows "ones b' = (if v then insert i (ones b) else ones b - {i})"
  using put_in [OF assms(1-3), of v] assms(2,4) by (auto simp: ones_def split: if_splits)

lemma put_new_card:
  assumes "inv b" and "0 \<le> i" and "i < len b" and "get b i = Some False"
    and "put b i True = Some (r, b')"
  shows "card (ones b') = Suc (card (ones b))"
proof -
  have "i \<notin> ones b" using assms(4) by (simp add: ones_def)
  then show ?thesis using put_ones [OF assms(1-3,5)] by simp
qed

end

lemma nonneg_int_obtain: "0 \<le> (i::int) \<Longrightarrow> (\<And>n. i = int n \<Longrightarrow> P) \<Longrightarrow> P"
  by (metis nonneg_int_cases)

interpretation ab: bit_array wf_bits Size getIndex setIndex
proof
  fix b :: ArrayOfBits and i :: int and v :: bool
  show "wf_bits b \<Longrightarrow> 0 \<le> i \<Longrightarrow> \<exists>v. getIndex b i = Some v"
    by (erule nonneg_int_obtain) (simp add: getIndex_int)
  show "Size b \<le> i \<Longrightarrow> getIndex b i = Some False"
    by (simp add: getIndex_def)
  show "Size b \<le> i \<Longrightarrow> setIndex b i v = Some (False, b)"
    by (rule setIndex_out)
  assume wf: "wf_bits b" and i: "0 \<le> i" "i < Size b"
  from i(1) obtain n where n: "i = int n" by (rule nonneg_int_obtain)
  from wf i(2) obtain b' where b': "setIndex b i v = Some (True, b')" "wf_bits b'" "Size b' = Size b"
      "\<And>m. bit_at b' m \<longleftrightarrow> (if m = n then v else bit_at b m)"
    unfolding n by (rule setIndex_int) blast
  have "getIndex b' j = (if j = i then Some v else getIndex b j)" if j: "0 \<le> j" for j
    using j by (rule nonneg_int_obtain) (simp add: n getIndex_int wf b')
  with b' show "\<exists>b'. setIndex b i v = Some (True, b') \<and> wf_bits b' \<and> Size b' = Size b
      \<and> (\<forall>j\<ge>0. getIndex b' j = (if j = i then Some v else getIndex b j))"
    by blast
qed

lemma NewArrayOfBits_wf: "0 < n \<Longrightarrow> \<exists>b. NewArrayOfBits n = Some b \<and> wf_bits b \<and> Size b = n \<and> (\<forall>m. \<not> bit_at b m)"
  by (auto simp: NewArrayOfBits_def wf_bits_def numElements_pos bit_at_def)

section \<open>Bit arrays behind a pointer\<close>

text \<open>\<^verbatim>\<open>NewArrayOfBits\<close> gives nil for an empty size, and the methods treat nil as an empty array: a
  pointer to a bit array of \<open>n\<close> bits is read as a list of \<open>n\<close> Booleans.\<close>

definition wf_obits :: "nat \<Rightarrow> ArrayOfBits option \<Rightarrow> bool" where
  "wf_obits n ob \<longleftrightarrow> (case ob of None \<Rightarrow> n = 0 | Some b \<Rightarrow> wf_bits b \<and> Size b = int n)"

definition obit :: "ArrayOfBits option \<Rightarrow> nat \<Rightarrow> bool" where
  "obit ob j \<longleftrightarrow> (case ob of None \<Rightarrow> False | Some b \<Rightarrow> bit_at b j)"

definition obits :: "nat \<Rightarrow> ArrayOfBits option \<Rightarrow> bool list" where
  "obits n ob = map (obit ob) [0..<n]"

lemma length_obits [simp]: "length (obits n ob) = n"
  by (simp add: obits_def)

lemma nth_obits [simp]: "j < n \<Longrightarrow> obits n ob ! j = obit ob j"
  by (simp add: obits_def)

lemma obit_out: "wf_obits n ob \<Longrightarrow> n \<le> j \<Longrightarrow> \<not> obit ob j"
  by (auto simp: wf_obits_def obit_def bit_at_def split: option.splits)

lemma GetIndex_obit: "wf_obits n ob \<Longrightarrow> GetIndex ob (int j) = Some (obit ob j)"
  by (auto simp: wf_obits_def obit_def GetIndex_def getIndex_int split: option.splits)

lemma SetIndex_obits:
  assumes "wf_obits n ob" and "j < n"
  obtains ob' where "SetIndex ob (int j) v = Some (True, ob')" and "wf_obits n ob'"
    and "obits n ob' = (obits n ob)[j := v]"
proof -
  obtain b where b: "ob = Some b" "wf_bits b" "Size b = int n"
    using assms by (auto simp: wf_obits_def split: option.splits)
  have "int j < Size b" using b(3) assms(2) by simp
  with b(2) obtain b' where b': "setIndex b (int j) v = Some (True, b')" "wf_bits b'" "Size b' = Size b"
      "\<And>m. bit_at b' m \<longleftrightarrow> (if m = j then v else bit_at b m)"
    by (rule setIndex_int) blast
  have "obits n (Some b') = (obits n ob)[j := v]"
    by (rule nth_equalityI) (auto simp: obit_def b(1) b'(4) nth_list_update)
  then show ?thesis using that [of "Some b'"] b b' by (simp add: SetIndex_def wf_obits_def)
qed

lemma NewArrayOfBits_obits:
  "wf_obits n (NewArrayOfBits (int n)) \<and> obits n (NewArrayOfBits (int n)) = replicate n False"
proof (cases "n = 0")
  case True
  then show ?thesis by (simp add: NewArrayOfBits_def wf_obits_def obits_def)
next
  case False
  then obtain b where "NewArrayOfBits (int n) = Some b" "wf_bits b" "Size b = int n" "\<forall>m. \<not> bit_at b m"
    using NewArrayOfBits_wf [of "int n"] by auto
  then show ?thesis by (auto simp: wf_obits_def obit_def intro: nth_equalityI)
qed

section \<open>The scan for set bits\<close>

declare upt_rec_numeral [simp del]

lemma scan_element_fold:
  "scan_element put e n (acc, cur)
    = (fold put (map (\<lambda>j. cur + int j) (filter (bit e) [0..<n])) acc, cur + int n)"
  by (induction n) (simp_all add: scan_element_def and_exp_gt_0)

lemma filter_bit_0 [simp]: "filter (bit (0::u64)) xs = []"
  by (induction xs) auto

definition set_positions :: "u64 list \<Rightarrow> nat \<Rightarrow> nat list" where
  "set_positions es n = filter (\<lambda>m. bit (es ! (m div 64)) (m mod 64)) [0..<n]"

lemma set_positions_extend:
  assumes "n \<le> 64"
  shows "set_positions es (64 * k + n)
    = set_positions es (64 * k) @ map (\<lambda>j. 64 * k + j) (filter (bit (es ! k)) [0..<n])"
proof -
  have "[0..<64 * k + n] = [0..<64 * k] @ map (\<lambda>j. 64 * k + j) [0..<n]"
    by (rule nth_equalityI) (auto simp: nth_append)
  moreover have "filter (\<lambda>m. bit (es ! (m div 64)) (m mod 64)) (map (\<lambda>j. 64 * k + j) [0..<n])
      = map (\<lambda>j. 64 * k + j) (filter (bit (es ! k)) [0..<n])"
    using assms by (auto simp: filter_map o_def intro!: filter_cong)
  ultimately show ?thesis by (simp add: set_positions_def)
qed

lemma scan_prefix:
  assumes "k \<le> length es"
  shows "fold (\<lambda>elem (acc, curBit). if elem = 0 then (acc, curBit + 64)
           else scan_element put elem 64 (acc, curBit)) (take k es) (acc, 0)
    = (fold put (map int (set_positions es (64 * k))) acc, int (64 * k))"
  using assms
proof (induction k)
  case 0
  then show ?case by (simp add: set_positions_def)
next
  case (Suc k)
  have "set_positions es (64 * Suc k)
      = set_positions es (64 * k) @ map (\<lambda>j. 64 * k + j) (filter (bit (es ! k)) [0..<64])"
    using set_positions_extend [of 64 es k] by (simp add: algebra_simps)
  with Suc show ?case
    by (auto simp: take_Suc_conv_app_nth scan_element_fold o_def)
qed

lemma set_positions_bit_at:
  "set_positions (Elements b) (nat (Size b)) = filter (bit_at b) [0..<nat (Size b)]"
  unfolding set_positions_def by (rule filter_cong) (auto simp: bit_at_def)

lemma scan_array_eq:
  assumes "wf_bits b"
  shows "scan_array put b acc = Some (fold put (map int (filter (bit_at b) [0..<nat (Size b)])) acc)"
proof -
  let ?es = "Elements b" and ?n = "nat (Size b)"
  obtain k r where kr: "length ?es = Suc k" "Size b = int (64 * k + r)" "r \<le> 64"
    using assms by (rule wf_bits_split)
  then have r: "?n = 64 * k + r" by simp
  have last: "last ?es = ?es ! k"
    using wf_bits_nonempty [OF assms] kr(1) by (simp add: last_conv_nth)
  have tk: "butlast ?es = take k ?es" using kr(1) by (simp add: butlast_conv_take)
  have sz: "nat (Size b - int (64 * k)) = r" using kr(2) by simp
  have "scan_array put b acc
      = Some (fold put (map (\<lambda>j. int (64 * k) + int j) (filter (bit (?es ! k)) [0..<r]))
          (fold put (map int (set_positions ?es (64 * k))) acc))"
    using kr(1) wf_bits_nonempty [OF assms]
    by (simp add: scan_array_def tk last scan_prefix scan_element_fold sz del: of_nat_mult)
  also have "\<dots> = Some (fold put (map int (set_positions ?es ?n)) acc)"
    using kr(3) by (simp add: r set_positions_extend o_def)
  finally show ?thesis by (simp add: set_positions_bit_at)
qed

lemma fold_snoc: "fold (\<lambda>i acc. acc @ [i]) xs acc = acc @ xs"
  by (induction xs arbitrary: acc) auto

lemma fold_insert: "fold insert xs A = set xs \<union> A"
  by (induction xs arbitrary: A) auto

lemma GetTrueIndices_eq:
  "wf_bits b \<Longrightarrow> GetTrueIndices b = Some (map int (filter (bit_at b) [0..<nat (Size b)]))"
  by (simp add: GetTrueIndices_def scan_array_eq fold_snoc)

lemma ones_bit_at: "wf_bits b \<Longrightarrow> ab.ones b = int ` {n. bit_at b n}"
  by (auto simp: ab.ones_def getIndex_int image_iff elim!: nonneg_int_obtain)

lemma set_bit_at_filter: "set (filter (bit_at b) [0..<nat (Size b)]) = {n. bit_at b n}"
  by (auto simp: bit_at_def)

lemma GetTrueIndicesMap_eq: "wf_bits b \<Longrightarrow> GetTrueIndicesMap b = Some (ab.ones b)"
  by (simp add: GetTrueIndicesMap_def scan_array_eq fold_insert ones_bit_at set_bit_at_filter
      del: set_filter)

lemma TrueIndicesSize_eq: "wf_bits b \<Longrightarrow> TrueIndicesSize b = Some (int (card (ab.ones b)))"
proof -
  assume wf: "wf_bits b"
  have "card (ab.ones b) = card {n. bit_at b n}"
    by (simp add: ones_bit_at [OF wf] card_image)
  also have "\<dots> = length (filter (bit_at b) [0..<nat (Size b)])"
    using distinct_card [of "filter (bit_at b) [0..<nat (Size b)]"]
    by (simp add: set_bit_at_filter del: set_filter)
  finally show ?thesis by (simp add: TrueIndicesSize_def GetTrueIndices_eq [OF wf])
qed

section \<open>The bitwise operations as set operations\<close>

lemma combine_elements_nth:
  assumes "n \<le> length xs" and "n \<le> length c"
  shows "\<exists>es. combine_elements f n xs c = Some es \<and> length es = length c
    \<and> (\<forall>i < length c. es ! i = (if i < n then f (c ! i) (xs ! i) else c ! i))"
  using assms
proof (induction n)
  case 0
  then show ?case by (simp add: combine_elements_def)
next
  case (Suc n)
  then obtain es where es: "combine_elements f n xs c = Some es" "length es = length c"
      "\<forall>i < length c. es ! i = (if i < n then f (c ! i) (xs ! i) else c ! i)"
    by auto
  have "combine_elements f (Suc n) xs c = Some (es[n := f (es ! n) (xs ! n)])"
    using es Suc.prems by (simp add: combine_elements_def foldM_append)
  with es Suc.prems show ?case by (auto simp: nth_list_update less_Suc_eq)
qed

lemma copyBits_same: "wf_bits b \<Longrightarrow> copyBits b (Size b) = Some (bits_copy b)"
  by (auto simp: copyBits_def make_u64_def wf_bits_def bits_copy_def go_copy_same_length
      intro!: go_copy_same_length)

text \<open>One element-wise loop over two arrays of the same size computes one boolean operation
  on every pair of bits.\<close>

lemma combine_same_size:
  assumes "wf_bits b" and "wf_bits c" and "Size c = Size b"
    and f: "\<And>x y j. j < 64 \<Longrightarrow> bit (f x y) j \<longleftrightarrow> g (bit x j) (bit y j)"
  obtains r where
    "combine_elements f (length (Elements b)) (Elements c) (Elements b) = Some (Elements r)"
    and "Size r = Size b" and "wf_bits r"
    and "\<And>n. bit_at r n \<longleftrightarrow> int n < Size b \<and> g (bit_at b n) (bit_at c n)"
proof -
  have len: "length (Elements c) = length (Elements b)"
    using assms by (simp add: wf_bits_length)
  then obtain es where es: "combine_elements f (length (Elements b)) (Elements c) (Elements b) = Some es"
      "length es = length (Elements b)"
      "\<forall>i < length (Elements b). es ! i = f (Elements b ! i) (Elements c ! i)"
    using combine_elements_nth [of "length (Elements b)" "Elements c" "Elements b" f] by auto
  let ?r = "\<lparr>Size = Size b, Elements = es\<rparr>"
  have "wf_bits ?r" using assms(1) es(2) by (simp add: wf_bits_def)
  moreover have "bit_at ?r n \<longleftrightarrow> int n < Size b \<and> g (bit_at b n) (bit_at c n)" for n
    using es(3) wf_bits_element_lt [OF assms(1)] assms(3) by (auto simp: bit_at_def f)
  ultimately show ?thesis using es(1) that [of ?r] by simp
qed

lemma ones_eqI:
  assumes "wf_bits r" and "\<And>n. bit_at r n \<longleftrightarrow> int n \<in> A" and "\<And>i. i \<in> A \<Longrightarrow> 0 \<le> i"
  shows "ab.ones r = A"
  using assms by (fastforce simp: ones_bit_at elim: nonneg_int_obtain)

lemma bit_at_lt: "bit_at b n \<Longrightarrow> int n < Size b"
  by (simp add: bit_at_def)

lemma in_ones: "wf_bits b \<Longrightarrow> int n \<in> ab.ones b \<longleftrightarrow> bit_at b n"
  by (auto simp: ones_bit_at)

lemma ones_nonneg: "i \<in> ab.ones b \<Longrightarrow> 0 \<le> i"
  by (simp add: ab.ones_def)

lemmas combine_defs = bits_copy_def MaxInteger_def MinInteger_def Let_def

lemma bits_Or_ones:
  assumes "wf_bits b" and "wf_bits c" and "Size c = Size b"
  shows "\<exists>r. bits_Or (Some b) (Some c) = Some (Some r) \<and> wf_bits r
    \<and> ab.ones r = ab.ones b \<union> ab.ones c"
proof -
  obtain r where r: "combine_elements (OR) (length (Elements b)) (Elements c) (Elements b) = Some (Elements r)"
      "Size r = Size b" "wf_bits r" "\<And>n. bit_at r n \<longleftrightarrow> int n < Size b \<and> (bit_at b n \<or> bit_at c n)"
    by (rule combine_same_size [OF assms, of "(OR)" "(\<or>)"]) (auto simp: bit_simps)
  have "bits_Or (Some b) (Some c) = Some (Some r)"
    using r(1,2) assms by (simp add: bits_Or_def copyBits_same combine_defs wf_bits_length)
  moreover have "ab.ones r = ab.ones b \<union> ab.ones c"
    by (rule ones_eqI [OF r(3)])
      (auto simp: r(4) in_ones assms dest: bit_at_lt ones_nonneg)
  ultimately show ?thesis using r(3) by blast
qed

lemma bits_Xor_ones:
  assumes "wf_bits b" and "wf_bits c" and "Size c = Size b"
  shows "\<exists>r. bits_Xor (Some b) (Some c) = Some (Some r) \<and> wf_bits r
    \<and> ab.ones r = (ab.ones b - ab.ones c) \<union> (ab.ones c - ab.ones b)"
proof -
  obtain r where r: "combine_elements (XOR) (length (Elements b)) (Elements c) (Elements b) = Some (Elements r)"
      "Size r = Size b" "wf_bits r" "\<And>n. bit_at r n \<longleftrightarrow> int n < Size b \<and> (bit_at b n \<noteq> bit_at c n)"
    by (rule combine_same_size [OF assms, of "(XOR)" "(\<noteq>)"]) (auto simp: bit_simps)
  have "bits_Xor (Some b) (Some c) = Some (Some r)"
    using r(1,2) assms by (simp add: bits_Xor_def copyBits_same combine_defs wf_bits_length)
  moreover have "ab.ones r = (ab.ones b - ab.ones c) \<union> (ab.ones c - ab.ones b)"
    by (rule ones_eqI [OF r(3)])
      (auto simp: r(4) in_ones assms dest: bit_at_lt ones_nonneg)
  ultimately show ?thesis using r(3) by blast
qed

lemma bits_And_ones:
  assumes "wf_bits b" and "wf_bits c" and "Size c = Size b"
  shows "\<exists>r. bits_And (Some b) (Some c) = Some (Some r) \<and> wf_bits r
    \<and> ab.ones r = ab.ones b \<inter> ab.ones c"
proof -
  obtain r where r: "combine_elements (AND) (length (Elements b)) (Elements c) (Elements b) = Some (Elements r)"
      "Size r = Size b" "wf_bits r" "\<And>n. bit_at r n \<longleftrightarrow> int n < Size b \<and> (bit_at b n \<and> bit_at c n)"
    by (rule combine_same_size [OF assms, of "(AND)" "(\<and>)"]) (auto simp: bit_simps)
  have "bits_And (Some b) (Some c) = Some (Some r)"
    using r(1,2) assms by (simp add: bits_And_def bits_and_def copyBits_same combine_defs wf_bits_length)
  moreover have "ab.ones r = ab.ones b \<inter> ab.ones c"
    by (rule ones_eqI [OF r(3)])
      (auto simp: r(4) in_ones assms dest: bit_at_lt ones_nonneg)
  ultimately show ?thesis using r(3) by blast
qed

lemma bits_Subtract_ones:
  assumes "wf_bits b" and "wf_bits c" and "Size c = Size b"
  shows "\<exists>r. bits_Subtract (Some b) (Some c) = Some (Some r) \<and> wf_bits r
    \<and> ab.ones r = ab.ones b - ab.ones c"
proof -
  obtain r where r: "combine_elements (\<lambda>x y. x AND NOT y) (length (Elements b)) (Elements c) (Elements b) = Some (Elements r)"
      "Size r = Size b" "wf_bits r" "\<And>n. bit_at r n \<longleftrightarrow> int n < Size b \<and> (bit_at b n \<and> \<not> bit_at c n)"
    by (rule combine_same_size [OF assms, of "\<lambda>x y. x AND NOT y" "\<lambda>x y. x \<and> \<not> y"]) (auto simp: bit_simps)
  have "bits_Subtract (Some b) (Some c) = Some (Some r)"
    using r(1,2) assms by (simp add: bits_Subtract_def copyBits_same combine_defs wf_bits_length)
  moreover have "ab.ones r = ab.ones b - ab.ones c"
    by (rule ones_eqI [OF r(3)])
      (auto simp: r(4) in_ones assms dest: bit_at_lt ones_nonneg)
  ultimately show ?thesis using r(3) by blast
qed

lemma bits_Not_ones:
  assumes "wf_bits b"
  shows "\<exists>r. bits_Not (Some b) = Some r \<and> wf_bits r \<and> ab.ones r = {0..<Size b} - ab.ones b"
proof -
  have wf: "wf_bits (bits_not b)"
    using assms by (simp add: wf_bits_def bits_not_def bits_copy_def)
  moreover have "ab.ones (bits_not b) = {0..<Size b} - ab.ones b"
    using wf by (rule ones_eqI)
      (use assms wf_bits_element_lt [OF assms] in
        \<open>auto simp: in_ones bit_at_def bit_not_iff bits_not_def bits_copy_def\<close>)
  ultimately show ?thesis by (simp add: bits_Not_def)
qed

section \<open>Emptiness, fullness, bytes\<close>

lemma all_low_bits:
  fixes e :: u64
  shows "(e + 1) AND (2 ^ r - 1) = 0 \<longleftrightarrow> (\<forall>j < r. j < 64 \<longrightarrow> bit e j)"
proof -
  have "(e + 1) AND (2 ^ r - 1) = take_bit r (e + 1)"
    by (simp add: take_bit_eq_mask mask_eq_exp_minus_1)
  moreover have "e + 1 = - NOT e" by (simp add: not_eq_complement)
  moreover have "take_bit r (- NOT e) = 0 \<longleftrightarrow> take_bit r (NOT e) = 0"
    by (simp add: take_bit_eq_0_iff)
  moreover have "take_bit r (NOT e) = 0 \<longleftrightarrow> (\<forall>j < r. j < 64 \<longrightarrow> bit e j)"
    by (auto simp: bit_eq_iff bit_simps)
  ultimately show ?thesis by simp
qed

lemma not_eq_0_all_bits: "NOT (e::u64) = 0 \<longleftrightarrow> (\<forall>j < 64. bit e j)"
  by (auto simp: bit_eq_iff bit_simps)

lemma bits_IsFull_eq:
  assumes "wf_bits b"
  shows "bits_IsFull (Some b) = Some (\<forall>n < nat (Size b). bit_at b n)"
proof -
  obtain k r where kr: "length (Elements b) = Suc k" "Size b = int (64 * k + r)" "0 < r" "r \<le> 64"
    using assms by (rule wf_bits_split)
  have last: "last (Elements b) = Elements b ! k"
    using kr(1) wf_bits_nonempty [OF assms] by (simp add: last_conv_nth)
  obtain q where q: "r = Suc q" "q < 64" using kr(3,4) by (cases r) auto
  then have "Size b + 63 = int (64 * Suc k + q)" using kr(2) by simp
  then have "(Size b + 63) smod 64 = int ((64 * Suc k + q) mod 64)"
    by (simp only: smod_pos zmod_int of_nat_0_le_iff) (simp add: smod_pos)
  also have "(64 * Suc k + q) mod 64 = q" using q(2) by (simp only: mod_mult_self4 mod_less)
  finally have "(Size b + 63) smod 64 + 1 = int r" using q(1) by simp
  then have r: "nat (((Size b + 63) smod 64 + 1) mod 18446744073709551616) = r" using kr(4) by simp
  have "(\<forall>n < nat (Size b). bit_at b n) \<longleftrightarrow>
      (\<forall>i < k. NOT (Elements b ! i) = 0) \<and> (\<forall>j < r. bit (Elements b ! k) j)" (is "?L \<longleftrightarrow> ?A \<and> ?B")
  proof
    assume L: ?L
    have "bit (Elements b ! i) j" if "j < 64" "64 * i + j < 64 * k + r" for i j
      using L [rule_format, of "64 * i + j"] that kr(2) by (simp add: bit_at_def)
    then show "?A \<and> ?B" using kr(4) by (force simp: not_eq_0_all_bits)
  next
    assume AB: "?A \<and> ?B"
    show ?L
    proof (intro allI impI)
      fix n assume n: "n < nat (Size b)"
      show "bit_at b n"
      proof (cases "n div 64 < k")
        case True
        with AB n show ?thesis by (simp add: bit_at_def not_eq_0_all_bits)
      next
        case False
        from n kr(2) have nn: "n < 64 * k + r" by simp
        with False kr(4) have d: "n div 64 = k" by linarith
        moreover have "n mod 64 < r" using div_mult_mod_eq [of n 64] nn d by linarith
        ultimately have "n div 64 = k" "n mod 64 < r" by blast+
        with AB n show ?thesis by (simp add: bit_at_def)
      qed
    qed
  qed
  moreover have "list_ex (\<lambda>e. NOT e \<noteq> 0) (butlast (Elements b)) \<longleftrightarrow> \<not> (\<forall>i < k. NOT (Elements b ! i) = 0)"
    using kr(1) by (auto simp: list_ex_length butlast_conv_take)
  ultimately show ?thesis
    using wf_bits_nonempty [OF assms] kr(4)
    by (auto simp: bits_IsFull_def Let_def r last all_low_bits)
qed

text \<open>The padding bits of the last element, beyond the size.\<close>

definition padding_clear :: "ArrayOfBits \<Rightarrow> bool" where
  "padding_clear b \<longleftrightarrow> (\<forall>n < 64 * length (Elements b). bit (Elements b ! (n div 64)) (n mod 64) \<longrightarrow> int n < Size b)"

lemma bits_IsEmpty_eq:
  assumes "wf_bits b" and "padding_clear b"
  shows "bits_IsEmpty (Some b) \<longleftrightarrow> (\<forall>n. \<not> bit_at b n)"
proof -
  have "(\<exists>e \<in> set (Elements b). e > 0) \<longleftrightarrow> (\<exists>n < 64 * length (Elements b). bit (Elements b ! (n div 64)) (n mod 64))"
  proof
    assume "\<exists>e \<in> set (Elements b). e > 0"
    then obtain i where i: "i < length (Elements b)" "Elements b ! i \<noteq> 0"
      by (auto simp: in_set_conv_nth word_neq_0_conv)
    then obtain j where "bit (Elements b ! i) j" by (auto simp: bit_eq_iff)
    moreover from this have "j < 64" by (auto dest: bit_imp_le_length)
    ultimately show "\<exists>n < 64 * length (Elements b). bit (Elements b ! (n div 64)) (n mod 64)"
      using i by (intro exI [of _ "64 * i + j"]) auto
  next
    assume "\<exists>n < 64 * length (Elements b). bit (Elements b ! (n div 64)) (n mod 64)"
    then obtain n where n: "n < 64 * length (Elements b)" "bit (Elements b ! (n div 64)) (n mod 64)"
      by blast
    then have "Elements b ! (n div 64) > 0" by (auto simp: word_neq_0_conv [symmetric])
    moreover have "Elements b ! (n div 64) \<in> set (Elements b)" using n(1) by (intro nth_mem) simp
    ultimately show "\<exists>e \<in> set (Elements b). e > 0" by blast
  qed
  moreover have "n < 64 * length (Elements b)" if "int n < Size b" for n
    using wf_bits_element_lt [OF assms(1) that] by linarith
  ultimately show ?thesis
    using assms(2) by (auto simp: bits_IsEmpty_def list_ex_iff padding_clear_def bit_at_def)
qed

lemma nth_PutUint64: "k < 8 \<Longrightarrow> PutUint64 w ! k = ucast (drop_bit (8 * k) w)"
  by (simp add: PutUint64_def)

lemma length_PutUint64 [simp]: "length (PutUint64 w) = 8"
  by (simp add: PutUint64_def)

definition le_byte :: "u64 list \<Rightarrow> nat \<Rightarrow> u8" where
  "le_byte es m = PutUint64 (es ! (m div 8)) ! (m mod 8)"

lemma write_element:
  assumes "k * 8 \<le> n"
  shows "take (k * 8) (map (\<lambda>m. if m < k * 8 then le_byte es m else 0) [0..<n])
      @ go_copy (drop (k * 8) (map (\<lambda>m. if m < k * 8 then le_byte es m else 0) [0..<n])) (PutUint64 (es ! k))
    = map (\<lambda>m. if m < Suc k * 8 then le_byte es m else 0) [0..<n]" (is "?L = ?R")
proof (rule nth_equalityI)
  show "length ?L = length ?R" using assms by simp
  fix i assume "i < length ?L"
  then have i: "i < n" using assms by simp
  show "?L ! i = ?R ! i"
  proof (cases "i < k * 8")
    case True
    with i assms show ?thesis by (simp add: nth_append)
  next
    case False
    then obtain j where j: "i = k * 8 + j" using le_Suc_ex by (metis not_less)
    have "le_byte es i = PutUint64 (es ! k) ! j" if "j < 8"
      using that by (simp add: le_byte_def j)
    with i j assms show ?thesis
      by (simp add: nth_append nth_go_copy)
  qed
qed

lemma bits_Bytes_eq:
  assumes "wf_bits b"
  shows "bits_Bytes b = Some (map (le_byte (Elements b)) [0..<(nat (Size b) + 7) div 8])"
proof -
  let ?es = "Elements b" and ?n = "(nat (Size b) + 7) div 8"
  let ?step = "\<lambda>i bytes. if i * 8 \<le> length bytes
      then Some (take (i * 8) bytes @ go_copy (drop (i * 8) bytes) (PutUint64 (?es ! i))) else None"
  obtain k r where kr: "length ?es = Suc k" "Size b = int (64 * k + r)" "0 < r" "r \<le> 64"
    using assms by (rule wf_bits_split)
  then have sz: "nat (Size b) = 64 * k + r" by simp
  have loop: "foldM ?step [0..<m] (replicate ?n 0)
      = Some (map (\<lambda>i. if i < m * 8 then le_byte ?es i else 0) [0..<?n])" if "m \<le> Suc k" for m
    using that
  proof (induction m)
    case 0
    then show ?case by (simp add: map_replicate_const)
  next
    case (Suc m)
    then have "m * 8 \<le> ?n" using sz by simp
    with Suc show ?case by (simp add: foldM_append write_element)
  qed
  have "map (\<lambda>i. if i < Suc k * 8 then le_byte ?es i else 0) [0..<?n] = map (le_byte ?es) [0..<?n]"
    using sz kr(4) by (intro map_cong) auto
  moreover have "(Size b + 7) sdiv 8 = int ?n"
    using kr(2) by (simp add: sdiv_pos zdiv_int)
  ultimately show ?thesis using loop [of "Suc k"] kr(1) by (simp add: bits_Bytes_def Let_def)
qed

lemma le_byte_bit: "bit (le_byte es (n div 8)) (n mod 8) \<longleftrightarrow> bit (es ! (n div 64)) (n mod 64)"
proof -
  have "8 * (n div 8 mod 8) + n mod 8 = n mod 64"
    using mod_mult2_eq [of n 8 8] by simp
  moreover have "n div 8 div 8 = n div 64" by (simp flip: div_mult2_eq)
  ultimately show ?thesis
    by (simp add: le_byte_def nth_PutUint64 bit_simps)
qed

section \<open>Properties\<close>

text \<open>C21: a write through \<^verbatim>\<open>SetIndex\<close> inside the size succeeds, keeps the array well formed and
  of the same size, and every later \<^verbatim>\<open>GetIndex\<close> reads the written value at that index and the
  old value at every other.\<close>

theorem SetIndex_GetIndex:
  assumes "wf_bits b" and "0 \<le> i" and "i < Size b"
  shows "\<exists>b'. SetIndex (Some b) i v = Some (True, Some b') \<and> wf_bits b' \<and> Size b' = Size b
    \<and> (\<forall>j \<ge> 0. GetIndex (Some b') j = (if j = i then Some v else GetIndex (Some b) j))"
  using ab.put_in [OF assms, of v] by (force simp: SetIndex_def GetIndex_def)

theorem SetIndex_GetIndex_witness:
  "\<exists>b'. SetIndex (Some \<lparr>Size = 70, Elements = [0, 5]\<rparr>) 65 True = Some (True, Some b')
    \<and> GetIndex (Some b') 65 = Some True \<and> GetIndex (Some b') 64 = Some True"
proof -
  have wf: "wf_bits \<lparr>Size = 70, Elements = [0, 5]\<rparr>"
    by (simp add: wf_bits_def numElements_pos)
  have "GetIndex (Some \<lparr>Size = 70, Elements = [0, 5]\<rparr>) 64 = Some True"
    by (simp add: GetIndex_def getIndex_def go_index_def bit_mask_def)
  then show ?thesis using SetIndex_GetIndex [OF wf, of 65 True] by force
qed

text \<open>C22: the scan of \<^verbatim>\<open>GetTrueIndices\<close>, which skips zero elements and treats the last element
  apart, returns exactly the indices below the size whose bit is set, in increasing order;
  \<^verbatim>\<open>GetTrueIndicesMap\<close> returns the same indices as a set.\<close>

theorem GetTrueIndices_correct:
  assumes "wf_bits b"
  shows "GetTrueIndices b = Some (filter (\<lambda>i. getIndex b i = Some True) (map int [0..<nat (Size b)]))
    \<and> GetTrueIndicesMap b = map_option set (GetTrueIndices b)"
  using set_bit_at_filter [of b] assms
  by (simp add: GetTrueIndices_eq GetTrueIndicesMap_eq ones_bit_at filter_map o_def getIndex_int)

theorem GetTrueIndices_correct_witness:
  "GetTrueIndices \<lparr>Size = 4, Elements = [5]\<rparr> = Some [0, 2]"
proof -
  have wf: "wf_bits \<lparr>Size = 4, Elements = [5]\<rparr>"
    by (simp add: wf_bits_def numElements_pos)
  show ?thesis
    using GetTrueIndices_correct [OF wf]
    by (simp add: getIndex_def go_index_def bit_mask_def upt_rec sdiv_pos smod_pos)
qed

text \<open>C23: on two well-formed arrays of the same size \<^verbatim>\<open>Or\<close>, \<^verbatim>\<open>And\<close>, \<^verbatim>\<open>Xor\<close> and \<^verbatim>\<open>Subtract\<close> never panic
  and compute union, intersection, symmetric difference and difference of the sets of set
  bits, and \<^verbatim>\<open>Not\<close> the complement within the size.\<close>

theorem bits_set_algebra:
  assumes "wf_bits b" and "wf_bits c" and "Size c = Size b"
  shows "(\<exists>r. bits_Or (Some b) (Some c) = Some (Some r)
          \<and> GetTrueIndicesMap r = Some (ab.ones b \<union> ab.ones c))
    \<and> (\<exists>r. bits_And (Some b) (Some c) = Some (Some r)
          \<and> GetTrueIndicesMap r = Some (ab.ones b \<inter> ab.ones c))
    \<and> (\<exists>r. bits_Xor (Some b) (Some c) = Some (Some r)
          \<and> GetTrueIndicesMap r = Some ((ab.ones b - ab.ones c) \<union> (ab.ones c - ab.ones b)))
    \<and> (\<exists>r. bits_Subtract (Some b) (Some c) = Some (Some r)
          \<and> GetTrueIndicesMap r = Some (ab.ones b - ab.ones c))
    \<and> (\<exists>r. bits_Not (Some b) = Some r
          \<and> GetTrueIndicesMap r = Some ({0..<Size b} - ab.ones b))"
  using bits_Or_ones [OF assms] bits_And_ones [OF assms] bits_Xor_ones [OF assms]
    bits_Subtract_ones [OF assms] bits_Not_ones [OF assms(1)]
  by (intro conjI) (metis GetTrueIndicesMap_eq)+

theorem bits_set_algebra_witness:
  "\<exists>r. bits_Subtract (Some \<lparr>Size = 4, Elements = [5]\<rparr>) (Some \<lparr>Size = 4, Elements = [1]\<rparr>) = Some (Some r)
    \<and> GetTrueIndicesMap r = Some (ab.ones \<lparr>Size = 4, Elements = [5]\<rparr> - ab.ones \<lparr>Size = 4, Elements = [1]\<rparr>)"
  using bits_set_algebra [of "\<lparr>Size = 4, Elements = [5]\<rparr>" "\<lparr>Size = 4, Elements = [1]\<rparr>"]
  by (simp add: wf_bits_def numElements_pos)

text \<open>\<^verbatim>\<open>IsFull\<close>, which tests the last element by adding one to it under a mask, holds exactly
  when every bit below the size is set.\<close>

theorem bits_IsFull_correct:
  assumes "wf_bits b"
  shows "bits_IsFull (Some b) = Some (\<forall>i. 0 \<le> i \<and> i < Size b \<longrightarrow> getIndex b i = Some True)"
proof -
  have "(\<forall>n < nat (Size b). bit_at b n) \<longleftrightarrow> (\<forall>i. 0 \<le> i \<and> i < Size b \<longrightarrow> getIndex b i = Some True)"
  proof (intro iffI allI impI)
    fix i assume "\<forall>n < nat (Size b). bit_at b n" and i: "0 \<le> i \<and> i < Size b"
    then show "getIndex b i = Some True"
      using getIndex_int [OF assms, of "nat i"] by simp
  next
    fix n assume "\<forall>i. 0 \<le> i \<and> i < Size b \<longrightarrow> getIndex b i = Some True" and "n < nat (Size b)"
    then have "getIndex b (int n) = Some True" by (simp add: zless_nat_eq_int_zless)
    then show "bit_at b n" by (simp add: getIndex_int [OF assms])
  qed
  then show ?thesis by (simp add: bits_IsFull_eq [OF assms])
qed

theorem bits_IsFull_correct_witness:
  "bits_IsFull (Some \<lparr>Size = 65, Elements = [NOT 0, 1]\<rparr>) = Some True
    \<and> getIndex \<lparr>Size = 65, Elements = [NOT 0, 1]\<rparr> 64 = Some True"
proof -
  let ?b = "\<lparr>Size = 65, Elements = [NOT 0, 1]\<rparr>"
  have wf: "wf_bits ?b" by (simp add: wf_bits_def numElements_pos)
  have "bits_IsFull (Some ?b) = Some True"
    by (simp add: bits_IsFull_def smod_pos Let_def)
  with bits_IsFull_correct [OF wf] show ?thesis by force
qed



section \<open>Two defects of the bit array\<close>

text \<open>\<^verbatim>\<open>Or\<close> loops over the elements both arrays have, so every element of a longer argument
  beyond the receiver's last element is lost, although the result has the longer size.\<close>

lemma copyBits_longer:
  assumes "wf_bits b" and "Size b \<le> s"
  shows "\<exists>c. copyBits b s = Some c \<and> Size c = s \<and> wf_bits c \<and> length (Elements b) \<le> length (Elements c)
    \<and> (\<forall>i < length (Elements c). Elements c ! i = (if i < length (Elements b) then Elements b ! i else 0))"
proof -
  have "numElements (Size b) \<le> numElements s" "0 < s"
    using assms by (auto simp: wf_bits_def numElements_pos intro: zdiv_mono1)
  with assms show ?thesis
    by (auto simp: copyBits_def make_u64_def wf_bits_def nth_go_copy)
qed

theorem bits_Or_drops_longer_argument:
  assumes "wf_bits b" and "wf_bits c" and "Size b \<le> Size c"
  shows "\<exists>r. bits_Or (Some b) (Some c) = Some (Some r) \<and> Size r = Size c
    \<and> (\<forall>n \<ge> 64 * length (Elements b). \<not> bit_at r n)"
proof -
  obtain a where a: "copyBits b (Size c) = Some a" "Size a = Size c" "wf_bits a"
      "length (Elements b) \<le> length (Elements a)"
      "\<forall>i < length (Elements a). Elements a ! i = (if i < length (Elements b) then Elements b ! i else 0)"
    using copyBits_longer [OF assms(1,3)] by blast
  have len: "length (Elements c) = length (Elements a)" using a(2,3) assms(2) by (simp add: wf_bits_length)
  obtain es where es: "combine_elements (OR) (length (Elements b)) (Elements c) (Elements a) = Some es"
      "length es = length (Elements a)"
      "\<forall>i < length (Elements a). length (Elements b) \<le> i \<longrightarrow> es ! i = Elements a ! i"
    using combine_elements_nth [of "length (Elements b)" "Elements c" "Elements a" "(OR)"] a(4) len
    by auto
  have "MaxInteger (Size b) (Size c) = Size c" using assms(3) by (simp add: MaxInteger_def)
  moreover have "nat (MinInteger (int (length (Elements b))) (int (length (Elements c)))) = length (Elements b)"
    using a(4) len by (simp add: MinInteger_def)
  ultimately have "bits_Or (Some b) (Some c) = Some (Some (a\<lparr>Elements := es\<rparr>))"
    using a(1) es(1) by (simp add: bits_Or_def)
  moreover have "\<not> bit_at (a\<lparr>Elements := es\<rparr>) n" if "64 * length (Elements b) \<le> n" for n
    using that a(5) es(3) wf_bits_element_lt [OF a(3), of n] by (auto simp: bit_at_def)
  ultimately show ?thesis using a(2) by force
qed

text \<open>\<^verbatim>\<open>Not\<close> also flips the bits of the last element beyond the size, so the complement of a full
  array has no set index and is still reported as not empty.\<close>

theorem bits_Not_full_not_empty:
  "\<exists>b r. wf_bits b \<and> bits_IsFull (Some b) = Some True \<and> bits_Not (Some b) = Some r
    \<and> GetTrueIndices r = Some [] \<and> \<not> bits_IsEmpty (Some r)"
proof -
  let ?b = "\<lparr>Size = 1, Elements = [1]\<rparr>" and ?r = "\<lparr>Size = 1, Elements = [NOT 1]\<rparr>"
  have "wf_bits ?b" by (simp add: wf_bits_def numElements_pos)
  moreover have "bits_IsFull (Some ?b) = Some True" by (simp add: bits_IsFull_def smod_pos Let_def)
  moreover have "bits_Not (Some ?b) = Some ?r" by (simp add: bits_Not_def bits_not_def bits_copy_def Let_def)
  moreover have "GetTrueIndices ?r = Some []"
    by (simp add: GetTrueIndices_def scan_array_def scan_element_def)
  moreover have "\<not> bits_IsEmpty (Some ?r)"
    by (simp add: bits_IsEmpty_def flip: word_neq_0_conv)
  ultimately show ?thesis by blast
qed

declare upt_rec_numeral [simp]

end
