(* ===== verification/Consensus_Types.thy ===== *)
theory Consensus_Types
  imports Bits
begin

text \<open>
  The data the consensus components exchange: quorum certificates and view infos of
  src/common/qc.go and src/common/view.go, and votes, prepared messages and prepared
  certificates of src/consensus/types. Field names carry a prefix for their struct.
\<close>

section \<open>Machine integers\<close>

text \<open>The conversion \<^verbatim>\<open>int32(x)\<close>: the value of the lowest 32 bits, read as a signed number.\<close>

definition int32 :: "int \<Rightarrow> int" where
  "int32 x = (x + 2 ^ 31) mod 2 ^ 32 - 2 ^ 31"

lemma int32_id [simp]: "- (2 ^ 31) \<le> x \<Longrightarrow> x < 2 ^ 31 \<Longrightarrow> int32 x = x"
  by (simp add: int32_def)

section \<open>Data\<close>

datatype LockType = MutateLock | ReadLock | NoLock

text \<open>The lock types are ordered as their numbers are: a smaller lock is a stronger one.\<close>

fun lock_number :: "LockType \<Rightarrow> nat" where
  "lock_number MutateLock = 0"
| "lock_number ReadLock = 1"
| "lock_number NoLock = 2"

instantiation LockType :: linorder
begin

definition less_eq_LockType :: "LockType \<Rightarrow> LockType \<Rightarrow> bool" where
  "less_eq_LockType a b \<longleftrightarrow> lock_number a \<le> lock_number b"

definition less_LockType :: "LockType \<Rightarrow> LockType \<Rightarrow> bool" where
  "less_LockType a b \<longleftrightarrow> lock_number a < lock_number b"

instance
proof
  fix a b c :: LockType
  show "a < b \<longleftrightarrow> a \<le> b \<and> \<not> b \<le> a" by (auto simp: less_eq_LockType_def less_LockType_def)
  show "a \<le> a" by (simp add: less_eq_LockType_def)
  show "a \<le> b \<Longrightarrow> b \<le> c \<Longrightarrow> a \<le> c" by (simp add: less_eq_LockType_def)
  show "a \<le> b \<Longrightarrow> b \<le> a \<Longrightarrow> a = b" by (cases a; cases b) (simp_all add: less_eq_LockType_def)
  show "a \<le> b \<or> b \<le> a" by (auto simp: less_eq_LockType_def)
qed

end

type_synonym ConsensusMsgType = int

abbreviation (input) PROPOSAL :: ConsensusMsgType where "PROPOSAL \<equiv> 1"
abbreviation (input) PREVOTE :: ConsensusMsgType where "PREVOTE \<equiv> 2"
abbreviation (input) PRECOMMIT :: ConsensusMsgType where "PRECOMMIT \<equiv> 3"

record Qc =
  qc_Type :: ConsensusMsgType
  qc_ID :: Identifier
  qc_LockType :: LockType
  qc_View :: u64
  qc_TSHash :: Hash
  qc_SignerIndices :: "ArrayOfBits option"
  qc_Signature :: "u8 list"

record ViewInfo =
  view_ID :: Identifier
  view_LastView :: u64
  view_CurrentLock :: LockType
  view_Qc :: "Qc option list"

type_synonym Views = "ViewInfo option list"

record Prepared =
  prepared_View :: u64
  prepared_Infos :: Views
  prepared_Signature :: "u8 list"

record PreparedInfo =
  pi_View :: u64
  pi_PeerViews :: "Views list"
  pi_SignerIndices :: "ArrayOfBits option"
  pi_Signature :: "u8 list"

record Vote =
  vote_Type :: ConsensusMsgType
  vote_IsQC :: bool
  vote_View :: u64
  vote_SignerIndex :: int
  vote_TSHash :: Hash
  vote_SignerIndices :: "ArrayOfBits option"
  vote_Signature :: "u8 list"

text \<open>What a vote signs: the fields of \<^verbatim>\<open>CanonicalVote\<close>.\<close>

record CanonicalVote =
  cv_Type :: ConsensusMsgType
  cv_View :: u64
  cv_TSHash :: Hash

definition canonicalVote :: "Vote \<Rightarrow> CanonicalVote" where
  "canonicalVote v = \<lparr>cv_Type = vote_Type v, cv_View = vote_View v, cv_TSHash = vote_TSHash v\<rparr>"

definition IsNextView :: "u64 \<Rightarrow> u64 \<Rightarrow> bool" where
  "IsNextView current ident \<longleftrightarrow> ident - current = 1"

end
