(* ===== verification/Lock_Slots.thy ===== *)
theory Lock_Slots
  imports Consensus_Types
begin

text \<open>
  The consensus slots of src/consensus/types/slots.go: how many clusters a node works on at
  once, and which accounts they hold read or mutate locks on. The account locks are stated
  as a readers/writer lock table: the locale \<open>lock_table\<close> is the contract the engine and the
  syncer rely on, and the operations of \<^verbatim>\<open>Slots\<close> are its implementation.
\<close>

section \<open>Definitions\<close>

datatype SlotType = OperatorSlot | ValidatorSlot

record LockInfo =
  li_lockType :: LockType
  li_clusterID :: ClusterID

text \<open>The stages \<^verbatim>\<open>PrepareStage\<close>, \<^verbatim>\<open>PreparedStage\<close> and \<^verbatim>\<open>ProposalStage\<close> are 0, 1 and 2. The channels
  of a slot are not modelled; \<open>slot_inboundClosed\<close> says whether \<^verbatim>\<open>BftInboundChan\<close> was closed.\<close>

record Slot =
  slot_SlotType :: SlotType
  slot_ps :: "(Identifier \<times> LockType) list"
  slot_Stage :: u32
  slot_inboundClosed :: bool

record Slots =
  slots :: "ClusterID \<rightharpoonup> Slot"
  availableOperatorSlots :: int
  availableValidatorSlots :: int
  activeAccounts :: "Identifier \<rightharpoonup> LockInfo list"

definition NewSlot :: "SlotType \<Rightarrow> (Identifier \<times> LockType) list \<Rightarrow> Slot" where
  "NewSlot slotType ps =
     \<lparr>slot_SlotType = slotType, slot_ps = ps, slot_Stage = 0, slot_inboundClosed = False\<rparr>"

definition UpdateStage :: "Slot \<Rightarrow> u32 \<Rightarrow> u32 \<Rightarrow> bool \<times> Slot" where
  "UpdateStage info oldSlot newSlot =
     (if slot_Stage info = oldSlot then (True, info\<lparr>slot_Stage := newSlot\<rparr>) else (False, info))"

definition NewSlots :: "int \<Rightarrow> int \<Rightarrow> Slots" where
  "NewSlots operatorSlots validatorSlots =
     \<lparr>slots = Map.empty, availableOperatorSlots = operatorSlots,
      availableValidatorSlots = validatorSlots, activeAccounts = Map.empty\<rparr>"

text \<open>The read of \<^verbatim>\<open>activeLock[0]\<close> panics on an empty lock list.\<close>

fun areAccountsActive :: "Slots \<Rightarrow> (Identifier \<times> LockType) list \<Rightarrow> bool option" where
  "areAccountsActive s [] = Some False"
| "areAccountsActive s ((ident, requiredLock) # ids) =
     (case activeAccounts s ident of
        None \<Rightarrow> areAccountsActive s ids
      | Some activeLock \<Rightarrow> do {
          l0 \<leftarrow> go_index activeLock 0;
          if li_lockType l0 = MutateLock then Some True
          else if li_lockType l0 = ReadLock \<and> requiredLock = MutateLock then Some True
          else areAccountsActive s ids
        })"

definition addActiveAccount :: "Identifier \<Rightarrow> LockInfo \<Rightarrow> Slots \<Rightarrow> Slots" where
  "addActiveAccount ident lockInfo s =
     (if li_lockType lockInfo = NoLock then s
      else
        (let infos = (case activeAccounts s ident of None \<Rightarrow> [] | Some l \<Rightarrow> l)
         in s\<lparr>activeAccounts := (activeAccounts s)(ident \<mapsto> infos @ [lockInfo])\<rparr>))"

definition lockAll :: "(Identifier \<times> LockType) list \<Rightarrow> ClusterID \<Rightarrow> Slots \<Rightarrow> Slots" where
  "lockAll accountLocks clusterID = fold (\<lambda>(ident, lock).
     addActiveAccount ident \<lparr>li_lockType = lock, li_clusterID = clusterID\<rparr>) accountLocks"

definition AddActiveAccounts ::
  "Slots \<Rightarrow> (Identifier \<times> LockType) list \<Rightarrow> ClusterID \<Rightarrow> (bool \<times> Slots) option" where
  "AddActiveAccounts s accountLocks clusterID = do {
     active \<leftarrow> areAccountsActive s accountLocks;
     if active then Some (False, s)
     else Some (True, lockAll accountLocks clusterID s)
   }"

text \<open>The first lock of the cluster is overwritten by the last lock and the list cut by one.\<close>

definition swapRemove :: "ClusterID \<Rightarrow> LockInfo list \<Rightarrow> LockInfo list" where
  "swapRemove clusterID infos =
     (case find (\<lambda>i. li_clusterID (infos ! i) = clusterID) [0..<length infos] of
        None \<Rightarrow> infos
      | Some i \<Rightarrow> butlast (infos[i := last infos]))"

definition removeAccount :: "ClusterID \<Rightarrow> Identifier \<Rightarrow> Slots \<Rightarrow> Slots" where
  "removeAccount clusterID ident s =
     (let infos = (case activeAccounts s ident of None \<Rightarrow> [] | Some l \<Rightarrow> l)
      in if length infos = 0 then s
         else if length infos = 1 then
           (if li_clusterID (infos ! 0) \<noteq> clusterID then s
            else s\<lparr>activeAccounts := (activeAccounts s)(ident := None)\<rparr>)
         else s\<lparr>activeAccounts := (activeAccounts s)(ident \<mapsto> swapRemove clusterID infos)\<rparr>)"

definition ClearActiveAccounts :: "Slots \<Rightarrow> ClusterID \<Rightarrow> Identifier list \<Rightarrow> Slots" where
  "ClearActiveAccounts s clusterID ids = fold (removeAccount clusterID) ids s"

definition decrementSlots :: "SlotType \<Rightarrow> Slots \<Rightarrow> Slots" where
  "decrementSlots slotType s =
     (if slotType = OperatorSlot
      then s\<lparr>availableOperatorSlots := availableOperatorSlots s - 1\<rparr>
      else s\<lparr>availableValidatorSlots := availableValidatorSlots s - 1\<rparr>)"

definition incrementSlots :: "SlotType \<Rightarrow> Slots \<Rightarrow> Slots" where
  "incrementSlots slotType s =
     (if slotType = OperatorSlot
      then s\<lparr>availableOperatorSlots := availableOperatorSlots s + 1\<rparr>
      else s\<lparr>availableValidatorSlots := availableValidatorSlots s + 1\<rparr>)"

text \<open>The second result is the removed slot, whose inbound channel is now closed.\<close>

definition CleanupSlot :: "Slots \<Rightarrow> ClusterID \<Rightarrow> Slots \<times> Slot option" where
  "CleanupSlot s cid =
     (case slots s cid of
        None \<Rightarrow> (s, None)
      | Some slot \<Rightarrow>
          (let s1 = fold (removeAccount cid) (map fst (slot_ps slot)) s;
               s2 = s1\<lparr>slots := (slots s1)(cid := None)\<rparr>
           in (incrementSlots (slot_SlotType slot) s2, Some (slot\<lparr>slot_inboundClosed := True\<rparr>))))"

definition AreAccountsAvailable :: "Slots \<Rightarrow> (Identifier \<times> LockType) list \<Rightarrow> bool option" where
  "AreAccountsAvailable s locks = map_option Not (areAccountsActive s locks)"

definition areSlotsAvailable :: "Slots \<Rightarrow> SlotType \<Rightarrow> bool" where
  "areSlotsAvailable s slotType =
     (if slotType = OperatorSlot then availableOperatorSlots s > 0 else True)"

definition CreateSlotAndLockAccounts ::
  "Slots \<Rightarrow> ClusterID \<Rightarrow> SlotType \<Rightarrow> (Identifier \<times> LockType) list
    \<Rightarrow> ((Slot option \<times> ClusterID) \<times> Slots) option" where
  "CreateSlotAndLockAccounts s clusterID slotType locks = do {
     active \<leftarrow> areAccountsActive s locks;
     if active then Some ((None, ''''), s)
     else if \<not> areSlotsAvailable s slotType then Some ((None, ''''), s)
     else
       (let s1 = s\<lparr>slots := (slots s)(clusterID \<mapsto> NewSlot slotType locks)\<rparr>;
            s2 = decrementSlots slotType s1;
            s3 = lockAll locks clusterID s2
        in Some ((slots s3 clusterID, ''''), s3))
   }"

definition GetSlot :: "Slots \<Rightarrow> ClusterID \<Rightarrow> Slot option" where
  "GetSlot s ident = slots s ident"

text \<open>The steps the engine and the syncer make on the table; the keys of a Go map are distinct.\<close>

inductive slots_step :: "Slots \<Rightarrow> Slots \<Rightarrow> bool" where
  add: "distinct (map fst locks) \<Longrightarrow> AddActiveAccounts s locks cid = Some (r, s') \<Longrightarrow> slots_step s s'"
| clear: "slots_step s (ClearActiveAccounts s cid ids)"
| create: "distinct (map fst locks) \<Longrightarrow>
    CreateSlotAndLockAccounts s cid slotType locks = Some (r, s') \<Longrightarrow> slots_step s s'"
| cleanup: "CleanupSlot s cid = (s', r) \<Longrightarrow> slots_step s s'"

inductive slots_reachable :: "int \<Rightarrow> int \<Rightarrow> Slots \<Rightarrow> bool" for n m where
  start: "slots_reachable n m (NewSlots n m)"
| step: "slots_reachable n m s \<Longrightarrow> slots_step s s' \<Longrightarrow> slots_reachable n m s'"

section \<open>The lock table as multisets of holders\<close>

definition holders :: "Slots \<Rightarrow> Identifier \<Rightarrow> (LockType \<times> ClusterID) multiset" where
  "holders s ident =
     (case activeAccounts s ident of
        None \<Rightarrow> {#}
      | Some infos \<Rightarrow> mset (map (\<lambda>l. (li_lockType l, li_clusterID l)) infos))"

definition slots_inv :: "Slots \<Rightarrow> bool" where
  "slots_inv s \<longleftrightarrow> (\<forall>ident infos. activeAccounts s ident = Some infos \<longrightarrow>
      infos \<noteq> [] \<and> (\<forall>l \<in> set infos. li_lockType l \<noteq> NoLock)
    \<and> (\<forall>l \<in> set infos. li_lockType l = MutateLock \<longrightarrow> length infos = 1))"

text \<open>A request conflicts with the holders of an account when one of them mutates, or when one
  of them reads and the request is to mutate.\<close>

definition conflict :: "(LockType \<times> ClusterID) multiset \<Rightarrow> LockType \<Rightarrow> bool" where
  "conflict H l \<longleftrightarrow> (\<exists>c. (MutateLock, c) \<in># H) \<or> (l = MutateLock \<and> H \<noteq> {#})"

text \<open>The locks a request adds to an account; a \<^const>\<open>NoLock\<close> entry adds none.\<close>

definition granted :: "(Identifier \<times> LockType) list \<Rightarrow> ClusterID \<Rightarrow> Identifier
    \<Rightarrow> (LockType \<times> ClusterID) multiset" where
  "granted L c x =
     (case map_of L x of None \<Rightarrow> {#} | Some l \<Rightarrow> if l = NoLock then {#} else {#(l, c)#})"

section \<open>Acquiring\<close>

lemma slots_invD:
  assumes "slots_inv s" and "activeAccounts s x = Some infos"
  shows "infos \<noteq> []" and "\<And>l. l \<in> set infos \<Longrightarrow> li_lockType l \<noteq> NoLock"
    and "\<And>l. l \<in> set infos \<Longrightarrow> li_lockType l = MutateLock \<Longrightarrow> infos = [l]"
proof -
  show "infos \<noteq> []" and "\<And>l. l \<in> set infos \<Longrightarrow> li_lockType l \<noteq> NoLock"
    using assms unfolding slots_inv_def by blast+
  show "infos = [l]" if "l \<in> set infos" "li_lockType l = MutateLock" for l
  proof -
    from assms that have "length infos = 1" unfolding slots_inv_def by blast
    then obtain k where "infos = [k]" by (cases infos) auto
    with that(1) show ?thesis by simp
  qed
qed

lemma in_holders:
  "(t, c) \<in># holders s x \<longleftrightarrow>
    (\<exists>infos. activeAccounts s x = Some infos \<and> (\<exists>l \<in> set infos. li_lockType l = t \<and> li_clusterID l = c))"
  by (force simp: holders_def split: option.splits)

lemma conflict_first:
  assumes "slots_inv s" and "activeAccounts s x = Some infos"
  shows "conflict (holders s x) l \<longleftrightarrow>
    li_lockType (infos ! 0) = MutateLock \<or> (li_lockType (infos ! 0) = ReadLock \<and> l = MutateLock)"
proof -
  note inv = slots_invD [OF assms]
  obtain k ks where ks: "infos = k # ks" using inv(1) by (cases infos) auto
  have "(\<exists>c. (MutateLock, c) \<in># holders s x) \<longleftrightarrow> li_lockType k = MutateLock"
    using inv(3) assms(2) ks by (auto simp: in_holders)
  moreover have "li_lockType k \<noteq> NoLock" using inv(2) ks by simp
  ultimately show ?thesis
    using assms(2) ks by (cases "li_lockType k") (simp_all add: conflict_def holders_def)
qed

lemma areAccountsActive_conflict:
  assumes "slots_inv s"
  shows "areAccountsActive s L = Some (\<exists>(x, l) \<in> set L. conflict (holders s x) l)"
proof (induction L)
  case Nil
  then show ?case by simp
next
  case (Cons a L)
  obtain x l where a: "a = (x, l)" by force
  show ?case
  proof (cases "activeAccounts s x")
    case None
    then have "\<not> conflict (holders s x) l" by (simp add: conflict_def holders_def)
    with None Cons show ?thesis by (simp add: a)
  next
    case (Some infos)
    have "go_index infos 0 = Some (infos ! 0)"
      using slots_invD(1) [OF assms Some] by (simp add: go_index_def)
    with Some Cons show ?thesis by (auto simp: a conflict_first [OF assms Some])
  qed
qed

lemma holders_addActiveAccount:
  "holders (addActiveAccount x li s) y =
     (if y = x \<and> li_lockType li \<noteq> NoLock then add_mset (li_lockType li, li_clusterID li) (holders s y)
      else holders s y)"
  by (auto simp: addActiveAccount_def holders_def Let_def split: option.splits)

lemma holders_lockAll:
  assumes "distinct (map fst L)"
  shows "holders (lockAll L c s) x = holders s x + granted L c x"
  using assms
proof (induction L arbitrary: s)
  case Nil
  then show ?case by (simp add: lockAll_def granted_def)
next
  case (Cons a L)
  obtain y l where a: "a = (y, l)" by force
  have "map_of L y = None" using Cons.prems a by (simp add: map_of_eq_None_iff)
  then have g: "granted (a # L) c x = (if x = y then (if l = NoLock then {#} else {#(l, c)#}) else granted L c x)"
    and "granted L c y = {#}"
    by (auto simp: granted_def a)
  have "holders (lockAll (a # L) c s) x
      = holders (addActiveAccount y \<lparr>li_lockType = l, li_clusterID = c\<rparr> s) x + granted L c x"
    using Cons by (simp add: lockAll_def a)
  then show ?case using g \<open>granted L c y = {#}\<close> by (auto simp: holders_addActiveAccount)
qed

lemma slots_inv_addActiveAccount:
  assumes "slots_inv s" and "\<not> conflict (holders s x) (li_lockType li)"
  shows "slots_inv (addActiveAccount x li s)"
proof (cases "activeAccounts s x")
  case None
  with assms(1) show ?thesis by (auto simp: slots_inv_def addActiveAccount_def Let_def)
next
  case (Some infos)
  have "\<forall>l \<in> set infos. li_lockType l \<noteq> MutateLock" and "li_lockType li \<noteq> MutateLock"
    using assms(2) Some slots_invD(1) [OF assms(1) Some]
    by (auto simp: conflict_def in_holders) (simp add: holders_def)
  with Some assms(1) show ?thesis by (auto simp: slots_inv_def addActiveAccount_def Let_def)
qed

lemma slots_inv_lockAll:
  assumes "slots_inv s" and "distinct (map fst L)" and "\<And>x l. (x, l) \<in> set L \<Longrightarrow> \<not> conflict (holders s x) l"
  shows "slots_inv (lockAll L c s)"
  using assms
proof (induction L arbitrary: s)
  case Nil
  then show ?case by (simp add: lockAll_def)
next
  case (Cons a L)
  obtain y l where a: "a = (y, l)" by force
  let ?s = "addActiveAccount y \<lparr>li_lockType = l, li_clusterID = c\<rparr> s"
  have "slots_inv ?s" using Cons.prems a by (intro slots_inv_addActiveAccount) auto
  moreover have "\<not> conflict (holders ?s x) k" if "(x, k) \<in> set L" for x k
  proof -
    have "x \<noteq> y" using Cons.prems(2) a that by force
    with Cons.prems(3) [of x k] that a show ?thesis by (simp add: holders_addActiveAccount)
  qed
  ultimately have "slots_inv (lockAll L c ?s)" using Cons.prems(2) by (intro Cons.IH) auto
  then show ?case by (simp add: lockAll_def a)
qed

section \<open>Releasing\<close>

definition release_one :: "ClusterID \<Rightarrow> (LockType \<times> ClusterID) multiset \<Rightarrow> (LockType \<times> ClusterID) multiset" where
  "release_one c H = H - {#(MutateLock, c), (ReadLock, c)#}"

abbreviation lock_pair :: "LockInfo \<Rightarrow> LockType \<times> ClusterID" where
  "lock_pair l \<equiv> (li_lockType l, li_clusterID l)"

lemma swapRemove_cases:
  obtains "swapRemove c infos = infos" and "\<forall>l \<in> set infos. li_clusterID l \<noteq> c"
  | l where "l \<in> set infos" and "li_clusterID l = c" and "mset (swapRemove c infos) = mset infos - {#l#}"
proof (cases "find (\<lambda>i. li_clusterID (infos ! i) = c) [0..<length infos]")
  case None
  then have "\<forall>l \<in> set infos. li_clusterID l \<noteq> c" by (auto simp: find_None_iff in_set_conv_nth)
  with None that(1) show ?thesis by (simp add: swapRemove_def)
next
  case (Some i)
  then have i: "i < length infos" "li_clusterID (infos ! i) = c"
    by (auto simp: find_Some_iff)
  then have ne: "infos \<noteq> []" by auto
  let ?ys = "infos[i := last infos]"
  have "last ?ys = last infos" using ne by (simp add: last_list_update)
  moreover have "mset ?ys = add_mset (last ?ys) (mset (butlast ?ys))"
    using ne by (subst append_butlast_last_id [symmetric]) (auto simp del: append_butlast_last_id)
  moreover have "mset ?ys = add_mset (last infos) (mset infos - {#infos ! i#})"
    using i(1) by (simp add: mset_update)
  ultimately have "mset (butlast ?ys) = mset infos - {#infos ! i#}" by simp
  then show ?thesis using that(2) [of "infos ! i"] i Some by (simp add: swapRemove_def)
qed

lemma release_one_id: "(\<And>t. (t, c) \<notin># H) \<Longrightarrow> release_one c H = H"
  by (simp add: release_one_def diff_single_trivial flip: diff_diff_add_mset)

lemma release_one_read:
  "(MutateLock, c) \<notin># H \<Longrightarrow> release_one c H = H - {#(ReadLock, c)#}"
  by (simp add: release_one_def diff_single_trivial flip: diff_diff_add_mset)

text \<open>An account with two or more holders has only readers.\<close>

lemma slots_inv_readers:
  assumes "slots_inv s" and "activeAccounts s x = Some infos" and "1 < length infos" and "l \<in> set infos"
  shows "li_lockType l = ReadLock"
  using slots_invD(2,3) [OF assms(1,2,4)] assms(3) by (cases "li_lockType l") auto

lemma removeAccount_Some:
  assumes "slots_inv s" and "activeAccounts s x = Some infos"
  shows "holders (removeAccount c x s) x = release_one c (holders s x) \<and> slots_inv (removeAccount c x s)"
proof (cases "length infos = 1")
  case True
  then obtain k where k: "infos = [k]" by (cases infos) auto
  then have "li_lockType k \<noteq> NoLock" using slots_invD(2) [OF assms] by simp
  with k assms show ?thesis
    by (cases "li_lockType k")
      (auto simp: removeAccount_def holders_def release_one_def slots_inv_def Let_def)
next
  case False
  then have len: "1 < length infos" using slots_invD(1) [OF assms] by (cases infos) auto
  note readers = slots_inv_readers [OF assms len]
  have no_writer: "(MutateLock, c) \<notin># holders s x"
    using readers assms(2) by (auto simp: in_holders)
  have s': "removeAccount c x s = s\<lparr>activeAccounts := (activeAccounts s)(x \<mapsto> swapRemove c infos)\<rparr>"
    using len assms(2) by (auto simp: removeAccount_def Let_def)
  show ?thesis
  proof (cases rule: swapRemove_cases [of c infos, case_names keep cut])
    case keep
    then have "removeAccount c x s = s" using s' assms(2) by (simp add: map_upd_triv)
    moreover have "(t, c) \<notin># holders s x" for t using keep(2) assms(2) by (auto simp: in_holders)
    ultimately show ?thesis using assms(1) by (simp add: release_one_id)
  next
    case (cut l)
    have "mset (map lock_pair (swapRemove c infos)) = mset (map lock_pair infos) - {#(ReadLock, c)#}"
      using cut readers [OF cut(1)] by (simp add: image_mset_Diff)
    then have "holders (removeAccount c x s) x = release_one c (holders s x)"
      using no_writer assms(2) by (simp add: s' holders_def release_one_read)
    moreover have "set (swapRemove c infos) \<subseteq> set infos"
      using cut(3) by (metis diff_subset_eq_self mset_subset_eqD set_mset_mset subsetI)
    moreover have "swapRemove c infos \<noteq> []"
      using arg_cong [OF cut(3), of size] cut(1) len by (auto simp: size_Diff_singleton)
    ultimately show ?thesis using assms(1) readers by (fastforce simp: s' slots_inv_def)
  qed
qed

lemma removeAccount_None: "activeAccounts s x = None \<Longrightarrow> removeAccount c x s = s"
  by (simp add: removeAccount_def Let_def)

lemma holders_removeAccount_other: "y \<noteq> x \<Longrightarrow> holders (removeAccount c x s) y = holders s y"
  by (auto simp: removeAccount_def holders_def Let_def split: option.splits)

lemma holders_removeAccount:
  assumes "slots_inv s"
  shows "holders (removeAccount c x s) y = (if y = x then release_one c (holders s y) else holders s y)"
proof (cases "activeAccounts s x")
  case None
  then have "holders s x = {#}" by (simp add: holders_def)
  with None show ?thesis by (simp add: removeAccount_None release_one_def)
next
  case (Some infos)
  with removeAccount_Some [OF assms Some] show ?thesis by (simp add: holders_removeAccount_other)
qed

lemma slots_inv_removeAccount [inv_intros]: "slots_inv s \<Longrightarrow> slots_inv (removeAccount c x s)"
  by (cases "activeAccounts s x") (auto simp: removeAccount_None removeAccount_Some)

lemma slots_inv_removeAll [inv_intros]: "slots_inv s \<Longrightarrow> slots_inv (fold (removeAccount c) xs s)"
  by (induction xs arbitrary: s) (auto intro: inv_intros)

lemma holders_removeAll:
  assumes "slots_inv s" and "distinct xs"
  shows "holders (fold (removeAccount c) xs s) y = (if y \<in> set xs then release_one c (holders s y) else holders s y)"
  using assms
  by (induction xs arbitrary: s) (auto simp: holders_removeAccount inv_intros)

section \<open>The interface\<close>

text \<open>
  The contract of the lock table for its clients: a request is granted exactly when no account
  of it is in conflict, it is never half granted, a release takes the cluster's own lock only,
  and a mutating holder is alone.
\<close>

locale lock_table =
  fixes inv :: "'s \<Rightarrow> bool"
    and held :: "'s \<Rightarrow> Identifier \<Rightarrow> (LockType \<times> ClusterID) multiset"
    and acquire :: "'s \<Rightarrow> (Identifier \<times> LockType) list \<Rightarrow> ClusterID \<Rightarrow> (bool \<times> 's) option"
    and release :: "'s \<Rightarrow> ClusterID \<Rightarrow> Identifier list \<Rightarrow> 's"
  assumes acquire_granted: "inv s \<Longrightarrow> distinct (map fst L) \<Longrightarrow> \<forall>(x, l) \<in> set L. \<not> conflict (held s x) l \<Longrightarrow>
      \<exists>s'. acquire s L c = Some (True, s') \<and> inv s' \<and> (\<forall>x. held s' x = held s x + granted L c x)"
    and acquire_blocked: "inv s \<Longrightarrow> (x, l) \<in> set L \<Longrightarrow> conflict (held s x) l \<Longrightarrow>
      acquire s L c = Some (False, s)"
    and release_inv: "inv s \<Longrightarrow> inv (release s c X)"
    and release_held: "inv s \<Longrightarrow> distinct X \<Longrightarrow>
      held (release s c X) x = (if x \<in> set X then release_one c (held s x) else held s x)"
    and writer_alone: "inv s \<Longrightarrow> (MutateLock, c) \<in># held s x \<Longrightarrow> held s x = {#(MutateLock, c)#}"
begin

lemma acquire_cases:
  assumes "inv s" and "distinct (map fst L)"
  obtains (granted) s' where "acquire s L c = Some (True, s')" and "inv s'"
      and "\<forall>(x, l) \<in> set L. \<not> conflict (held s x) l" and "\<And>x. held s' x = held s x + granted L c x"
    | (blocked) x l where "acquire s L c = Some (False, s)" and "(x, l) \<in> set L" and "conflict (held s x) l"
proof (cases "\<forall>(x, l) \<in> set L. \<not> conflict (held s x) l")
  case True
  then show ?thesis using acquire_granted [OF assms True, of c] that(1) by blast
next
  case False
  then obtain x l where "(x, l) \<in> set L" "conflict (held s x) l" by blast
  then show ?thesis using acquire_blocked [OF assms(1)] that(2) by blast
qed

lemma acquire_total:
  assumes "inv s" and "distinct (map fst L)"
  shows "\<exists>r s'. acquire s L c = Some (r, s') \<and> inv s'"
  by (rule acquire_cases [OF assms, of c]) (use assms(1) in blast)+

text \<open>What a cluster acquired it gives back whole: the accounts are held as before.\<close>

lemma acquire_release:
  assumes "inv s" and "distinct (map fst L)" and "acquire s L c = Some (True, s')"
    and "\<And>t x. (t, c) \<notin># held s x"
  shows "held (release s' c (map fst L)) x = held s x"
proof -
  obtain t where t: "acquire s L c = Some (True, t)" "inv t" "\<forall>x. held t x = held s x + granted L c x"
    by (rule acquire_cases [OF assms(1,2), of c]) (use assms(3) in auto)
  have "release_one c (held s x + granted L c x) = held s x" if "x \<in> fst ` set L"
  proof (cases "map_of L x")
    case None
    then show ?thesis using that by (simp add: map_of_eq_None_iff)
  next
    case (Some l)
    then show ?thesis
      using assms(4) release_one_id [of c "held s x"]
      by (cases l) (auto simp: granted_def release_one_def diff_single_trivial simp flip: diff_diff_add_mset)
  qed
  moreover have "granted L c x = {#}" if "x \<notin> fst ` set L"
    using that map_of_eq_None_iff [of L x] by (simp add: granted_def)
  moreover have "s' = t" using t(1) assms(3) by simp
  ultimately show ?thesis
    using t(2,3) assms(2) release_held [of t "map fst L" c x] by auto
qed

lemma writer_blocks:
  assumes "inv s" and "(MutateLock, c) \<in># held s x" and "(x, l) \<in> set L"
  shows "acquire s L c' = Some (False, s)"
  using assms by (intro acquire_blocked [of s x l]) (auto simp: conflict_def)

end

lemma AddActiveAccounts_eq:
  "slots_inv s \<Longrightarrow> AddActiveAccounts s L c =
    Some (if \<exists>(x, l) \<in> set L. conflict (holders s x) l then (False, s) else (True, lockAll L c s))"
  by (simp add: AddActiveAccounts_def areAccountsActive_conflict)

interpretation lt: lock_table slots_inv holders AddActiveAccounts ClearActiveAccounts
proof
  fix s :: Slots and L :: "(Identifier \<times> LockType) list" and c :: ClusterID and x :: Identifier
    and l :: LockType and X :: "Identifier list"
  assume inv: "slots_inv s"
  show "distinct (map fst L) \<Longrightarrow> \<forall>(x, l) \<in> set L. \<not> conflict (holders s x) l \<Longrightarrow>
      \<exists>s'. AddActiveAccounts s L c = Some (True, s') \<and> slots_inv s'
        \<and> (\<forall>x. holders s' x = holders s x + granted L c x)"
    using slots_inv_lockAll [OF inv, of L c] by (auto simp: AddActiveAccounts_eq inv holders_lockAll)
  show "(x, l) \<in> set L \<Longrightarrow> conflict (holders s x) l \<Longrightarrow> AddActiveAccounts s L c = Some (False, s)"
    by (auto simp: AddActiveAccounts_eq inv)
  show "slots_inv (ClearActiveAccounts s c X)"
    using inv by (simp add: ClearActiveAccounts_def slots_inv_removeAll)
  show "distinct X \<Longrightarrow> holders (ClearActiveAccounts s c X) x
      = (if x \<in> set X then release_one c (holders s x) else holders s x)"
    using inv by (simp add: ClearActiveAccounts_def holders_removeAll)
  show "(MutateLock, c) \<in># holders s x \<Longrightarrow> holders s x = {#(MutateLock, c)#}"
  proof -
    assume "(MutateLock, c) \<in># holders s x"
    then obtain infos l where "activeAccounts s x = Some infos" "l \<in> set infos"
        "li_lockType l = MutateLock" "li_clusterID l = c" by (auto simp: in_holders)
    with slots_invD(3) [OF inv, of x infos l] show ?thesis by (simp add: holders_def)
  qed
qed

section \<open>Every step keeps the invariant\<close>

lemma activeAccounts_only:
  assumes "activeAccounts s' = activeAccounts s"
  shows "holders s' = holders s" and "slots_inv s' = slots_inv s"
  using assms by (auto simp: holders_def slots_inv_def fun_eq_iff)

lemma addActiveAccount_frame [simp]:
  "slots (addActiveAccount x li s) = slots s"
  "availableOperatorSlots (addActiveAccount x li s) = availableOperatorSlots s"
  "availableValidatorSlots (addActiveAccount x li s) = availableValidatorSlots s"
  by (simp_all add: addActiveAccount_def Let_def)

lemma lockAll_frame [simp]:
  "slots (lockAll L c s) = slots s"
  "availableOperatorSlots (lockAll L c s) = availableOperatorSlots s"
  "availableValidatorSlots (lockAll L c s) = availableValidatorSlots s"
  unfolding lockAll_def by (induction L arbitrary: s) (auto split: prod.splits)

lemma removeAccount_frame [simp]:
  "slots (removeAccount c x s) = slots s"
  "availableOperatorSlots (removeAccount c x s) = availableOperatorSlots s"
  "availableValidatorSlots (removeAccount c x s) = availableValidatorSlots s"
  by (simp_all add: removeAccount_def Let_def)

lemma removeAll_frame [simp]:
  "slots (fold (removeAccount c) xs s) = slots s"
  "availableOperatorSlots (fold (removeAccount c) xs s) = availableOperatorSlots s"
  "availableValidatorSlots (fold (removeAccount c) xs s) = availableValidatorSlots s"
  by (induction xs arbitrary: s) auto

lemma incrementSlots_frame [simp]:
  "slots (incrementSlots t s) = slots s" "activeAccounts (incrementSlots t s) = activeAccounts s"
  by (simp_all add: incrementSlots_def)

lemma decrementSlots_frame [simp]:
  "slots (decrementSlots t s) = slots s" "activeAccounts (decrementSlots t s) = activeAccounts s"
  by (simp_all add: decrementSlots_def)

lemma CreateSlot_cases:
  assumes "slots_inv s" and "CreateSlotAndLockAccounts s cid t L = Some (r, s')"
  obtains (refused) "s' = s" and "r = (None, '''')"
  | (created) s2 where "s2 = decrementSlots t (s\<lparr>slots := (slots s)(cid \<mapsto> NewSlot t L)\<rparr>)"
      and "s' = lockAll L cid s2" and "r = (Some (NewSlot t L), '''')"
      and "areSlotsAvailable s t" and "\<And>x l. (x, l) \<in> set L \<Longrightarrow> \<not> conflict (holders s x) l"
  using assms
  by (auto simp: CreateSlotAndLockAccounts_def areAccountsActive_conflict Let_def split: if_splits)

lemma slots_inv_CreateSlot:
  assumes "slots_inv s" and "distinct (map fst L)" and "CreateSlotAndLockAccounts s cid t L = Some (r, s')"
  shows "slots_inv s'"
  using assms(1,3)
proof (cases rule: CreateSlot_cases)
  case refused
  then show ?thesis using assms(1) by simp
next
  case (created s2)
  have s2: "holders s2 = holders s" "slots_inv s2"
    using activeAccounts_only [of s2 s] assms(1) by (simp_all add: created(1))
  show ?thesis unfolding created(2)
    by (rule slots_inv_lockAll [OF s2(2) assms(2)]) (use created(5) s2(1) in auto)
qed

lemma CleanupSlot_Some:
  assumes "slots s cid = Some slot"
  shows "fst (CleanupSlot s cid) = incrementSlots (slot_SlotType slot)
    ((fold (removeAccount cid) (map fst (slot_ps slot)) s)\<lparr>slots := (slots s)(cid := None)\<rparr>)"
  using assms by (simp add: CleanupSlot_def Let_def)

lemma CleanupSlot_None: "slots s cid = None \<Longrightarrow> fst (CleanupSlot s cid) = s"
  by (simp add: CleanupSlot_def)

lemma slots_inv_CleanupSlot:
  assumes "slots_inv s"
  shows "slots_inv (fst (CleanupSlot s cid))"
proof (cases "slots s cid")
  case None
  then show ?thesis using assms by (simp add: CleanupSlot_None)
next
  case (Some slot)
  let ?f = "fold (removeAccount cid) (map fst (slot_ps slot)) s"
  have "slots_inv ?f" using assms by (rule slots_inv_removeAll)
  then show ?thesis
    unfolding CleanupSlot_Some [OF Some] by (subst activeAccounts_only(2) [of _ ?f]) simp_all
qed

lemma slots_inv_step: "slots_step s s' \<Longrightarrow> slots_inv s \<Longrightarrow> slots_inv s'"
proof (induction rule: slots_step.induct)
  case (add locks s cid r s')
  then show ?case using lt.acquire_total [of s locks cid] by auto
next
  case (clear s cid ids)
  then show ?case by (rule lt.release_inv)
next
  case (create locks s cid slotType r s')
  then show ?case using slots_inv_CreateSlot by blast
next
  case (cleanup s cid s' r)
  then show ?case using slots_inv_CleanupSlot [of s cid] by simp
qed

lemma slots_reachable_inv: "slots_reachable n m s \<Longrightarrow> slots_inv s"
proof (induction rule: slots_reachable.induct)
  case start
  show ?case by (simp add: slots_inv_def NewSlots_def)
next
  case (step s s')
  then show ?case using slots_inv_step by blast
qed

section \<open>Counting the operator slots\<close>

definition operator_clusters :: "Slots \<Rightarrow> ClusterID set" where
  "operator_clusters s = {c. \<exists>sl. slots s c = Some sl \<and> slot_SlotType sl = OperatorSlot}"

definition operator_inv :: "int \<Rightarrow> Slots \<Rightarrow> bool" where
  "operator_inv n s \<longleftrightarrow> finite (operator_clusters s) \<and> 0 \<le> availableOperatorSlots s
    \<and> availableOperatorSlots s + int (card (operator_clusters s)) \<le> n"

lemma operator_inv_cong:
  "slots s' = slots s \<Longrightarrow> availableOperatorSlots s' = availableOperatorSlots s \<Longrightarrow>
    operator_inv n s' = operator_inv n s"
  by (simp add: operator_inv_def operator_clusters_def)

lemma operator_inv_CreateSlot:
  assumes "slots_inv s" and "operator_inv n s" and "CreateSlotAndLockAccounts s cid t L = Some (r, s')"
  shows "operator_inv n s'"
  using assms(1,3)
proof (cases rule: CreateSlot_cases)
  case refused
  then show ?thesis using assms(2) by simp
next
  case (created s2)
  have oc: "operator_clusters s' = (if t = OperatorSlot then insert cid (operator_clusters s) else operator_clusters s - {cid})"
    by (cases t) (auto simp: operator_clusters_def created(1,2) NewSlot_def)
  have av: "availableOperatorSlots s' = availableOperatorSlots s - (if t = OperatorSlot then 1 else 0)"
    by (simp add: created(1,2) decrementSlots_def)
  have "card (operator_clusters s - {cid}) \<le> card (operator_clusters s)"
    using assms(2) by (intro card_mono) (auto simp: operator_inv_def)
  then show ?thesis
    using assms(2) created(4) unfolding operator_inv_def oc av areSlotsAvailable_def
    by (cases t) (auto simp: card_insert_if)
qed

lemma operator_inv_CleanupSlot:
  assumes "operator_inv n s"
  shows "operator_inv n (fst (CleanupSlot s cid))"
proof (cases "slots s cid")
  case None
  then show ?thesis using assms by (simp add: CleanupSlot_None)
next
  case (Some sl)
  let ?s' = "fst (CleanupSlot s cid)"
  have sl': "slots ?s' = (slots s)(cid := None)"
    and av: "availableOperatorSlots ?s' = availableOperatorSlots s + (if slot_SlotType sl = OperatorSlot then 1 else 0)"
    by (simp_all add: CleanupSlot_Some [OF Some] incrementSlots_def)
  have oc: "operator_clusters ?s' = operator_clusters s - {cid}"
    by (auto simp: operator_clusters_def sl')
  have mem: "cid \<in> operator_clusters s \<longleftrightarrow> slot_SlotType sl = OperatorSlot"
    using Some by (simp add: operator_clusters_def)
  have "card (operator_clusters s) = Suc (card (operator_clusters s - {cid}))" if "cid \<in> operator_clusters s"
    using card_Suc_Diff1 [of "operator_clusters s" cid] that assms by (simp add: operator_inv_def)
  then show ?thesis
    using assms mem unfolding operator_inv_def oc av by (cases "slot_SlotType sl") auto
qed

lemma operator_inv_reachable:
  assumes "slots_reachable n m s" and "0 \<le> n"
  shows "operator_inv n s"
  using assms(1)
proof (induction rule: slots_reachable.induct)
  case start
  show ?case using assms(2) by (simp add: operator_inv_def operator_clusters_def NewSlots_def)
next
  case (step s s')
  have inv: "slots_inv s" using step(1) by (rule slots_reachable_inv)
  from step(2) show ?case
  proof (cases rule: slots_step.cases)
    case (add locks cid r)
    then have "s' = s \<or> s' = lockAll locks cid s" by (auto simp: AddActiveAccounts_eq inv split: if_splits)
    then show ?thesis using step.IH operator_inv_cong [of s' s n] by auto
  next
    case (clear cid ids)
    then show ?thesis using step.IH operator_inv_cong [of s' s n] by (simp add: ClearActiveAccounts_def)
  next
    case (create locks cid slotType r)
    then show ?thesis using operator_inv_CreateSlot inv step.IH by blast
  next
    case (cleanup cid r)
    then show ?thesis using operator_inv_CleanupSlot [OF step.IH, of cid] by simp
  qed
qed

section \<open>Properties\<close>





text \<open>C15: A slot that was created for a cluster holding no slot and no lock is undone by its
  cleanup: the accounts are held as before, the cluster's slot is gone and both slot counters
  are back.\<close>

theorem CreateSlot_CleanupSlot:
  assumes "slots_reachable n m s" and "distinct (map fst L)"
    and "CreateSlotAndLockAccounts s cid t L = Some ((Some sl, r), s')"
    and "slots s cid = None" and "\<And>l x. (l, cid) \<notin># holders s x"
  shows "slots s' cid = Some sl
    \<and> holders (fst (CleanupSlot s' cid)) = holders s
    \<and> slots (fst (CleanupSlot s' cid)) = slots s
    \<and> availableOperatorSlots (fst (CleanupSlot s' cid)) = availableOperatorSlots s
    \<and> availableValidatorSlots (fst (CleanupSlot s' cid)) = availableValidatorSlots s"
proof -
  have inv: "slots_inv s" using assms(1) by (rule slots_reachable_inv)
  from inv assms(3) obtain s2 where s2: "s2 = decrementSlots t (s\<lparr>slots := (slots s)(cid \<mapsto> NewSlot t L)\<rparr>)"
      and s': "s' = lockAll L cid s2" and sl: "sl = NewSlot t L"
      and free: "\<And>x l. (x, l) \<in> set L \<Longrightarrow> \<not> conflict (holders s x) l"
    by (cases rule: CreateSlot_cases) auto
  have h2: "holders s2 = holders s" "slots_inv s2"
    using activeAccounts_only [of s2 s] inv by (simp_all add: s2)
  have "AddActiveAccounts s2 L cid = Some (True, s')"
    using free h2 by (auto simp: AddActiveAccounts_eq s')
  then have undone: "holders (ClearActiveAccounts s' cid (map fst L)) x = holders s x" for x
    using lt.acquire_release [OF h2(2) assms(2)] assms(5) h2(1) by simp
  have slot: "slots s' cid = Some sl" by (simp add: s' s2 sl)
  have "holders (fst (CleanupSlot s' cid)) = holders (ClearActiveAccounts s' cid (map fst L))"
    by (rule activeAccounts_only) (simp add: CleanupSlot_Some [OF slot] ClearActiveAccounts_def sl NewSlot_def)
  then have "holders (fst (CleanupSlot s' cid)) = holders s" using undone by (simp add: fun_eq_iff)
  moreover have "slots (fst (CleanupSlot s' cid)) = slots s"
    unfolding CleanupSlot_Some [OF slot] using assms(4) by (auto simp: s' s2)
  moreover have "availableOperatorSlots (fst (CleanupSlot s' cid)) = availableOperatorSlots s"
    and "availableValidatorSlots (fst (CleanupSlot s' cid)) = availableValidatorSlots s"
    unfolding CleanupSlot_Some [OF slot]
    by (simp_all add: s' s2 sl NewSlot_def incrementSlots_def decrementSlots_def)
  ultimately show ?thesis using slot by blast
qed

theorem CreateSlot_CleanupSlot_witness:
  "availableOperatorSlots (fst (CleanupSlot (lockAll [([1], MutateLock)] ''c''
     (decrementSlots OperatorSlot ((NewSlots 1 1)\<lparr>slots := [''c'' \<mapsto> NewSlot OperatorSlot [([1], MutateLock)]]\<rparr>)))
     ''c'')) = 1"
proof -
  have "slots (NewSlots 1 1) ''c'' = None" and "\<And>l x. (l, ''c'') \<notin># holders (NewSlots 1 1) x"
    by (simp_all add: NewSlots_def holders_def)
  moreover have "CreateSlotAndLockAccounts (NewSlots 1 1) ''c'' OperatorSlot [([1], MutateLock)]
      = Some ((Some (NewSlot OperatorSlot [([1], MutateLock)]), ''''), lockAll [([1], MutateLock)] ''c''
     (decrementSlots OperatorSlot ((NewSlots 1 1)\<lparr>slots := [''c'' \<mapsto> NewSlot OperatorSlot [([1], MutateLock)]]\<rparr>)))"
    by (simp add: CreateSlotAndLockAccounts_def areSlotsAvailable_def NewSlots_def Let_def)
  moreover have "distinct (map fst [([1] :: Identifier, MutateLock)])" by simp
  ultimately show ?thesis
    using CreateSlot_CleanupSlot [OF slots_reachable.start, of "[([1], MutateLock)]" 1 1 "''c''" OperatorSlot]
    by (simp add: NewSlots_def)
qed

text \<open>C16: A node configured with \<open>n\<close> operator slots never operates more than \<open>n\<close> clusters at a time,
  and its count of free operator slots stays between 0 and \<open>n\<close>, in whatever order slots are
  created and cleaned up.\<close>

theorem operator_slots_bounded:
  assumes "slots_reachable n m s" and "0 \<le> n"
  shows "finite (operator_clusters s) \<and> int (card (operator_clusters s)) \<le> n
    \<and> 0 \<le> availableOperatorSlots s \<and> availableOperatorSlots s \<le> n"
  using operator_inv_reachable [OF assms] by (auto simp: operator_inv_def)

theorem operator_slots_bounded_witness:
  "int (card (operator_clusters (NewSlots 2 1))) \<le> 2 \<and> availableOperatorSlots (NewSlots 2 1) \<le> 2"
  using operator_slots_bounded [OF slots_reachable.start, of 2 1] by simp

text \<open>The cluster that holds the accounts is never named: the second result is always empty.\<close>

theorem CreateSlot_names_no_cluster:
  assumes "CreateSlotAndLockAccounts s cid t L = Some ((sl, c), s')"
  shows "c = ''''"
  using assms by (auto simp: CreateSlotAndLockAccounts_def Let_def bind_eq_Some_conv split: if_splits)

end
