(* ===== verification/Committee.thy ===== *)
theory Committee
  imports Consensus_Types
begin

text \<open>
  The committee of an interaction cluster, src/consensus/types/nodeset.go: one node set per
  distinct consensus-nodes hash of the participants, followed by the random set. Validators
  are addressed by their position in the concatenation of all sets, which the theory calls
  \<open>roster\<close>; the lemmas say that the lookups agree with that list, that the response counters
  agree with the response bits, and that the quorum sizes make quorums intersect.
\<close>

section \<open>Definitions\<close>

datatype CounterType = VoteCounter | MajorityCounter

text \<open>The message of a validator is an interface value; only \<^verbatim>\<open>*Prepared\<close> values are read back.\<close>

record ValidatorInfo =
  vi_ID :: u64
  vi_KramaID :: KramaID
  vi_PublicKey :: "u8 list"
  vi_VotingPower :: u64
  vi_Msg :: "Prepared option"

record Response =
  resp_Bits :: "ArrayOfBits option"
  resp_Count :: int

text \<open>\<^verbatim>\<open>NewNodeSet\<close> fills both counters and no operation removes one, so the map is total.\<close>

record NodeSet =
  ns_Infos :: "ValidatorInfo list"
  ns_Responses :: "CounterType \<Rightarrow> Response"
  ns_ExcludedFromICS :: bool
  ns_SetSizeWithOutDelta :: u32

definition NewNodeSet :: "ValidatorInfo list \<Rightarrow> u32 \<Rightarrow> NodeSet" where
  "NewNodeSet vals required =
     \<lparr>ns_Infos = vals,
      ns_Responses = (\<lambda>_. \<lparr>resp_Bits = NewArrayOfBits (int (length vals)), resp_Count = 0\<rparr>),
      ns_ExcludedFromICS = False, ns_SetSizeWithOutDelta = required\<rparr>"

definition GetRespCount :: "NodeSet \<Rightarrow> CounterType \<Rightarrow> int" where
  "GetRespCount ns ct = resp_Count (ns_Responses ns ct)"

definition NodeSet_UpdateResponse ::
  "CounterType \<Rightarrow> int \<Rightarrow> bool \<Rightarrow> NodeSet \<Rightarrow> NodeSet option" where
  "NodeSet_UpdateResponse ct index v ns = (let r = ns_Responses ns ct in do {
     seen \<leftarrow> GetIndex (resp_Bits r) index;
     if seen then Some ns
     else do {
       (_, bits) \<leftarrow> SetIndex (resp_Bits r) index v;
       Some (ns\<lparr>ns_Responses := (ns_Responses ns)(ct :=
         \<lparr>resp_Bits = bits, resp_Count = int32 (resp_Count r + 1)\<rparr>)\<rparr>)
     }
   })"

definition UpdateViewInfo :: "int \<Rightarrow> Prepared \<Rightarrow> NodeSet \<Rightarrow> NodeSet option" where
  "UpdateViewInfo index msg ns = do {
     info \<leftarrow> go_index (ns_Infos ns) index;
     infos \<leftarrow> go_update (ns_Infos ns) index (info\<lparr>vi_Msg := Some msg\<rparr>);
     Some (ns\<lparr>ns_Infos := infos\<rparr>)
   }"

definition ValidatorIndices :: "NodeSet \<Rightarrow> u64 list" where
  "ValidatorIndices ns = map vi_ID (ns_Infos ns)"

definition KramaIDs :: "NodeSet \<Rightarrow> KramaID list" where
  "KramaIDs ns = map vi_KramaID (ns_Infos ns)"

record NodesetData =
  nd_Position :: int
  nd_PSCount :: int
  nd_ExcludedPSCount :: int

text \<open>A nil entry of \<^verbatim>\<open>Sets\<close> is \<^const>\<open>None\<close>.\<close>

record ICSCommittee =
  Sets :: "NodeSet option list"
  ConsensusNodesHash :: "Hash \<rightharpoonup> NodesetData"
  totalNodes :: int
  ics_size :: int

definition NewICSCommittee :: ICSCommittee where
  "NewICSCommittee =
     \<lparr>Sets = [], ConsensusNodesHash = Map.empty, totalNodes = 0, ics_size = 0\<rparr>"

definition ContextSet :: "ICSCommittee \<Rightarrow> NodeSet option list option" where
  "ContextSet c = (if Sets c = [] then None else Some (butlast (Sets c)))"

text \<open>A method call on the set at a position: a nil set or a position out of range panics.\<close>

definition set_at :: "ICSCommittee \<Rightarrow> int \<Rightarrow> NodeSet option" where
  "set_at c pos = Option.bind (go_index (Sets c) pos) (\<lambda>s. s)"

definition modify_set :: "(NodeSet \<Rightarrow> NodeSet) \<Rightarrow> int \<Rightarrow> ICSCommittee \<Rightarrow> ICSCommittee option" where
  "modify_set f pos c = do {
     ns \<leftarrow> set_at c pos;
     sets \<leftarrow> go_update (Sets c) pos (Some (f ns));
     Some (c\<lparr>Sets := sets\<rparr>)
   }"

definition IncrementPSCount :: "Hash \<Rightarrow> ICSCommittee \<Rightarrow> ICSCommittee option" where
  "IncrementPSCount h c = do {
     d \<leftarrow> ConsensusNodesHash c h;
     Some (c\<lparr>ConsensusNodesHash := (ConsensusNodesHash c)(h \<mapsto> d\<lparr>nd_PSCount := nd_PSCount d + 1\<rparr>)\<rparr>)
   }"

definition SetExcludeFromICS :: "int \<Rightarrow> bool \<Rightarrow> ICSCommittee \<Rightarrow> ICSCommittee option" where
  "SetExcludeFromICS pos val = modify_set (\<lambda>ns. ns\<lparr>ns_ExcludedFromICS := val\<rparr>) pos"

definition IncrementExcludedPSCount :: "Hash \<Rightarrow> ICSCommittee \<Rightarrow> ICSCommittee option" where
  "IncrementExcludedPSCount h c = do {
     d0 \<leftarrow> ConsensusNodesHash c h;
     let d = d0\<lparr>nd_ExcludedPSCount := nd_ExcludedPSCount d0 + 1\<rparr>;
     let c1 = c\<lparr>ConsensusNodesHash := (ConsensusNodesHash c)(h \<mapsto> d)\<rparr>;
     if nd_ExcludedPSCount d = nd_PSCount d
     then modify_set (\<lambda>ns. ns\<lparr>ns_ExcludedFromICS := True\<rparr>) (nd_Position d) c1
     else Some c1
   }"

definition IsExcluded :: "ICSCommittee \<Rightarrow> int \<Rightarrow> bool option" where
  "IsExcluded c pos = map_option ns_ExcludedFromICS (set_at c pos)"

definition AppendNodeSet :: "Hash \<Rightarrow> NodeSet option \<Rightarrow> ICSCommittee \<Rightarrow> ICSCommittee" where
  "AppendNodeSet h data c =
     (case data of
        None \<Rightarrow> c
      | Some ns \<Rightarrow>
          (let c1 = c\<lparr>Sets := Sets c @ [Some ns],
                      totalNodes := totalNodes c + int (length (ns_Infos ns)),
                      ics_size := ics_size c + 1\<rparr>
           in if Hash_IsNil h then c1
              else c1\<lparr>ConsensusNodesHash := (ConsensusNodesHash c1)(h \<mapsto>
                \<lparr>nd_Position = int (length (Sets c1)) - 1, nd_PSCount = 1, nd_ExcludedPSCount = 0\<rparr>)\<rparr>))"

definition GetNodesetPosition :: "ICSCommittee \<Rightarrow> Hash \<Rightarrow> int \<times> bool" where
  "GetNodesetPosition c h =
     (case ConsensusNodesHash c h of None \<Rightarrow> (0, False) | Some d \<Rightarrow> (nd_Position d, True))"

definition HasConsensusNodesHash :: "ICSCommittee \<Rightarrow> Hash \<Rightarrow> bool" where
  "HasConsensusNodesHash c h \<longleftrightarrow> ConsensusNodesHash c h \<noteq> None"

text \<open>\<open>stateHash\<close> is the field \<^verbatim>\<open>StateHash\<close> of the participant's state.\<close>

definition UpdateNodeset ::
  "Hash \<Rightarrow> NodeSet \<Rightarrow> Hash \<Rightarrow> LockType \<Rightarrow> ICSCommittee \<Rightarrow> ICSCommittee option" where
  "UpdateNodeset h consensusSet stateHash lockType c = do {
     c1 \<leftarrow>
       (if \<not> snd (GetNodesetPosition c h)
        then Some (AppendNodeSet h (Some
          (if lockType = NoLock then consensusSet\<lparr>ns_ExcludedFromICS := True\<rparr> else consensusSet)) c)
        else do {
          d \<leftarrow> ConsensusNodesHash c h;
          ns \<leftarrow> set_at c (nd_Position d);
          c' \<leftarrow> (if ns_ExcludedFromICS ns \<and> lockType = MutateLock \<and> stateHash \<noteq> NilHash
                then modify_set (\<lambda>ns. ns\<lparr>ns_ExcludedFromICS := False\<rparr>) (nd_Position d) c
                else Some c);
          IncrementPSCount h c'
        });
     if stateHash = NilHash then IncrementExcludedPSCount h c1 else Some c1
   }"

definition TotalNodes :: "ICSCommittee \<Rightarrow> int" where
  "TotalNodes c = totalNodes c"

definition ics_Size :: "ICSCommittee \<Rightarrow> int" where
  "ics_Size c = ics_size c"

definition StochasticSetPosition :: "ICSCommittee \<Rightarrow> int" where
  "StochasticSetPosition c = ics_size c - 1"

definition ParticipantQuorum :: "ICSCommittee \<Rightarrow> int \<Rightarrow> u32 option" where
  "ParticipantQuorum c position = do {
     s \<leftarrow> go_index (Sets c) position;
     Some (case s of None \<Rightarrow> 0
           | Some ns \<Rightarrow>
               (let count = ns_SetSizeWithOutDelta ns in if count = 0 then count else count * 2 div 3 + 1))
   }"

text \<open>A loop over the sets that updates every set which is not nil.\<close>

definition update_sets :: "(NodeSet \<Rightarrow> NodeSet option) \<Rightarrow> ICSCommittee \<Rightarrow> ICSCommittee option" where
  "update_sets f c = do {
     sets \<leftarrow> those (map (\<lambda>s. case s of None \<Rightarrow> Some None | Some ns \<Rightarrow> map_option Some (f ns)) (Sets c));
     Some (c\<lparr>Sets := sets\<rparr>)
   }"

text \<open>The loop over the validators of a set that runs \<open>f\<close> at every index of the given krama ID.\<close>

definition at_kramaID :: "KramaID \<Rightarrow> (int \<Rightarrow> NodeSet \<Rightarrow> NodeSet option) \<Rightarrow> NodeSet \<Rightarrow> NodeSet option" where
  "at_kramaID ident f ns = foldM (\<lambda>(j, info) ns.
     if vi_KramaID info = ident then f (int j) ns else Some ns) (enumerate 0 (ns_Infos ns)) ns"

definition UpdateNodePreparedMsg :: "KramaID \<Rightarrow> Prepared \<Rightarrow> ICSCommittee \<Rightarrow> ICSCommittee option" where
  "UpdateNodePreparedMsg ident msg = update_sets (at_kramaID ident (\<lambda>index ns.
     Option.bind (NodeSet_UpdateResponse VoteCounter index True ns) (UpdateViewInfo index msg)))"

definition UpdateResponse :: "CounterType \<Rightarrow> KramaID \<Rightarrow> ICSCommittee \<Rightarrow> ICSCommittee option" where
  "UpdateResponse ct ident = update_sets (at_kramaID ident (\<lambda>index. NodeSet_UpdateResponse ct index True))"

definition getPrepareMsg :: "ValidatorInfo \<Rightarrow> string + Prepared" where
  "getPrepareMsg valInfo =
     (case vi_Msg valInfo of Some prepared \<Rightarrow> Inr prepared | None \<Rightarrow> Inl ''invalid prepare message type'')"

text \<open>The loops of \<^verbatim>\<open>ViewInfos\<close> and \<^verbatim>\<open>ViewInfosAndSignatures\<close>: the state holds the views, the
  signatures and the offset of the current set.\<close>

fun collect_set ::
  "NodeSet \<Rightarrow> int \<Rightarrow> (nat \<times> ValidatorInfo) list \<Rightarrow> Views list \<Rightarrow> u8 list list
    \<Rightarrow> (string + Views list \<times> u8 list list) option" where
  "collect_set ns offset [] views signs = Some (Inr (views, signs))"
| "collect_set ns offset ((j, info) # rest) views signs = do {
     voted \<leftarrow> GetIndex (resp_Bits (ns_Responses ns VoteCounter)) (int j);
     if \<not> voted then collect_set ns offset rest views signs
     else (case getPrepareMsg info of
         Inl err \<Rightarrow> Some (Inl err)
       | Inr m \<Rightarrow> do {
           views' \<leftarrow> go_update views (offset + int j) (prepared_Infos m);
           collect_set ns offset rest views' (signs @ [prepared_Signature m])
         })
   }"

fun collect_views ::
  "NodeSet option list \<Rightarrow> int \<Rightarrow> Views list \<Rightarrow> u8 list list
    \<Rightarrow> (string + Views list \<times> u8 list list) option" where
  "collect_views [] offset views signs = Some (Inr (views, signs))"
| "collect_views (None # sets) offset views signs = collect_views sets offset views signs"
| "collect_views (Some ns # sets) offset views signs = do {
     r \<leftarrow> collect_set ns offset (enumerate 0 (ns_Infos ns)) views signs;
     (case r of
        Inl err \<Rightarrow> Some (Inl err)
      | Inr (views', signs') \<Rightarrow> collect_views sets (offset + int (length (ns_Infos ns))) views' signs')
   }"

definition ViewInfosAndSignatures :: "ICSCommittee \<Rightarrow> (string + Views list \<times> u8 list list) option" where
  "ViewInfosAndSignatures c =
     (if totalNodes c < 0 then None else collect_views (Sets c) 0 (replicate (nat (totalNodes c)) []) [])"

definition ViewInfos :: "ICSCommittee \<Rightarrow> (string + Views list) option" where
  "ViewInfos c = map_option (map_sum id fst) (ViewInfosAndSignatures c)"

definition UpdateSetResponses ::
  "CounterType \<Rightarrow> int \<Rightarrow> ArrayOfBits option \<Rightarrow> ICSCommittee \<Rightarrow> ICSCommittee option" where
  "UpdateSetResponses ct position responses c =
     (case responses of
        None \<Rightarrow> Some c
      | Some b \<Rightarrow> do {
          n \<leftarrow> TrueIndicesSize b;
          modify_set (\<lambda>ns. ns\<lparr>ns_Responses := (ns_Responses ns)(ct :=
            \<lparr>resp_Bits = Some b, resp_Count = int32 n\<rparr>)\<rparr>) position c
        })"

text \<open>The search for the set and the index inside it of a validator of the whole committee: the
  index is reduced by the size of every set that is passed.\<close>

fun locate :: "nat \<Rightarrow> NodeSet option list \<Rightarrow> int \<Rightarrow> (nat \<times> NodeSet \<times> int) option" where
  "locate v [] index = None"
| "locate v (None # sets) index = locate (Suc v) sets index"
| "locate v (Some ns # sets) index =
     (if index \<ge> int (length (ns_Infos ns))
      then locate (Suc v) sets (index - int (length (ns_Infos ns)))
      else Some (v, ns, index))"

fun UpdateValidatorResponse ::
  "CounterType \<Rightarrow> int list \<Rightarrow> ICSCommittee \<Rightarrow> u8 list list
    \<Rightarrow> (ICSCommittee \<times> (string + u8 list list)) option" where
  "UpdateValidatorResponse ct [] c publicKeys = Some (c, Inr publicKeys)"
| "UpdateValidatorResponse ct (index # indices) c publicKeys =
     (if index < 0 \<or> index \<ge> totalNodes c then Some (c, Inl ''invalid validator index'')
      else (case locate 0 (Sets c) index of
          None \<Rightarrow> UpdateValidatorResponse ct indices c publicKeys
        | Some (v, ns, i) \<Rightarrow> do {
            info \<leftarrow> go_index (ns_Infos ns) i;
            ns' \<leftarrow> NodeSet_UpdateResponse ct i True ns;
            UpdateValidatorResponse ct indices (c\<lparr>Sets := (Sets c)[v := Some ns']\<rparr>)
              (publicKeys @ [vi_PublicKey info])
          }))"

definition GetSlots :: "ICSCommittee \<Rightarrow> KramaID \<Rightarrow> int list option" where
  "GetSlots c ident = foldM (\<lambda>j slots. do {
     ns \<leftarrow> set_at c (int j);
     Some (if list_ex (\<lambda>info. vi_KramaID info = ident) (ns_Infos ns) then slots @ [int j] else slots)
   }) [0..<nat (ics_size c)] []"

text \<open>The later context sets that hold the same validator; the last set is not searched.\<close>

definition later_slots :: "ICSCommittee \<Rightarrow> nat \<Rightarrow> KramaID \<Rightarrow> int list" where
  "later_slots c v ident = concat (map (\<lambda>j. case Sets c ! j of
       None \<Rightarrow> []
     | Some ns \<Rightarrow> map (\<lambda>_. int j) (filter (\<lambda>k. vi_KramaID k = ident) (ns_Infos ns)))
     [Suc v..<length (Sets c) - 1])"

text \<open>Results: the slots (nil as \<^const>\<open>None\<close>), the slot index, the krama ID and the public key.\<close>

definition GetKramaID ::
  "ICSCommittee \<Rightarrow> int \<Rightarrow> (int list option \<times> int \<times> KramaID \<times> u8 list) option" where
  "GetKramaID c index =
     (if index < 0 \<or> index \<ge> totalNodes c then Some (None, -1, '''', [])
      else if ics_size c - 1 < 0 then None
      else (case locate 0 (Sets c) index of
          None \<Rightarrow> Some (None, -1, '''', [])
        | Some (v, ns, i) \<Rightarrow> do {
            info \<leftarrow> go_index (ns_Infos ns) i;
            Some (Some (int v # later_slots c v (vi_KramaID info)), i, vi_KramaID info, vi_PublicKey info)
          }))"

definition GetPublicKey :: "ICSCommittee \<Rightarrow> int \<Rightarrow> (KramaID \<times> u8 list) option" where
  "GetPublicKey c index =
     (if index < 0 \<or> index \<ge> totalNodes c then Some ('''', [])
      else (case locate 0 (Sets c) index of
          None \<Rightarrow> Some ('''', [])
        | Some (v, ns, i) \<Rightarrow> do {
            info \<leftarrow> go_index (ns_Infos ns) i;
            Some (vi_KramaID info, vi_PublicKey info)
          }))"

fun HasKramaID_sets :: "int \<Rightarrow> NodeSet option list \<Rightarrow> KramaID \<Rightarrow> (int \<times> u8 list \<times> bool) option" where
  "HasKramaID_sets offset [] peerID = Some (-1, [], False)"
| "HasKramaID_sets offset (None # sets) peerID = HasKramaID_sets offset sets peerID"
| "HasKramaID_sets offset (Some ns # sets) peerID =
     (case find (\<lambda>(j, info). vi_KramaID info = peerID) (enumerate 0 (ns_Infos ns)) of
        Some (j, info) \<Rightarrow> do {
          voted \<leftarrow> GetIndex (resp_Bits (ns_Responses ns VoteCounter)) (int j);
          Some (int32 (offset + int j), vi_PublicKey info, voted)
        }
      | None \<Rightarrow> HasKramaID_sets (offset + int (length (ns_Infos ns))) sets peerID)"

definition HasKramaID :: "ICSCommittee \<Rightarrow> KramaID \<Rightarrow> (int \<times> u8 list \<times> bool) option" where
  "HasKramaID c peerID = HasKramaID_sets 0 (Sets c) peerID"

fun GetIndex_sets :: "nat \<Rightarrow> NodeSet option list \<Rightarrow> KramaID \<Rightarrow> int \<times> int" where
  "GetIndex_sets i [] peerID = (-1, -1)"
| "GetIndex_sets i (None # sets) peerID = GetIndex_sets (Suc i) sets peerID"
| "GetIndex_sets i (Some ns # sets) peerID =
     (if ns_ExcludedFromICS ns then GetIndex_sets (Suc i) sets peerID
      else (case find (\<lambda>(j, info). vi_KramaID info = peerID) (enumerate 0 (ns_Infos ns)) of
          Some (j, info) \<Rightarrow> (int i, int j)
        | None \<Rightarrow> GetIndex_sets (Suc i) sets peerID))"

definition ics_GetIndex :: "ICSCommittee \<Rightarrow> KramaID \<Rightarrow> int \<times> int" where
  "ics_GetIndex c peerID = GetIndex_sets 0 (Sets c) peerID"

text \<open>The loops that collect every krama ID once; the map of seen nodes is the set of the collected
  ones.\<close>

definition collect_distinct :: "KramaID \<Rightarrow> KramaID list \<Rightarrow> KramaID list" where
  "collect_distinct k distinctNodes = (if k \<in> set distinctNodes then distinctNodes else distinctNodes @ [k])"

definition GetNodes :: "ICSCommittee \<Rightarrow> KramaID list" where
  "GetNodes c = fold (\<lambda>s distinctNodes. case s of
       None \<Rightarrow> distinctNodes
     | Some ns \<Rightarrow> if ns_ExcludedFromICS ns then distinctNodes
         else fold (\<lambda>info. collect_distinct (vi_KramaID info)) (ns_Infos ns) distinctNodes) (Sets c) []"

definition GetInactiveNodes :: "ICSCommittee \<Rightarrow> CounterType \<Rightarrow> KramaID list option" where
  "GetInactiveNodes c ct = foldM (\<lambda>s distinctNodes. case s of
       None \<Rightarrow> Some distinctNodes
     | Some ns \<Rightarrow> if ns_ExcludedFromICS ns then Some distinctNodes
         else foldM (\<lambda>(index, info) distinctNodes. do {
           responded \<leftarrow> GetIndex (resp_Bits (ns_Responses ns ct)) (int index);
           Some (if responded then distinctNodes else collect_distinct (vi_KramaID info) distinctNodes)
         }) (enumerate 0 (ns_Infos ns)) distinctNodes) (Sets c) []"

definition voteset_set :: "CounterType \<Rightarrow> int \<Rightarrow> NodeSet \<Rightarrow> ArrayOfBits option \<Rightarrow> ArrayOfBits option option" where
  "voteset_set ct index ns = foldM (\<lambda>j voteSet. do {
     b \<leftarrow> GetIndex (resp_Bits (ns_Responses ns ct)) (int j);
     map_option snd (SetIndex voteSet (index + int j) b)
   }) [0..<length (ns_Infos ns)]"

fun voteset_sets ::
  "CounterType \<Rightarrow> int \<Rightarrow> NodeSet option list \<Rightarrow> ArrayOfBits option \<Rightarrow> ArrayOfBits option option" where
  "voteset_sets ct index [] voteSet = Some voteSet"
| "voteset_sets ct index (None # sets) voteSet = voteset_sets ct index sets voteSet"
| "voteset_sets ct index (Some ns # sets) voteSet = do {
     voteSet' \<leftarrow> voteset_set ct index ns voteSet;
     voteset_sets ct (index + int (length (ns_Infos ns))) sets voteSet'
   }"

definition GetVoteset :: "ICSCommittee \<Rightarrow> CounterType \<Rightarrow> ArrayOfBits option option" where
  "GetVoteset c ct = voteset_sets ct 0 (Sets c) (NewArrayOfBits (totalNodes c))"

definition GetRespondedNodeCount :: "ICSCommittee \<Rightarrow> CounterType \<Rightarrow> int \<Rightarrow> int \<Rightarrow> int option" where
  "GetRespondedNodeCount c ct start end' = foldM (\<lambda>j count. do {
     s \<leftarrow> go_index (Sets c) j;
     Some (case s of None \<Rightarrow> count | Some ns \<Rightarrow> count + GetRespCount ns ct)
   }) [start..end'] 0"

text \<open>Whether a set that is not excluded has more than two thirds of its size as responses.\<close>

definition set_quorum :: "CounterType \<Rightarrow> NodeSet \<Rightarrow> bool" where
  "set_quorum ct ns \<longleftrightarrow>
     (let responses = GetRespCount ns ct; setSize = uint (ns_SetSizeWithOutDelta ns)
      in \<not> (setSize > 0 \<and> responses < setSize * 2 sdiv 3 + 1))"

definition quorum_or_excluded :: "CounterType \<Rightarrow> NodeSet option \<Rightarrow> bool" where
  "quorum_or_excluded ct s = (case s of None \<Rightarrow> True | Some ns \<Rightarrow> ns_ExcludedFromICS ns \<or> set_quorum ct ns)"

fun sets_quorum :: "ICSCommittee \<Rightarrow> CounterType \<Rightarrow> int list \<Rightarrow> bool option" where
  "sets_quorum c ct [] = Some True"
| "sets_quorum c ct (j # js) = do {
     s \<leftarrow> go_index (Sets c) j;
     if quorum_or_excluded ct s then sets_quorum c ct js else Some False
   }"

definition IsSlotsQuorum :: "ICSCommittee \<Rightarrow> int list \<Rightarrow> bool option" where
  "IsSlotsQuorum c slots = sets_quorum c MajorityCounter slots"

definition IsContextQuorum :: "ICSCommittee \<Rightarrow> CounterType \<Rightarrow> bool option" where
  "IsContextQuorum c ct = sets_quorum c ct [0..ics_size c - 2]"

definition RandomSet :: "ICSCommittee \<Rightarrow> NodeSet option option" where
  "RandomSet c = go_index (Sets c) (StochasticSetPosition c)"

definition IsRandomQuorum :: "ICSCommittee \<Rightarrow> CounterType \<Rightarrow> int \<Rightarrow> bool option" where
  "IsRandomQuorum c ct requiredRandomNodes = do {
     r \<leftarrow> RandomSet c;
     ns \<leftarrow> r;
     Some (GetRespCount ns ct \<ge> requiredRandomNodes)
   }"

definition RandomSetSize :: "ICSCommittee \<Rightarrow> int option" where
  "RandomSetSize c = do { r \<leftarrow> RandomSet c; ns \<leftarrow> r; Some (int (length (ns_Infos ns))) }"

definition RandomSetSizeWithOutDelta :: "ICSCommittee \<Rightarrow> u32 option" where
  "RandomSetSizeWithOutDelta c = do { r \<leftarrow> RandomSet c; ns \<leftarrow> r; Some (ns_SetSizeWithOutDelta ns) }"

definition RandomQuorumSize :: "ICSCommittee \<Rightarrow> u32 option" where
  "RandomQuorumSize c = do { r \<leftarrow> RandomSet c; ns \<leftarrow> r; Some (ns_SetSizeWithOutDelta ns * 2 div 3 + 1) }"

definition Responses :: "ICSCommittee \<Rightarrow> CounterType \<Rightarrow> ArrayOfBits option list option" where
  "Responses c ct = those (map (\<lambda>j. do {
     s \<leftarrow> go_index (Sets c) (int j);
     Some (case s of
         None \<Rightarrow> None
       | Some ns \<Rightarrow> if ns_ExcludedFromICS ns then None else bits_Copy (resp_Bits (ns_Responses ns ct)))
   }) [0..<nat (ics_size c)])"

definition DistinctNodes :: "KramaID \<Rightarrow> NodeSet option list \<Rightarrow> u64 set \<times> int \<times> bool" where
  "DistinctNodes operator nodeSets =
     (let (nodes, included) = fold (\<lambda>s acc. case s of
            None \<Rightarrow> acc
          | Some ns \<Rightarrow> fold (\<lambda>info (nodes, included).
              if vi_ID info \<in> nodes then (nodes, included)
              else (insert (vi_ID info) nodes, included \<or> vi_KramaID info = operator))
              (ns_Infos ns) acc) nodeSets ({}, False)
      in (nodes, int (card nodes), included))"

section \<open>The roster: one entry per validator\<close>

text \<open>The abstract state of a committee is the list of its validators, set after set, each with
  the two response flags. Every lookup and update of the code is stated on that list.\<close>

type_synonym entry = "ValidatorInfo \<times> (CounterType \<Rightarrow> bool)"

definition set_roster :: "NodeSet \<Rightarrow> entry list" where
  "set_roster ns = map (\<lambda>j. (ns_Infos ns ! j, \<lambda>ct. obit (resp_Bits (ns_Responses ns ct)) j)) [0..<length (ns_Infos ns)]"

definition roster_of :: "NodeSet option list \<Rightarrow> entry list" where
  "roster_of sets = concat (map (\<lambda>s. case s of None \<Rightarrow> [] | Some ns \<Rightarrow> set_roster ns) sets)"

definition roster :: "ICSCommittee \<Rightarrow> entry list" where
  "roster c = roster_of (Sets c)"

abbreviation entry_KramaID :: "entry \<Rightarrow> KramaID" where
  "entry_KramaID e \<equiv> vi_KramaID (fst e)"

abbreviation entry_PublicKey :: "entry \<Rightarrow> u8 list" where
  "entry_PublicKey e \<equiv> vi_PublicKey (fst e)"

definition mark :: "CounterType \<Rightarrow> entry \<Rightarrow> entry" where
  "mark ct e = (fst e, (snd e)(ct := True))"

definition resp_ok :: "nat \<Rightarrow> Response \<Rightarrow> bool" where
  "resp_ok n r \<longleftrightarrow> wf_obits n (resp_Bits r) \<and> resp_Count r = int (length (filter id (obits n (resp_Bits r))))"

definition set_ok :: "NodeSet \<Rightarrow> bool" where
  "set_ok ns \<longleftrightarrow> length (ns_Infos ns) < 2 ^ 31 \<and> (\<forall>ct. resp_ok (length (ns_Infos ns)) (ns_Responses ns ct))"

text \<open>The committee invariant: no nil sets, both counters of every set agree with its bits, the
  totals agree with the sets, and every tracked position exists.\<close>

definition committee_inv :: "ICSCommittee \<Rightarrow> bool" where
  "committee_inv c \<longleftrightarrow>
     (\<forall>s \<in> set (Sets c). \<exists>ns. s = Some ns \<and> set_ok ns)
     \<and> ics_size c = int (length (Sets c))
     \<and> totalNodes c = int (length (roster c))
     \<and> (\<forall>h d. ConsensusNodesHash c h = Some d \<longrightarrow> 0 \<le> nd_Position d \<and> nd_Position d < int (length (Sets c)))"

lemma length_set_roster [simp]: "length (set_roster ns) = length (ns_Infos ns)"
  by (simp add: set_roster_def)

lemma nth_set_roster [simp]:
  "j < length (ns_Infos ns) \<Longrightarrow> set_roster ns ! j = (ns_Infos ns ! j, \<lambda>ct. obit (resp_Bits (ns_Responses ns ct)) j)"
  by (simp add: set_roster_def)

lemma map_fst_set_roster [simp]: "map fst (set_roster ns) = ns_Infos ns"
  by (rule nth_equalityI) simp_all

lemma obits_set_roster: "obits (length (ns_Infos ns)) (resp_Bits (ns_Responses ns ct)) = map (\<lambda>e. snd e ct) (set_roster ns)"
  by (rule nth_equalityI) simp_all

lemma roster_of_simps [simp]:
  "roster_of [] = []"
  "roster_of (None # sets) = roster_of sets"
  "roster_of (Some ns # sets) = set_roster ns @ roster_of sets"
  "roster_of (sets @ sets') = roster_of sets @ roster_of sets'"
  by (simp_all add: roster_of_def)

lemma set_okD:
  assumes "set_ok ns"
  shows "length (ns_Infos ns) < 2 ^ 31" and "wf_obits (length (ns_Infos ns)) (resp_Bits (ns_Responses ns ct))"
    and "resp_Count (ns_Responses ns ct) = int (length (filter (\<lambda>e. snd e ct) (set_roster ns)))"
proof -
  show "length (ns_Infos ns) < 2 ^ 31" and "wf_obits (length (ns_Infos ns)) (resp_Bits (ns_Responses ns ct))"
    using assms by (auto simp: set_ok_def resp_ok_def)
  have "resp_Count (ns_Responses ns ct) = int (length (filter id (map (\<lambda>e. snd e ct) (set_roster ns))))"
    using assms by (auto simp: set_ok_def resp_ok_def obits_set_roster)
  then show "resp_Count (ns_Responses ns ct) = int (length (filter (\<lambda>e. snd e ct) (set_roster ns)))"
    by (simp add: filter_map o_def)
qed

lemma set_ok_NewNodeSet:
  "length vals < 2 ^ 31 \<Longrightarrow> set_ok (NewNodeSet vals req) \<and> set_roster (NewNodeSet vals req) = map (\<lambda>v. (v, \<lambda>_. False)) vals"
proof -
  assume len: "length vals < 2 ^ 31"
  note new = NewArrayOfBits_obits [of "length vals"]
  have "obit (NewArrayOfBits (int (length vals))) j = False" if "j < length vals" for j
    using new nth_obits [OF that, of "NewArrayOfBits (int (length vals))"] that by simp
  with len new show ?thesis
    by (auto simp: set_ok_def resp_ok_def NewNodeSet_def intro!: nth_equalityI)
qed

text \<open>What an update of a set leaves alone.\<close>

definition set_frame :: "NodeSet \<Rightarrow> NodeSet \<Rightarrow> bool" where
  "set_frame ns ns' \<longleftrightarrow> length (ns_Infos ns') = length (ns_Infos ns)
    \<and> ns_ExcludedFromICS ns' = ns_ExcludedFromICS ns \<and> ns_SetSizeWithOutDelta ns' = ns_SetSizeWithOutDelta ns"

lemma set_frame_refl [simp]: "set_frame ns ns"
  by (simp add: set_frame_def)

lemma set_frame_trans: "set_frame a b \<Longrightarrow> set_frame b c \<Longrightarrow> set_frame a c"
  by (simp add: set_frame_def)

lemma NodeSet_UpdateResponse_spec:
  assumes "set_ok ns" and "j < length (ns_Infos ns)"
  obtains ns' where "NodeSet_UpdateResponse ct (int j) True ns = Some ns'" and "set_ok ns'"
    and "set_frame ns ns'" and "ns_Infos ns' = ns_Infos ns"
    and "set_roster ns' = (set_roster ns)[j := mark ct (set_roster ns ! j)]"
proof -
  let ?n = "length (ns_Infos ns)" and ?r = "ns_Responses ns ct"
  have wf: "wf_obits ?n (resp_Bits ?r)" using assms(1) by (rule set_okD)
  show ?thesis
  proof (cases "obit (resp_Bits ?r) j")
    case True
    then have "set_roster ns = (set_roster ns)[j := mark ct (set_roster ns ! j)]"
      using assms(2) by (auto simp: mark_def nth_list_update fun_eq_iff intro!: nth_equalityI)
    with True show ?thesis
      using that [of ns] assms(1) GetIndex_obit [OF wf, of j] by (simp add: NodeSet_UpdateResponse_def)
  next
    case False
    obtain bits where bits: "SetIndex (resp_Bits ?r) (int j) True = Some (True, bits)" "wf_obits ?n bits"
        "obits ?n bits = (obits ?n (resp_Bits ?r))[j := True]"
      using wf assms(2) by (rule SetIndex_obits)
    let ?k = "length (filter id (obits ?n (resp_Bits ?r)))"
    have count: "length (filter id (obits ?n bits)) = Suc ?k"
      using length_filter_update [of j "obits ?n (resp_Bits ?r)" id True] assms(2) False by (simp add: bits(3))
    have "Suc ?k \<le> ?n" using length_filter_le [of id "obits ?n bits"] by (simp add: count)
    then have int32: "int32 (resp_Count ?r + 1) = int (Suc ?k)"
      using assms(1) by (auto simp: set_ok_def resp_ok_def)
    let ?ns = "ns\<lparr>ns_Responses := (ns_Responses ns)(ct := \<lparr>resp_Bits = bits, resp_Count = int32 (resp_Count ?r + 1)\<rparr>)\<rparr>"
    have "NodeSet_UpdateResponse ct (int j) True ns = Some ?ns"
      using False by (simp add: NodeSet_UpdateResponse_def GetIndex_obit [OF wf] bits(1) Let_def)
    moreover have "set_ok ?ns"
      using assms(1) bits(2) count int32 by (auto simp: set_ok_def resp_ok_def)
    moreover have "obit bits i = (if i = j then True else obit (resp_Bits ?r) i)" if "i < ?n" for i
      using arg_cong [OF bits(3), of "\<lambda>l. l ! i"] that by (simp add: nth_list_update)
    then have "set_roster ?ns = (set_roster ns)[j := mark ct (set_roster ns ! j)]"
      using assms(2) by (auto simp: mark_def nth_list_update fun_eq_iff intro!: nth_equalityI)
    ultimately show ?thesis using that by (simp add: set_frame_def)
  qed
qed

lemma UpdateViewInfo_spec:
  assumes "set_ok ns" and "j < length (ns_Infos ns)"
  obtains ns' where "UpdateViewInfo (int j) msg ns = Some ns'" and "set_ok ns'" and "set_frame ns ns'"
    and "set_roster ns' = (set_roster ns)[j := map_prod (vi_Msg_update (\<lambda>_. Some msg)) id (set_roster ns ! j)]"
proof -
  let ?ns = "ns\<lparr>ns_Infos := (ns_Infos ns)[j := (ns_Infos ns ! j)\<lparr>vi_Msg := Some msg\<rparr>]\<rparr>"
  have "UpdateViewInfo (int j) msg ns = Some ?ns" using assms(2) by (simp add: UpdateViewInfo_def)
  moreover have "set_roster ?ns = (set_roster ns)[j := map_prod (vi_Msg_update (\<lambda>_. Some msg)) id (set_roster ns ! j)]"
    using assms(2) by (auto simp: nth_list_update intro!: nth_equalityI)
  moreover have "set_ok ?ns" using assms(1) by (simp add: set_ok_def)
  ultimately show ?thesis using that by (simp add: set_frame_def)
qed

text \<open>A body that updates the entry at its index turns the loop over the matching validators into
  a map over the set's roster.\<close>

lemma at_kramaID_spec:
  assumes "set_ok ns" and g: "\<And>e. entry_KramaID (g e) = entry_KramaID e"
    and f: "\<And>j ns. set_ok ns \<Longrightarrow> j < length (ns_Infos ns) \<Longrightarrow>
      \<exists>ns'. f (int j) ns = Some ns' \<and> set_ok ns' \<and> set_frame ns ns' \<and> set_roster ns' = (set_roster ns)[j := g (set_roster ns ! j)]"
  shows "\<exists>ns'. at_kramaID ident f ns = Some ns' \<and> set_ok ns' \<and> set_frame ns ns'
    \<and> set_roster ns' = map (\<lambda>e. if entry_KramaID e = ident then g e else e) (set_roster ns)"
proof -
  let ?h = "\<lambda>e. if entry_KramaID e = ident then g e else e" and ?R = "set_roster ns"
  define P where "P = (\<lambda>j ns'. set_ok ns' \<and> set_frame ns ns' \<and> set_roster ns' = map ?h (take j ?R) @ drop j ?R)"
  have "\<exists>ns'. at_kramaID ident f ns = Some ns' \<and> P (0 + length (ns_Infos ns)) ns'"
    unfolding at_kramaID_def
  proof (rule foldM_enumerate)
    show "P 0 ns" using assms(1) by (simp add: P_def)
  next
    fix j ns' assume j: "0 \<le> j" "j < 0 + length (ns_Infos ns)" and "P j ns'"
    then have ok: "set_ok ns'" "set_frame ns ns'" and R: "set_roster ns' = map ?h (take j ?R) @ drop j ?R"
      by (simp_all add: P_def)
    have len: "j < length (ns_Infos ns')" using ok(2) j by (simp add: set_frame_def)
    have nth: "set_roster ns' ! j = ?R ! j" using j by (simp add: R nth_append)
    have step: "map ?h (take (Suc j) ?R) @ drop (Suc j) ?R = (map ?h (take j ?R) @ drop j ?R)[j := ?h (?R ! j)]"
      using j by (auto simp: take_Suc_conv_app_nth list_update_append drop_update_swap Cons_nth_drop_Suc [symmetric])
    show "\<exists>t. (case (j, ns_Infos ns ! (j - 0)) of (j, info) \<Rightarrow> \<lambda>ns. if vi_KramaID info = ident then f (int j) ns else Some ns) ns' = Some t \<and> P (Suc j) t"
    proof (cases "vi_KramaID (ns_Infos ns ! j) = ident")
      case True
      from f [OF ok(1) len] obtain t where t: "f (int j) ns' = Some t" "set_ok t" "set_frame ns' t"
          "set_roster t = (set_roster ns')[j := g (set_roster ns' ! j)]" by blast
      have "P (Suc j) t"
        unfolding P_def step using t ok True j nth set_frame_trans [OF ok(2) t(3)] by (simp add: R)
      with t(1) True show ?thesis by simp
    next
      case False
      then have "(map ?h (take j ?R) @ drop j ?R)[j := ?h (?R ! j)] = set_roster ns'"
        using j nth by (simp add: R [symmetric] del: nth_set_roster) (metis list_update_id nth nth_set_roster fst_conv)
      with False ok show ?thesis unfolding P_def step by simp
    qed
  qed
  then show ?thesis by (simp add: P_def)
qed

lemma update_sets_spec:
  assumes "committee_inv c"
    and f: "\<And>ns. set_ok ns \<Longrightarrow> \<exists>ns'. f ns = Some ns' \<and> set_ok ns' \<and> set_frame ns ns' \<and> set_roster ns' = map g (set_roster ns)"
  obtains c' where "update_sets f c = Some c'" and "committee_inv c'" and "roster c' = map g (roster c)"
    and "list_all2 (\<lambda>s s'. \<exists>ns ns'. s = Some ns \<and> s' = Some ns' \<and> set_frame ns ns' \<and> set_roster ns' = map g (set_roster ns)) (Sets c) (Sets c')"
proof -
  let ?Q = "\<lambda>s s'. \<exists>ns ns'. s = Some ns \<and> s' = Some ns' \<and> set_ok ns' \<and> set_frame ns ns' \<and> set_roster ns' = map g (set_roster ns)"
  have "\<exists>sets. those (map (\<lambda>s. case s of None \<Rightarrow> Some None | Some ns \<Rightarrow> map_option Some (f ns)) (Sets c)) = Some sets
      \<and> list_all2 ?Q (Sets c) sets"
  proof (rule those_map_total)
    fix s assume "s \<in> set (Sets c)"
    then obtain ns where "s = Some ns" "set_ok ns" using assms(1) by (auto simp: committee_inv_def)
    with f [of ns] show "\<exists>y. (case s of None \<Rightarrow> Some None | Some ns \<Rightarrow> map_option Some (f ns)) = Some y \<and> ?Q s y" by auto
  qed
  then obtain sets where sets: "update_sets f c = Some (c\<lparr>Sets := sets\<rparr>)" "list_all2 ?Q (Sets c) sets"
    by (auto simp: update_sets_def)
  from sets(2) have R: "roster_of sets = map g (roster_of (Sets c))"
    by (induction rule: list_all2_induct) auto
  moreover have ok: "\<forall>s \<in> set sets. \<exists>ns. s = Some ns \<and> set_ok ns"
    using sets(2) by (induction rule: list_all2_induct) auto
  ultimately have "committee_inv (c\<lparr>Sets := sets\<rparr>)"
    using assms(1) list_all2_lengthD [OF sets(2)] by (simp add: committee_inv_def roster_def)
  moreover have "list_all2 (\<lambda>s s'. \<exists>ns ns'. s = Some ns \<and> s' = Some ns' \<and> set_frame ns ns' \<and> set_roster ns' = map g (set_roster ns)) (Sets c) sets"
    using sets(2) by (rule list_all2_mono) blast
  ultimately show ?thesis using that sets(1) R by (simp add: roster_def)
qed

lemma UpdateResponse_spec:
  assumes "committee_inv c"
  obtains c' where "UpdateResponse ct ident c = Some c'" and "committee_inv c'"
    and "roster c' = map (\<lambda>e. if entry_KramaID e = ident then mark ct e else e) (roster c)"
proof -
  have body: "\<exists>ns'. at_kramaID ident (\<lambda>index. NodeSet_UpdateResponse ct index True) ns = Some ns' \<and> set_ok ns' \<and> set_frame ns ns'
      \<and> set_roster ns' = map (\<lambda>e. if entry_KramaID e = ident then mark ct e else e) (set_roster ns)"
    if "set_ok ns" for ns
    by (rule at_kramaID_spec [OF that]) (auto simp: mark_def elim: NodeSet_UpdateResponse_spec [where ct = ct])
  show ?thesis
    by (rule update_sets_spec [OF assms body]) (use that in \<open>auto simp: UpdateResponse_def\<close>)
qed

lemma UpdateNodePreparedMsg_spec:
  assumes "committee_inv c"
  obtains c' where "UpdateNodePreparedMsg ident msg c = Some c'" and "committee_inv c'"
    and "roster c' = map (\<lambda>e. if entry_KramaID e = ident
          then map_prod (vi_Msg_update (\<lambda>_. Some msg)) id (mark VoteCounter e) else e) (roster c)"
proof -
  let ?g = "\<lambda>e. map_prod (vi_Msg_update (\<lambda>_. Some msg)) id (mark VoteCounter e)"
  let ?f = "\<lambda>index ns. Option.bind (NodeSet_UpdateResponse VoteCounter index True ns) (UpdateViewInfo index msg)"
  have f: "\<exists>ns'. ?f (int j) ns = Some ns' \<and> set_ok ns' \<and> set_frame ns ns' \<and> set_roster ns' = (set_roster ns)[j := ?g (set_roster ns ! j)]"
    if ok: "set_ok ns" and j: "j < length (ns_Infos ns)" for j ns
  proof -
    obtain a where a: "NodeSet_UpdateResponse VoteCounter (int j) True ns = Some a" "set_ok a" "set_frame ns a"
        "ns_Infos a = ns_Infos ns" "set_roster a = (set_roster ns)[j := mark VoteCounter (set_roster ns ! j)]"
      by (rule NodeSet_UpdateResponse_spec [OF ok j])
    have j': "j < length (ns_Infos a)" using a(4) j by simp
    obtain b where b: "UpdateViewInfo (int j) msg a = Some b" "set_ok b" "set_frame a b"
        "set_roster b = (set_roster a)[j := map_prod (vi_Msg_update (\<lambda>_. Some msg)) id (set_roster a ! j)]"
      by (rule UpdateViewInfo_spec [OF a(2) j'])
    have "set_roster a ! j = mark VoteCounter (set_roster ns ! j)" using a(5) j by simp
    then have "set_roster b = (set_roster ns)[j := ?g (set_roster ns ! j)]" by (simp add: b(4) a(5))
    then show ?thesis using a(1,3) b set_frame_trans by auto
  qed
  have body: "\<exists>ns'. at_kramaID ident ?f ns = Some ns' \<and> set_ok ns' \<and> set_frame ns ns'
      \<and> set_roster ns' = map (\<lambda>e. if entry_KramaID e = ident then ?g e else e) (set_roster ns)"
    if "set_ok ns" for ns
    by (rule at_kramaID_spec [OF that _ f]) (auto simp: mark_def)
  show ?thesis
    by (rule update_sets_spec [OF assms body]) (use that in \<open>auto simp: UpdateNodePreparedMsg_def\<close>)
qed

section \<open>Building a committee\<close>

lemma committee_inv_New [inv_intros]: "committee_inv NewICSCommittee"
  by (simp add: committee_inv_def NewICSCommittee_def roster_def)

lemma committee_inv_tracked:
  "committee_inv c \<Longrightarrow> ConsensusNodesHash c h = Some d \<Longrightarrow> 0 \<le> nd_Position d \<and> nd_Position d < int (length (Sets c))"
  by (simp add: committee_inv_def)

lemma AppendNodeSet_roster: "roster (AppendNodeSet h (Some ns) c) = roster c @ set_roster ns"
  by (simp add: AppendNodeSet_def roster_def Let_def)

lemma committee_inv_AppendNodeSet [inv_intros]:
  assumes "committee_inv c" and "set_ok ns"
  shows "committee_inv (AppendNodeSet h (Some ns) c)"
proof -
  let ?c = "AppendNodeSet h (Some ns) c"
  have fields: "Sets ?c = Sets c @ [Some ns]" "ics_size ?c = ics_size c + 1"
      "totalNodes ?c = totalNodes c + int (length (ns_Infos ns))"
    by (simp_all add: AppendNodeSet_def Let_def)
  have "0 \<le> nd_Position d \<and> nd_Position d < int (length (Sets ?c))" if "ConsensusNodesHash ?c g = Some d" for g d
    using that committee_inv_tracked [OF assms(1), of g d]
    by (auto simp: AppendNodeSet_def Let_def split: if_splits)
  then show ?thesis
    using assms AppendNodeSet_roster [of h ns c] unfolding committee_inv_def fields by auto
qed

lemma set_at_ok:
  assumes "committee_inv c" and "0 \<le> pos" and "pos < int (length (Sets c))"
  obtains ns where "set_at c pos = Some ns" and "set_ok ns" and "Sets c ! nat pos = Some ns"
proof -
  have "Sets c ! nat pos \<in> set (Sets c)" using assms(2,3) by simp
  then obtain ns where "Sets c ! nat pos = Some ns" "set_ok ns" using assms(1) by (auto simp: committee_inv_def)
  with that show ?thesis using assms(2,3) by (simp add: set_at_def go_index_Some)
qed

lemma roster_of_update:
  assumes "k < length sets" and "sets ! k = Some ns"
  shows "roster_of (sets[k := Some ns']) = roster_of (take k sets) @ set_roster ns' @ roster_of (drop (Suc k) sets)"
    and "roster_of sets = roster_of (take k sets) @ set_roster ns @ roster_of (drop (Suc k) sets)"
proof -
  show "roster_of (sets[k := Some ns']) = roster_of (take k sets) @ set_roster ns' @ roster_of (drop (Suc k) sets)"
    using assms by (simp add: upd_conv_take_nth_drop)
  show "roster_of sets = roster_of (take k sets) @ set_roster ns @ roster_of (drop (Suc k) sets)"
    using assms id_take_nth_drop [of k sets] by (metis roster_of_simps(3,4))
qed

lemma modify_set_spec:
  assumes "committee_inv c" and "0 \<le> pos" and "pos < int (length (Sets c))"
    and f: "\<And>ns. set_ok ns \<Longrightarrow> set_ok (f ns) \<and> length (ns_Infos (f ns)) = length (ns_Infos ns)"
  obtains c' ns where "modify_set f pos c = Some c'" and "committee_inv c'" and "Sets c ! nat pos = Some ns"
    and "Sets c' = (Sets c)[nat pos := Some (f ns)]" and "ConsensusNodesHash c' = ConsensusNodesHash c"
proof -
  obtain ns where ns: "set_at c pos = Some ns" "set_ok ns" "Sets c ! nat pos = Some ns"
    using assms(1-3) by (rule set_at_ok)
  let ?c = "c\<lparr>Sets := (Sets c)[nat pos := Some (f ns)]\<rparr>"
  have "modify_set f pos c = Some ?c" using ns assms(2,3) by (simp add: modify_set_def go_update_def)
  moreover have "committee_inv ?c"
    using assms(1-3) f [OF ns(2)] roster_of_update(1) [of "nat pos" "Sets c" ns "f ns"]
      roster_of_update(2) [of "nat pos" "Sets c" ns] ns(3)
    by (auto simp: committee_inv_def roster_def dest!: set_update_subset_insert [THEN subsetD])
  ultimately show ?thesis using that ns by simp
qed

lemma set_ok_exclude [simp]: "set_ok (ns\<lparr>ns_ExcludedFromICS := b\<rparr>) = set_ok ns"
  by (simp add: set_ok_def)

lemma set_roster_exclude [simp]: "set_roster (ns\<lparr>ns_ExcludedFromICS := b\<rparr>) = set_roster ns"
  by (simp add: set_roster_def)

lemma roster_exclude:
  "k < length sets \<Longrightarrow> sets ! k = Some ns \<Longrightarrow> roster_of (sets[k := Some (ns\<lparr>ns_ExcludedFromICS := b\<rparr>)]) = roster_of sets"
  using roster_of_update [of k sets ns] by simp

lemma committee_inv_track [inv_intros]:
  assumes "committee_inv c" and "0 \<le> nd_Position d" and "nd_Position d < int (length (Sets c))"
  shows "committee_inv (c\<lparr>ConsensusNodesHash := (ConsensusNodesHash c)(h \<mapsto> d)\<rparr>)"
  using assms by (simp add: committee_inv_def roster_def)

lemma IncrementPSCount_spec:
  assumes "committee_inv c" and "ConsensusNodesHash c h = Some d"
  shows "\<exists>c'. IncrementPSCount h c = Some c' \<and> committee_inv c' \<and> Sets c' = Sets c \<and> ConsensusNodesHash c' h \<noteq> None"
  using assms committee_inv_tracked [OF assms] by (simp add: IncrementPSCount_def inv_intros)

lemma IncrementExcludedPSCount_spec:
  assumes "committee_inv c" and "ConsensusNodesHash c h = Some d"
  shows "\<exists>c'. IncrementExcludedPSCount h c = Some c' \<and> committee_inv c' \<and> roster c' = roster c"
proof -
  let ?d = "d\<lparr>nd_ExcludedPSCount := nd_ExcludedPSCount d + 1\<rparr>"
  let ?c = "c\<lparr>ConsensusNodesHash := (ConsensusNodesHash c)(h \<mapsto> ?d)\<rparr>"
  have pos: "0 \<le> nd_Position d" "nd_Position d < int (length (Sets c))"
    using committee_inv_tracked [OF assms] by simp_all
  have inv: "committee_inv ?c" using assms(1) pos by (auto intro: inv_intros)
  have pos': "0 \<le> nd_Position ?d" "nd_Position ?d < int (length (Sets ?c))" using pos by simp_all
  obtain c' ns where c': "modify_set (\<lambda>ns. ns\<lparr>ns_ExcludedFromICS := True\<rparr>) (nd_Position ?d) ?c = Some c'"
      "committee_inv c'" "Sets ?c ! nat (nd_Position ?d) = Some ns"
      "Sets c' = (Sets ?c)[nat (nd_Position ?d) := Some (ns\<lparr>ns_ExcludedFromICS := True\<rparr>)]"
    by (rule modify_set_spec [OF inv pos', where f = "\<lambda>ns. ns\<lparr>ns_ExcludedFromICS := True\<rparr>"]) auto
  have "roster c' = roster c"
    using c'(3,4) pos roster_exclude [of "nat (nd_Position d)" "Sets c" ns] by (simp add: roster_def)
  with c' inv show ?thesis by (auto simp: IncrementExcludedPSCount_def assms(2) Let_def roster_def)
qed

lemma UpdateNodeset_tracked:
  assumes "committee_inv c" and "ConsensusNodesHash c h = Some d"
  shows "\<exists>c'. UpdateNodeset h ns stateHash lockType c = Some c' \<and> committee_inv c' \<and> roster c' = roster c"
proof -
  let ?incl = "\<lambda>ns. ns\<lparr>ns_ExcludedFromICS := False\<rparr>"
  have pos: "0 \<le> nd_Position d" "nd_Position d < int (length (Sets c))"
    using committee_inv_tracked [OF assms] by simp_all
  obtain old where old: "set_at c (nd_Position d) = Some old" by (rule set_at_ok [OF assms(1) pos])
  obtain c1 o1 where c1: "modify_set ?incl (nd_Position d) c = Some c1" "committee_inv c1"
      "Sets c ! nat (nd_Position d) = Some o1" "Sets c1 = (Sets c)[nat (nd_Position d) := Some (?incl o1)]"
      "ConsensusNodesHash c1 = ConsensusNodesHash c"
    by (rule modify_set_spec [OF assms(1) pos, where f = ?incl]) auto
  have r1: "roster c1 = roster c"
    using c1(3,4) pos roster_exclude [of "nat (nd_Position d)" "Sets c" o1] by (simp add: roster_def)
  define c2 where "c2 = (if ns_ExcludedFromICS old \<and> lockType = MutateLock \<and> stateHash \<noteq> NilHash then c1 else c)"
  have c2: "committee_inv c2" "roster c2 = roster c" "ConsensusNodesHash c2 h = Some d"
    using assms c1(2,5) r1 by (simp_all add: c2_def)
  obtain c3 d3 where c3: "IncrementPSCount h c2 = Some c3" "committee_inv c3" "Sets c3 = Sets c2"
      "ConsensusNodesHash c3 h = Some d3"
    using IncrementPSCount_spec [OF c2(1,3)] by auto
  have "UpdateNodeset h ns stateHash lockType c
      = (if stateHash = NilHash then IncrementExcludedPSCount h c3 else Some c3)"
    using assms(2) old c1(1) c3(1) by (auto simp: UpdateNodeset_def GetNodesetPosition_def c2_def)
  with IncrementExcludedPSCount_spec [OF c3(2,4)] c3(2,3) c2(2) show ?thesis by (auto simp: roster_def)
qed

lemma UpdateNodeset_new:
  assumes "committee_inv c" and "ConsensusNodesHash c h = None" and "set_ok ns" and "\<not> Hash_IsNil h"
  shows "\<exists>c'. UpdateNodeset h ns stateHash lockType c = Some c' \<and> committee_inv c' \<and> roster c' = roster c @ set_roster ns"
proof -
  define ns1 where "ns1 = (if lockType = NoLock then ns\<lparr>ns_ExcludedFromICS := True\<rparr> else ns)"
  let ?c = "AppendNodeSet h (Some ns1) c"
  have "set_ok ns1" "set_roster ns1 = set_roster ns" using assms(3) by (simp_all add: ns1_def)
  then have inv: "committee_inv ?c" and r: "roster ?c = roster c @ set_roster ns"
    using assms(1) by (simp_all add: inv_intros AppendNodeSet_roster)
  obtain d where d: "ConsensusNodesHash ?c h = Some d" using assms(4) by (simp add: AppendNodeSet_def Let_def)
  have "UpdateNodeset h ns stateHash lockType c
      = (if stateHash = NilHash then IncrementExcludedPSCount h ?c else Some ?c)"
    using assms(2) by (simp add: UpdateNodeset_def GetNodesetPosition_def ns1_def)
  with IncrementExcludedPSCount_spec [OF inv d] inv r show ?thesis by auto
qed

section \<open>Looking validators up\<close>

lemma locate_spec:
  assumes "0 \<le> i" and "i < int (length (roster_of sets))"
  obtains k ns j where "locate v sets i = Some (v + k, ns, int j)" and "k < length sets" and "sets ! k = Some ns"
    and "j < length (ns_Infos ns)" and "nat i = length (roster_of (take k sets)) + j"
  using assms
proof (induction sets arbitrary: v i thesis rule: list.induct)
  case Nil
  then show ?case by simp
next
  case (Cons s sets)
  show ?case
  proof (cases s)
    case None
    obtain k ns j where "locate (Suc v) sets i = Some (Suc v + k, ns, int j)" "k < length sets" "sets ! k = Some ns"
        "j < length (ns_Infos ns)" "nat i = length (roster_of (take k sets)) + j"
      by (rule Cons.IH [of "Suc v" i]) (use Cons.prems None in auto)
    then show ?thesis using Cons.prems(1) [of "Suc k" ns j] None by simp
  next
    case (Some ns0)
    let ?l = "length (ns_Infos ns0)"
    show ?thesis
    proof (cases "i \<ge> int ?l")
      case True
      obtain k ns j where "locate (Suc v) sets (i - int ?l) = Some (Suc v + k, ns, int j)" "k < length sets" "sets ! k = Some ns"
          "j < length (ns_Infos ns)" "nat (i - int ?l) = length (roster_of (take k sets)) + j"
        by (rule Cons.IH [of "Suc v" "i - int ?l"]) (use Cons.prems Some True in auto)
      then show ?thesis using Cons.prems(1) [of "Suc k" ns j] Some True by simp
    next
      case False
      then show ?thesis using Cons.prems(1) [of 0 ns0 "nat i"] Cons.prems(2) Some by simp
    qed
  qed
qed

lemma locate_roster:
  assumes "0 \<le> i" and "i < int (length (roster c))"
  obtains k ns j where "locate 0 (Sets c) i = Some (k, ns, int j)" and "k < length (Sets c)" and "Sets c ! k = Some ns"
    and "j < length (ns_Infos ns)" and "nat i = length (roster_of (take k (Sets c))) + j"
    and "roster c ! nat i = set_roster ns ! j"
proof -
  obtain k ns j where l: "locate 0 (Sets c) i = Some (0 + k, ns, int j)" "k < length (Sets c)" "Sets c ! k = Some ns"
      "j < length (ns_Infos ns)" "nat i = length (roster_of (take k (Sets c))) + j"
    using assms unfolding roster_def by (rule locate_spec)
  have "roster c ! nat i = set_roster ns ! j"
    unfolding roster_def roster_of_update(2) [OF l(2,3)] using l(4,5) by (simp add: nth_append)
  with l that show ?thesis by simp
qed

lemma GetPublicKey_roster:
  assumes "committee_inv c" and "0 \<le> i" and "i < totalNodes c"
  shows "GetPublicKey c i = Some (entry_KramaID (roster c ! nat i), entry_PublicKey (roster c ! nat i))"
proof -
  have "i < int (length (roster c))" using assms by (simp add: committee_inv_def)
  with assms(2) obtain k ns j where l: "locate 0 (Sets c) i = Some (k, ns, int j)" "j < length (ns_Infos ns)"
      "roster c ! nat i = set_roster ns ! j"
    by (rule locate_roster)
  then show ?thesis using assms(2,3) by (simp add: GetPublicKey_def)
qed

lemma GetKramaID_roster:
  assumes "committee_inv c" and "0 \<le> i" and "i < totalNodes c"
  obtains k j ns where "GetKramaID c i = Some (Some (int k # later_slots c k (entry_KramaID (roster c ! nat i))), int j,
      entry_KramaID (roster c ! nat i), entry_PublicKey (roster c ! nat i))"
    and "k < length (Sets c)" and "Sets c ! k = Some ns" and "j < length (ns_Infos ns)"
    and "nat i = length (roster_of (take k (Sets c))) + j"
proof -
  have "i < int (length (roster c))" using assms by (simp add: committee_inv_def)
  with assms(2) obtain k ns j where l: "locate 0 (Sets c) i = Some (k, ns, int j)" "k < length (Sets c)"
      "Sets c ! k = Some ns" "j < length (ns_Infos ns)" "nat i = length (roster_of (take k (Sets c))) + j"
      "roster c ! nat i = set_roster ns ! j"
    by (rule locate_roster)
  have "0 < ics_size c" using l(2) assms(1) by (cases "Sets c") (auto simp: committee_inv_def)
  with l that [of k j ns] show ?thesis using assms(2,3) by (simp add: GetKramaID_def)
qed

lemma HasKramaID_sets_spec:
  assumes "\<forall>s \<in> set sets. \<exists>ns. s = Some ns \<and> set_ok ns" and "0 \<le> offset"
    and "offset + int (length (roster_of sets)) < 2 ^ 31"
  shows "HasKramaID_sets offset sets peerID =
    (let R = roster_of sets; j = first_index (\<lambda>e. entry_KramaID e = peerID) R
     in if j < length R then Some (offset + int j, entry_PublicKey (R ! j), snd (R ! j) VoteCounter)
        else Some (-1, [], False))"
  using assms
proof (induction sets arbitrary: offset)
  case Nil
  then show ?case by (simp add: first_index_def)
next
  case (Cons s sets)
  then obtain ns where s: "s = Some ns" "set_ok ns" by auto
  let ?P = "\<lambda>e :: entry. entry_KramaID e = peerID" and ?l = "length (ns_Infos ns)"
  let ?j = "first_index (\<lambda>info. vi_KramaID info = peerID) (ns_Infos ns)"
  have fi: "first_index ?P (set_roster ns) = ?j"
    using first_index_map [of "\<lambda>info. vi_KramaID info = peerID" fst "set_roster ns"] by (simp add: o_def)
  have IH: "HasKramaID_sets (offset + int ?l) sets peerID =
    (let R = roster_of sets; j = first_index ?P R
     in if j < length R then Some (offset + int ?l + int j, entry_PublicKey (R ! j), snd (R ! j) VoteCounter)
        else Some (-1, [], False))"
    using Cons.prems s(1) by (intro Cons.IH) auto
  show ?case
  proof (cases "?j < ?l")
    case True
    have "int32 (offset + int ?j) = offset + int ?j" using Cons.prems(2,3) s(1) True by simp
    with True s fi set_okD(2) [OF s(2), of VoteCounter] show ?thesis
      by (simp add: find_enumerate first_index_append nth_append GetIndex_obit Let_def)
  next
    case False
    then have "find (\<lambda>(j, info). vi_KramaID info = peerID) (enumerate 0 (ns_Infos ns)) = None"
      by (simp add: find_enumerate)
    with False s(1) IH fi show ?thesis by (simp add: first_index_append nth_append Let_def)
  qed
qed

lemma HasKramaID_roster:
  assumes "committee_inv c" and "totalNodes c < 2 ^ 31"
  shows "HasKramaID c peerID =
    (let R = roster c; j = first_index (\<lambda>e. entry_KramaID e = peerID) R
     in if j < length R then Some (int j, entry_PublicKey (R ! j), snd (R ! j) VoteCounter)
        else Some (-1, [], False))"
  unfolding HasKramaID_def roster_def
  using HasKramaID_sets_spec [of "Sets c" 0 peerID] assms by (simp add: committee_inv_def roster_def Let_def)

section \<open>Recording responses by index\<close>

lemma mark_at_index:
  assumes "committee_inv c" and "0 \<le> i" and "i < totalNodes c"
  obtains k ns j ns' where "locate 0 (Sets c) i = Some (k, ns, int j)" and "j < length (ns_Infos ns)"
    and "entry_PublicKey (roster c ! nat i) = vi_PublicKey (ns_Infos ns ! j)"
    and "NodeSet_UpdateResponse ct (int j) True ns = Some ns'"
    and "committee_inv (c\<lparr>Sets := (Sets c)[k := Some ns']\<rparr>)"
    and "roster (c\<lparr>Sets := (Sets c)[k := Some ns']\<rparr>) = (roster c)[nat i := mark ct (roster c ! nat i)]"
proof -
  have "i < int (length (roster c))" using assms by (simp add: committee_inv_def)
  with assms(2) obtain k ns j where l: "locate 0 (Sets c) i = Some (k, ns, int j)" "k < length (Sets c)"
      "Sets c ! k = Some ns" "j < length (ns_Infos ns)" "nat i = length (roster_of (take k (Sets c))) + j"
      "roster c ! nat i = set_roster ns ! j"
    by (rule locate_roster)
  have "Sets c ! k \<in> set (Sets c)" using l(2) by simp
  then have ok: "set_ok ns" using assms(1) l(3) by (auto simp: committee_inv_def)
  obtain ns' where ns': "NodeSet_UpdateResponse ct (int j) True ns = Some ns'" "set_ok ns'"
      "set_roster ns' = (set_roster ns)[j := mark ct (set_roster ns ! j)]"
    by (rule NodeSet_UpdateResponse_spec [OF ok l(4), of ct])
  let ?c = "c\<lparr>Sets := (Sets c)[k := Some ns']\<rparr>"
  have R: "roster ?c = (roster c)[nat i := mark ct (roster c ! nat i)]"
    unfolding l(6) using roster_of_update(1) [OF l(2,3), of ns'] roster_of_update(2) [OF l(2,3)] l(4)
    by (simp add: roster_def l(5) ns'(3) list_update_append)
  moreover have "committee_inv ?c"
    using assms(1) R ns'(2) l(2)
    by (auto simp: committee_inv_def dest!: set_update_subset_insert [THEN subsetD])
  ultimately show ?thesis using that [OF l(1,4)] l ns'(1) by simp
qed

lemma UpdateValidatorResponse_ok:
  assumes "committee_inv c" and "\<forall>i \<in> set indices. 0 \<le> i \<and> i < totalNodes c"
  shows "\<exists>c'. UpdateValidatorResponse ct indices c keys
      = Some (c', Inr (keys @ map (\<lambda>i. entry_PublicKey (roster c ! nat i)) indices))
    \<and> committee_inv c' \<and> length (roster c') = length (roster c)
    \<and> (\<forall>n < length (roster c). roster c' ! n = (if int n \<in> set indices then mark ct (roster c ! n) else roster c ! n))"
  using assms
proof (induction indices arbitrary: c keys)
  case Nil
  then show ?case by simp
next
  case (Cons i indices)
  have i: "0 \<le> i" "i < totalNodes c" using Cons.prems(2) by auto
  obtain k ns j ns' where l: "locate 0 (Sets c) i = Some (k, ns, int j)" "j < length (ns_Infos ns)"
      "entry_PublicKey (roster c ! nat i) = vi_PublicKey (ns_Infos ns ! j)"
      "NodeSet_UpdateResponse ct (int j) True ns = Some ns'" "committee_inv (c\<lparr>Sets := (Sets c)[k := Some ns']\<rparr>)"
      "roster (c\<lparr>Sets := (Sets c)[k := Some ns']\<rparr>) = (roster c)[nat i := mark ct (roster c ! nat i)]"
    by (rule mark_at_index [OF Cons.prems(1) i])
  let ?c = "c\<lparr>Sets := (Sets c)[k := Some ns']\<rparr>"
  have key: "entry_PublicKey (roster ?c ! nat m) = entry_PublicKey (roster c ! nat m)" for m
    by (cases "nat m = nat i"; cases "nat i < length (roster c)") (simp_all add: l(6) mark_def list_update_beyond)
  have range: "\<forall>i \<in> set indices. 0 \<le> i \<and> i < totalNodes ?c" using Cons.prems(2) by simp
  obtain c' where c': "UpdateValidatorResponse ct indices ?c (keys @ [vi_PublicKey (ns_Infos ns ! j)])
        = Some (c', Inr ((keys @ [vi_PublicKey (ns_Infos ns ! j)]) @ map (\<lambda>i. entry_PublicKey (roster ?c ! nat i)) indices))"
      "committee_inv c'" "length (roster c') = length (roster ?c)"
      "\<forall>n < length (roster ?c). roster c' ! n = (if int n \<in> set indices then mark ct (roster ?c ! n) else roster ?c ! n)"
    using Cons.IH [OF l(5) range, of "keys @ [vi_PublicKey (ns_Infos ns ! j)]"] by blast
  have "roster c' ! n = (if int n \<in> set (i # indices) then mark ct (roster c ! n) else roster c ! n)"
    if "n < length (roster c)" for n
    using c'(4) that i(1) by (cases "int n = i") (auto simp: l(6) mark_def nth_list_update)
  with c' i l(1-4) show ?case by (simp add: key [unfolded l(6)] l(6))
qed

lemma UpdateValidatorResponse_error:
  assumes "committee_inv c" and "\<exists>i \<in> set indices. i < 0 \<or> totalNodes c \<le> i"
  shows "\<exists>c'. UpdateValidatorResponse ct indices c keys = Some (c', Inl ''invalid validator index'') \<and> committee_inv c'"
  using assms
proof (induction indices arbitrary: c keys)
  case Nil
  then show ?case by simp
next
  case (Cons i indices)
  show ?case
  proof (cases "i < 0 \<or> totalNodes c \<le> i")
    case True
    then show ?thesis using Cons.prems(1) by auto
  next
    case False
    then have i: "0 \<le> i" "i < totalNodes c" by auto
    obtain k ns j ns' where l: "locate 0 (Sets c) i = Some (k, ns, int j)" "j < length (ns_Infos ns)"
        "NodeSet_UpdateResponse ct (int j) True ns = Some ns'" "committee_inv (c\<lparr>Sets := (Sets c)[k := Some ns']\<rparr>)"
      by (rule mark_at_index [OF Cons.prems(1) i])
    then show ?thesis using Cons.IH [OF l(4)] Cons.prems(2) False by auto
  qed
qed

section \<open>The combined vote set\<close>

lemma voteset_set_spec:
  assumes "set_ok ns" and "wf_obits N ob" and "m + length (ns_Infos ns) \<le> N"
  shows "\<exists>ob'. voteset_set ct (int m) ns ob = Some ob' \<and> wf_obits N ob'
    \<and> obits N ob' = take m (obits N ob) @ map (\<lambda>e. snd e ct) (set_roster ns) @ drop (m + length (ns_Infos ns)) (obits N ob)"
proof -
  let ?L = "obits N ob" and ?R = "set_roster ns" and ?f = "\<lambda>e :: entry. snd e ct"
  let ?P = "\<lambda>j ob'. wf_obits N ob' \<and> obits N ob' = take m ?L @ map ?f (take j ?R) @ drop (m + j) ?L"
  have "\<exists>ob'. voteset_set ct (int m) ns ob = Some ob' \<and> ?P (length (ns_Infos ns)) ob'"
    unfolding voteset_set_def
  proof (rule foldM_upt)
    show "?P 0 ob" using assms(2) by simp
  next
    fix j ob' assume j: "j < length (ns_Infos ns)" and P: "?P j ob'"
    have mj: "m + j < N" using j assms(3) by simp
    obtain ob'' where o: "SetIndex ob' (int (m + j)) (obit (resp_Bits (ns_Responses ns ct)) j) = Some (True, ob'')"
        "wf_obits N ob''" "obits N ob'' = (obits N ob')[m + j := obit (resp_Bits (ns_Responses ns ct)) j]"
      using conjunct1 [OF P] mj by (rule SetIndex_obits)
    have "drop (m + j) ?L = ?L ! (m + j) # drop (m + Suc j) ?L" 
      using mj by (simp add: Cons_nth_drop_Suc del: nth_obits)
    then have "obits N ob'' = take m ?L @ map ?f (take (Suc j) ?R) @ drop (m + Suc j) ?L"
      using j mj assms(3) by (simp add: o(3) P list_update_append take_Suc_conv_app_nth)
    with o show "\<exists>s'. (do {
        b \<leftarrow> GetIndex (resp_Bits (ns_Responses ns ct)) (int j);
        map_option snd (SetIndex ob' (int m + int j) b)
      }) = Some s' \<and> ?P (Suc j) s'"
      by (simp add: GetIndex_obit [OF set_okD(2) [OF assms(1)]])
  qed
  then show ?thesis by simp
qed

lemma voteset_sets_spec:
  assumes "\<forall>s \<in> set sets. \<exists>ns. s = Some ns \<and> set_ok ns" and "wf_obits N ob" and "m + length (roster_of sets) = N"
  shows "\<exists>ob'. voteset_sets ct (int m) sets ob = Some ob' \<and> wf_obits N ob'
    \<and> obits N ob' = take m (obits N ob) @ map (\<lambda>e. snd e ct) (roster_of sets)"
  using assms
proof (induction sets arbitrary: m ob)
  case Nil
  then show ?case by simp
next
  case (Cons s sets)
  then obtain ns where s: "s = Some ns" "set_ok ns" by auto
  let ?l = "length (ns_Infos ns)"
  obtain o1 where o1: "voteset_set ct (int m) ns ob = Some o1" "wf_obits N o1"
      "obits N o1 = take m (obits N ob) @ map (\<lambda>e. snd e ct) (set_roster ns) @ drop (m + ?l) (obits N ob)"
    using voteset_set_spec [OF s(2) Cons.prems(2), of m ct] Cons.prems(3) s(1) by auto
  have "\<exists>ob'. voteset_sets ct (int (m + ?l)) sets o1 = Some ob' \<and> wf_obits N ob'
      \<and> obits N ob' = take (m + ?l) (obits N o1) @ map (\<lambda>e. snd e ct) (roster_of sets)"
    using Cons.prems(1,3) s(1) o1(2) by (intro Cons.IH) auto
  moreover have "take (m + ?l) (obits N o1) = take m (obits N ob) @ map (\<lambda>e. snd e ct) (set_roster ns)"
    using Cons.prems(3) s(1) by (simp add: o1(3))
  ultimately show ?case using o1(1) s(1) by simp
qed

lemma GetVoteset_roster:
  assumes "committee_inv c"
  obtains ob where "GetVoteset c ct = Some ob" and "wf_obits (length (roster c)) ob"
    and "obits (length (roster c)) ob = map (\<lambda>e. snd e ct) (roster c)"
proof -
  note new = NewArrayOfBits_obits [of "length (roster c)"]
  have "\<exists>ob'. voteset_sets ct (int 0) (Sets c) (NewArrayOfBits (int (length (roster c)))) = Some ob'
      \<and> wf_obits (length (roster c)) ob' \<and> obits (length (roster c)) ob' = take 0 (obits (length (roster c)) (NewArrayOfBits (int (length (roster c)))))
        @ map (\<lambda>e. snd e ct) (roster_of (Sets c))"
    using assms new by (intro voteset_sets_spec) (auto simp: committee_inv_def roster_def)
  then show ?thesis using that assms by (auto simp: GetVoteset_def committee_inv_def roster_def)
qed

section \<open>Distinct nodes\<close>

definition ics_members :: "ICSCommittee \<Rightarrow> KramaID set" where
  "ics_members c = {k. \<exists>ns. Some ns \<in> set (Sets c) \<and> \<not> ns_ExcludedFromICS ns \<and> k \<in> vi_KramaID ` set (ns_Infos ns)}"

lemma collect_distinct_fold:
  "distinct acc \<Longrightarrow> distinct (fold (\<lambda>info. collect_distinct (vi_KramaID info)) infos acc)
    \<and> set (fold (\<lambda>info. collect_distinct (vi_KramaID info)) infos acc) = set acc \<union> vi_KramaID ` set infos"
  by (induction infos arbitrary: acc) (auto simp: collect_distinct_def)

lemma GetNodes_members: "distinct (GetNodes c) \<and> set (GetNodes c) = ics_members c"
proof -
  let ?f = "\<lambda>s distinctNodes. case s of None \<Rightarrow> distinctNodes
     | Some ns \<Rightarrow> if ns_ExcludedFromICS ns then distinctNodes
         else fold (\<lambda>info. collect_distinct (vi_KramaID info)) (ns_Infos ns) distinctNodes"
  have "distinct acc \<Longrightarrow> distinct (fold ?f sets acc) \<and> set (fold ?f sets acc) = set acc
      \<union> {k. \<exists>ns. Some ns \<in> set sets \<and> \<not> ns_ExcludedFromICS ns \<and> k \<in> vi_KramaID ` set (ns_Infos ns)}" for sets acc
  proof (induction sets arbitrary: acc)
    case Nil
    then show ?case by simp
  next
    case (Cons s sets)
    have "distinct (?f s acc) \<and> set (?f s acc) = set acc
        \<union> {k. \<exists>ns. s = Some ns \<and> \<not> ns_ExcludedFromICS ns \<and> k \<in> vi_KramaID ` set (ns_Infos ns)}"
      using collect_distinct_fold [OF Cons.prems] Cons.prems by (auto split: option.splits)
    with Cons.IH [of "?f s acc"] show ?case by auto
  qed
  from this [of "[]" "Sets c"] show ?thesis by (simp add: GetNodes_def ics_members_def)
qed

lemma GetIndex_sets_member:
  "fst (GetIndex_sets i sets k) \<ge> 0 \<longleftrightarrow>
    (\<exists>ns. Some ns \<in> set sets \<and> \<not> ns_ExcludedFromICS ns \<and> k \<in> vi_KramaID ` set (ns_Infos ns))"
proof (induction sets arbitrary: i)
  case Nil
  then show ?case by simp
next
  case (Cons s sets)
  then show ?case
    by (cases s) (auto simp: find_enumerate first_index_less_iff)
qed

section \<open>Quorums\<close>

text \<open>
  A threshold above two thirds: any two groups that reach it share more than a third of the
  set, hence a validator outside any group of at most a third.
\<close>

locale quorum_threshold =
  fixes q :: "nat \<Rightarrow> nat"
  assumes two_thirds: "2 * n < 3 * q n"
    and attainable: "0 < n \<Longrightarrow> q n \<le> n"
begin

lemma quorums_intersect:
  assumes "finite V" and "A \<subseteq> V" and "B \<subseteq> V" and "q (card V) \<le> card A" and "q (card V) \<le> card B"
  shows "card V < 3 * card (A \<inter> B)"
proof -
  have fin: "finite A" "finite B" using assms(1-3) finite_subset by auto
  have "card A + card B = card (A \<union> B) + card (A \<inter> B)" using fin by (rule card_Un_Int)
  moreover have "card (A \<union> B) \<le> card V" using assms(1-3) by (intro card_mono) auto
  ultimately show ?thesis using assms(4,5) two_thirds [of "card V"] by linarith
qed

lemma common_honest:
  assumes "finite V" and "A \<subseteq> V" and "B \<subseteq> V" and "q (card V) \<le> card A" and "q (card V) \<le> card B"
    and "finite F" and "3 * card F \<le> card V"
  obtains x where "x \<in> A" and "x \<in> B" and "x \<notin> F"
proof -
  have "\<not> A \<inter> B \<subseteq> F"
    using card_mono [OF assms(6), of "A \<inter> B"] quorums_intersect [OF assms(1-5)] assms(7) by linarith
  with that show ?thesis by blast
qed

end

interpretation tq: quorum_threshold "\<lambda>n. n * 2 div 3 + 1"
  by unfold_locales presburger+

lemma unat_two_thirds:
  fixes w :: u32
  assumes "unat w < 2 ^ 31"
  shows "unat (w * 2 div 3 + 1) = unat w * 2 div 3 + 1"
proof -
  have w2: "unat (w * 2) = unat w * 2" using assms by (simp add: unat_word_ariths)
  have "unat (w * 2 div 3) = unat w * 2 div 3" by (simp add: unat_div w2)
  moreover have "unat w * 2 div 3 + 1 < 2 ^ 32" using assms by simp
  ultimately show ?thesis by (simp add: unat_word_ariths)
qed

lemma ParticipantQuorum_eq:
  assumes "k < length (Sets c)" and "Sets c ! k = Some ns" and "unat (ns_SetSizeWithOutDelta ns) < 2 ^ 31"
    and "ns_SetSizeWithOutDelta ns \<noteq> 0"
  shows "\<exists>w. ParticipantQuorum c (int k) = Some w \<and> unat w = unat (ns_SetSizeWithOutDelta ns) * 2 div 3 + 1"
  using assms unat_two_thirds [OF assms(3)] by (simp add: ParticipantQuorum_def Let_def)

lemma sets_quorum_eq:
  assumes "\<forall>j \<in> set js. 0 \<le> j \<and> j < int (length (Sets c))"
  shows "sets_quorum c ct js = Some (\<forall>j \<in> set js. quorum_or_excluded ct (Sets c ! nat j))"
  using assms by (induction js) (auto simp: go_index_Some)

lemma IsContextQuorum_eq:
  assumes "committee_inv c"
  shows "IsContextQuorum c ct = Some (\<forall>k. Suc k < length (Sets c) \<longrightarrow> quorum_or_excluded ct (Sets c ! k))"
proof -
  have size: "ics_size c = int (length (Sets c))" using assms by (simp add: committee_inv_def)
  have "IsContextQuorum c ct = Some (\<forall>j \<in> set [0..ics_size c - 2]. quorum_or_excluded ct (Sets c ! nat j))"
    unfolding IsContextQuorum_def by (rule sets_quorum_eq) (auto simp: size)
  moreover have "(\<forall>j \<in> set [0..ics_size c - 2]. quorum_or_excluded ct (Sets c ! nat j))
      \<longleftrightarrow> (\<forall>k. Suc k < length (Sets c) \<longrightarrow> quorum_or_excluded ct (Sets c ! k))"
    (is "?l \<longleftrightarrow> ?r")
  proof
    assume l: ?l
    show ?r
    proof (intro allI impI)
      fix k assume "Suc k < length (Sets c)"
      then show "quorum_or_excluded ct (Sets c ! k)" using l [rule_format, of "int k"] by (simp add: size)
    qed
  next
    assume r: ?r
    then show ?l by (auto simp: size)
  qed
  ultimately show ?thesis by simp
qed

lemma set_quorum_eq:
  assumes "set_ok ns"
  shows "set_quorum ct ns \<longleftrightarrow> unat (ns_SetSizeWithOutDelta ns) = 0
    \<or> unat (ns_SetSizeWithOutDelta ns) * 2 div 3 + 1 \<le> length (filter (\<lambda>e. snd e ct) (set_roster ns))"
proof -
  define n where "n = unat (ns_SetSizeWithOutDelta ns)"
  have "uint (ns_SetSizeWithOutDelta ns) = int n" by (simp add: n_def)
  then show ?thesis
    using set_okD(3) [OF assms, of ct] unfolding set_quorum_def GetRespCount_def n_def [symmetric]
    by (auto simp: Let_def sdiv_pos zdiv_int)
qed

lemma UpdateSetResponses_inv:
  assumes "committee_inv c" and "k < length (Sets c)" and "Sets c ! k = Some ns" and "wf_bits b"
    and "Size b = int (length (ns_Infos ns))"
  shows "\<exists>c'. UpdateSetResponses ct (int k) (Some b) c = Some c' \<and> committee_inv c'"
proof -
  let ?n = "length (ns_Infos ns)"
  have cnt: "length (filter id (obits ?n (Some b))) = length (filter (bit_at b) [0..<?n])"
    by (simp add: obits_def obit_def filter_map o_def)
  have "Sets c ! k \<in> set (Sets c)" using assms(2) by simp
  then have ok: "set_ok ns" using assms(1,3) by (auto simp: committee_inv_def)
  then have len: "?n < 2 ^ 31" by (rule set_okD)
  have "length (filter (bit_at b) [0..<?n]) \<le> ?n" using length_filter_le [of "bit_at b" "[0..<?n]"] by simp
  then have i32: "int32 (int (length (filter (bit_at b) [0..<?n]))) = int (length (filter (bit_at b) [0..<?n]))"
    using len by simp
  have "TrueIndicesSize b = Some (int (length (filter (bit_at b) [0..<?n])))"
    using assms(4,5) by (simp add: TrueIndicesSize_def GetTrueIndices_eq)
  moreover define ns' where "ns' = ns\<lparr>ns_Responses := (ns_Responses ns)(ct :=
      \<lparr>resp_Bits = Some b, resp_Count = int32 (int (length (filter (bit_at b) [0..<?n])))\<rparr>)\<rparr>"
  ultimately have upd: "UpdateSetResponses ct (int k) (Some b) c = Some (c\<lparr>Sets := (Sets c)[k := Some ns']\<rparr>)"
    using assms(2,3) by (simp add: UpdateSetResponses_def modify_set_def set_at_def)
  have "wf_obits ?n (Some b)" using assms(4,5) by (simp add: wf_obits_def)
  then have "set_ok ns'" and "length (ns_Infos ns') = ?n"
    using ok cnt i32 by (auto simp: ns'_def set_ok_def resp_ok_def)
  then have "committee_inv (c\<lparr>Sets := (Sets c)[k := Some ns']\<rparr>)"
    using assms(1-3) roster_of_update(1) [OF assms(2,3), of ns'] roster_of_update(2) [OF assms(2,3)]
    by (auto simp: committee_inv_def roster_def dest!: set_update_subset_insert [THEN subsetD])
  with upd show ?thesis by simp
qed

section \<open>Committees the engine builds\<close>

text \<open>The committee is filled with node sets and then collects responses; a response bit array
  that is installed as a whole has the size of its set.\<close>

inductive committee_step :: "ICSCommittee \<Rightarrow> ICSCommittee \<Rightarrow> bool" where
  append: "length vals < 2 ^ 31 \<Longrightarrow> committee_step c (AppendNodeSet h (Some (NewNodeSet vals required)) c)"
| nodeset: "length vals < 2 ^ 31 \<Longrightarrow> \<not> Hash_IsNil h \<Longrightarrow>
    UpdateNodeset h (NewNodeSet vals required) stateHash lockType c = Some c' \<Longrightarrow> committee_step c c'"
| response: "UpdateResponse ct ident c = Some c' \<Longrightarrow> committee_step c c'"
| prepared: "UpdateNodePreparedMsg ident msg c = Some c' \<Longrightarrow> committee_step c c'"
| validators: "UpdateValidatorResponse ct indices c [] = Some (c', r) \<Longrightarrow> committee_step c c'"
| bits: "k < length (Sets c) \<Longrightarrow> Sets c ! k = Some ns \<Longrightarrow> wf_bits b \<Longrightarrow> Size b = int (length (ns_Infos ns)) \<Longrightarrow>
    UpdateSetResponses ct (int k) (Some b) c = Some c' \<Longrightarrow> committee_step c c'"

inductive committee_reachable :: "ICSCommittee \<Rightarrow> bool" where
  start: "committee_reachable NewICSCommittee"
| step: "committee_reachable c \<Longrightarrow> committee_step c c' \<Longrightarrow> committee_reachable c'"

lemma committee_inv_step: "committee_step c c' \<Longrightarrow> committee_inv c \<Longrightarrow> committee_inv c'"
proof (induction rule: committee_step.induct)
  case (append vals c h required)
  then show ?case using set_ok_NewNodeSet [of vals required] by (simp add: inv_intros)
next
  case (nodeset vals h required stateHash lockType c c')
  have ok: "set_ok (NewNodeSet vals required)" using nodeset.hyps(1) set_ok_NewNodeSet by blast
  show ?case
  proof (cases "ConsensusNodesHash c h")
    case None
    then show ?thesis using UpdateNodeset_new [OF nodeset.prems None ok nodeset.hyps(2), of stateHash lockType] nodeset.hyps(3) by auto
  next
    case (Some d)
    then show ?thesis using UpdateNodeset_tracked [OF nodeset.prems Some, of "NewNodeSet vals required" stateHash lockType]
        nodeset.hyps(3) by auto
  qed
next
  case (response ct ident c c')
  then show ?case using UpdateResponse_spec [OF response(2), of ct ident] by auto
next
  case (prepared ident msg c c')
  then show ?case using UpdateNodePreparedMsg_spec [OF prepared(2), of ident msg] by auto
next
  case (validators ct indices c c' r)
  show ?case
  proof (cases "\<forall>i \<in> set indices. 0 \<le> i \<and> i < totalNodes c")
    case True
    then show ?thesis using UpdateValidatorResponse_ok [OF validators.prems True, of ct "[]"] validators.hyps by auto
  next
    case False
    then have "\<exists>i \<in> set indices. i < 0 \<or> totalNodes c \<le> i" by (auto simp: not_le not_less)
    then show ?thesis using UpdateValidatorResponse_error [OF validators.prems, of indices ct "[]"] validators.hyps by auto
  qed
next
  case (bits k c ns b ct c')
  then show ?case using UpdateSetResponses_inv [of c k ns b ct] by auto
qed

lemma committee_reachable_inv: "committee_reachable c \<Longrightarrow> committee_inv c"
proof (induction rule: committee_reachable.induct)
  case start
  show ?case by (rule committee_inv_New)
next
  case (step c c')
  show ?case by (rule committee_inv_step [OF step(2,3)])
qed

text \<open>A committee of one node set of two validators and a random set that holds the second of
  them again.\<close>

definition example_validator :: "string \<Rightarrow> ValidatorInfo" where
  "example_validator k = \<lparr>vi_ID = 0, vi_KramaID = k, vi_PublicKey = [1], vi_VotingPower = 0, vi_Msg = None\<rparr>"

definition example_committee :: ICSCommittee where
  "example_committee =
     AppendNodeSet NilHash (Some (NewNodeSet [example_validator ''b''] 1))
       (AppendNodeSet [1] (Some (NewNodeSet [example_validator ''a'', example_validator ''b''] 2)) NewICSCommittee)"

lemma example_reachable: "committee_reachable example_committee"
proof -
  have "committee_reachable (AppendNodeSet [1]
      (Some (NewNodeSet [example_validator ''a'', example_validator ''b''] 2)) NewICSCommittee)"
    by (rule committee_reachable.step [OF committee_reachable.start committee_step.append]) simp
  then show ?thesis
    unfolding example_committee_def by (rule committee_reachable.step [OF _ committee_step.append]) simp
qed

lemma example_roster:
  "roster example_committee = map (\<lambda>k. (example_validator k, \<lambda>_. False)) [''a'', ''b'', ''b'']"
  using set_ok_NewNodeSet [of "[example_validator ''a'', example_validator ''b'']" 2]
    set_ok_NewNodeSet [of "[example_validator ''b'']" 1]
  by (simp add: example_committee_def AppendNodeSet_roster) (simp add: roster_def NewICSCommittee_def)

lemma example_sets:
  "Sets example_committee = [Some (NewNodeSet [example_validator ''a'', example_validator ''b''] 2),
     Some (NewNodeSet [example_validator ''b''] 1)]"
  by (simp add: example_committee_def AppendNodeSet_def NewICSCommittee_def Let_def)

lemma example_total: "totalNodes example_committee = 3"
  by (simp add: example_committee_def AppendNodeSet_def NewICSCommittee_def NewNodeSet_def Let_def Hash_IsNil_def NilHash_def)

section \<open>Properties\<close>

text \<open>C10: In every committee the engine can build, the number of sets and the total number of nodes
  are what the size fields say, no set is nil, and both response counters of every set equal the
  number of response bits set, however the responses arrived.\<close>

theorem committee_counters_agree:
  assumes "committee_reachable c" and "k < length (Sets c)"
  shows "ics_Size c = int (length (Sets c)) \<and> TotalNodes c = int (length (roster c))
    \<and> (\<exists>ns. Sets c ! k = Some ns \<and> (\<forall>ct. GetRespCount ns ct
        = int (card {j. j < length (ns_Infos ns) \<and> GetIndex (resp_Bits (ns_Responses ns ct)) (int j) = Some True})))"
proof -
  have inv: "committee_inv c" using assms(1) by (rule committee_reachable_inv)
  have "Sets c ! k \<in> set (Sets c)" using assms(2) by simp
  then obtain ns where ns: "Sets c ! k = Some ns" "set_ok ns" using inv by (auto simp: committee_inv_def)
  have "GetRespCount ns ct
      = int (card {j. j < length (ns_Infos ns) \<and> GetIndex (resp_Bits (ns_Responses ns ct)) (int j) = Some True})" for ct
  proof -
    have "length (filter (\<lambda>e. snd e ct) (set_roster ns))
        = card {j. j < length (ns_Infos ns) \<and> obit (resp_Bits (ns_Responses ns ct)) j}"
      by (simp add: length_filter_conv_card) (rule arg_cong [where f = card], auto)
    then show ?thesis
      using set_okD(3) [OF ns(2), of ct] GetIndex_obit [OF set_okD(2) [OF ns(2)], of ct]
      by (simp add: GetRespCount_def)
  qed
  with ns(1) inv show ?thesis by (auto simp: committee_inv_def ics_Size_def TotalNodes_def)
qed

theorem committee_counters_agree_witness:
  "TotalNodes example_committee = int (length (roster example_committee))"
  using committee_counters_agree [OF example_reachable, of 0]
  by (simp add: example_committee_def AppendNodeSet_def Let_def)

text \<open>C19: Looking a krama ID up and looking the found index up are inverse: the index is the first
  position of the validator in the committee, its public key is the one the index gives, and -1 is
  returned exactly for nodes that are in no set.\<close>

theorem HasKramaID_GetPublicKey:
  assumes "committee_reachable c" and "TotalNodes c < 2 ^ 31"
  shows "\<exists>i key voted. HasKramaID c peerID = Some (i, key, voted)
    \<and> (if peerID \<in> entry_KramaID ` set (roster c)
       then 0 \<le> i \<and> i < TotalNodes c \<and> GetPublicKey c i = Some (peerID, key)
         \<and> (\<forall>j. 0 \<le> j \<and> j < i \<longrightarrow> (\<exists>k key'. GetPublicKey c j = Some (k, key') \<and> k \<noteq> peerID))
       else i = -1)"
proof -
  have inv: "committee_inv c" using assms(1) by (rule committee_reachable_inv)
  define P where "P = (\<lambda>e :: entry. entry_KramaID e = peerID)"
  let ?j = "first_index P (roster c)"
  have tot: "TotalNodes c = int (length (roster c))" using inv by (simp add: committee_inv_def TotalNodes_def)
  have has: "HasKramaID c peerID = (if ?j < length (roster c)
      then Some (int ?j, entry_PublicKey (roster c ! ?j), snd (roster c ! ?j) VoteCounter) else Some (-1, [], False))"
    using HasKramaID_roster [OF inv] assms(2) by (simp add: TotalNodes_def P_def Let_def)
  have mem: "peerID \<in> entry_KramaID ` set (roster c) \<longleftrightarrow> ?j < length (roster c)"
    unfolding first_index_less_iff by (auto simp: P_def)
  have key: "GetPublicKey c j = Some (entry_KramaID (roster c ! nat j), entry_PublicKey (roster c ! nat j))"
    if "0 \<le> j" "j < TotalNodes c" for j
    using GetPublicKey_roster [OF inv] that by (simp add: TotalNodes_def)
  show ?thesis
  proof (cases "?j < length (roster c)")
    case True
    have "entry_KramaID (roster c ! ?j) = peerID" using first_index_nth [OF True] by (simp add: P_def)
    moreover have "entry_KramaID (roster c ! nat j) \<noteq> peerID" if "0 \<le> j" "j < int ?j" for j
      using first_index_before [of "nat j" P "roster c"] that by (simp add: P_def)
    ultimately show ?thesis using has True mem key by (simp add: tot)
  next
    case False
    then show ?thesis using has mem by auto
  qed
qed

theorem HasKramaID_GetPublicKey_witness:
  "\<exists>i key voted. HasKramaID example_committee ''b'' = Some (i, key, voted)
    \<and> 0 \<le> i \<and> GetPublicKey example_committee i = Some (''b'', key)"
proof -
  have "TotalNodes example_committee < 2 ^ 31" by (simp add: TotalNodes_def example_total)
  moreover have "''b'' \<in> entry_KramaID ` set (roster example_committee)"
    by (simp add: example_roster example_validator_def)
  ultimately show ?thesis
    using HasKramaID_GetPublicKey [OF example_reachable, of "''b''"] by auto
qed

text \<open>C18: Recording the response of a node never panics, and the combined vote set afterwards has a
  bit for every position the node holds in any set, on top of the bits it had before.\<close>

theorem UpdateResponse_GetVoteset:
  assumes "committee_reachable c"
  shows "\<exists>c' before after. UpdateResponse ct ident c = Some c'
    \<and> GetVoteset c ct = Some before \<and> GetVoteset c' ct = Some after
    \<and> (\<forall>j < length (roster c). GetIndex after (int j)
        = map_option (\<lambda>b. b \<or> entry_KramaID (roster c ! j) = ident) (GetIndex before (int j)))"
proof -
  have inv: "committee_inv c" using assms by (rule committee_reachable_inv)
  obtain c' where c': "UpdateResponse ct ident c = Some c'" "committee_inv c'"
      "roster c' = map (\<lambda>e. if entry_KramaID e = ident then mark ct e else e) (roster c)"
    by (rule UpdateResponse_spec [OF inv])
  obtain b where b: "GetVoteset c ct = Some b" "wf_obits (length (roster c)) b"
      "obits (length (roster c)) b = map (\<lambda>e. snd e ct) (roster c)"
    by (rule GetVoteset_roster [OF inv])
  obtain a where a: "GetVoteset c' ct = Some a" "wf_obits (length (roster c')) a"
      "obits (length (roster c')) a = map (\<lambda>e. snd e ct) (roster c')"
    by (rule GetVoteset_roster [OF c'(2)])
  have "obit a j \<longleftrightarrow> obit b j \<or> entry_KramaID (roster c ! j) = ident" if "j < length (roster c)" for j
    using arg_cong [OF a(3), of "\<lambda>l. l ! j"] arg_cong [OF b(3), of "\<lambda>l. l ! j"] that
    by (auto simp: c'(3) mark_def)
  then show ?thesis using c'(1) a b by (auto simp: GetIndex_obit)
qed

theorem UpdateResponse_GetVoteset_witness:
  "\<exists>c' after. UpdateResponse VoteCounter ''b'' example_committee = Some c'
    \<and> GetVoteset c' VoteCounter = Some after \<and> GetIndex after 2 = map_option (\<lambda>_. True) (GetIndex after 2)"
proof -
  obtain c' before after where r: "UpdateResponse VoteCounter ''b'' example_committee = Some c'"
      "GetVoteset c' VoteCounter = Some after"
      "\<forall>j < length (roster example_committee). GetIndex after (int j)
        = map_option (\<lambda>b. b \<or> entry_KramaID (roster example_committee ! j) = ''b'') (GetIndex before (int j))"
    using UpdateResponse_GetVoteset [OF example_reachable, of VoteCounter "''b''"] by blast
  from r(3) [rule_format, of 2] have "GetIndex after 2 = map_option (\<lambda>_. True) (GetIndex before 2)"
    by (simp add: example_roster example_validator_def)
  then have "GetIndex after 2 = map_option (\<lambda>_. True) (GetIndex after 2)"
    by (simp add: option.map_comp o_def)
  with r(1,2) show ?thesis by blast
qed

text \<open>C17: Recording the responses at a list of validator indices gives, when all of them are in range,
  the public keys at these indices in order and a committee in which exactly these validators are
  marked in addition; an index out of range anywhere in the list gives an error.\<close>

theorem UpdateValidatorResponse_correct:
  assumes "committee_reachable c"
  shows "\<exists>c' r. UpdateValidatorResponse ct indices c [] = Some (c', r) \<and> committee_inv c'
    \<and> (if \<forall>i \<in> set indices. 0 \<le> i \<and> i < TotalNodes c
       then r = Inr (map (\<lambda>i. entry_PublicKey (roster c ! nat i)) indices)
         \<and> (\<forall>n < length (roster c). roster c' ! n = (if int n \<in> set indices then mark ct (roster c ! n) else roster c ! n))
       else r = Inl ''invalid validator index'')"
proof (cases "\<forall>i \<in> set indices. 0 \<le> i \<and> i < TotalNodes c")
  case True
  then show ?thesis
    using UpdateValidatorResponse_ok [OF committee_reachable_inv [OF assms], of indices ct "[]"]
    by (auto simp: TotalNodes_def)
next
  case False
  then have "\<exists>i \<in> set indices. i < 0 \<or> totalNodes c \<le> i" by (auto simp: TotalNodes_def not_le not_less)
  with UpdateValidatorResponse_error [OF committee_reachable_inv [OF assms] this, of ct "[]"] False
  show ?thesis by auto
qed

theorem UpdateValidatorResponse_correct_witness:
  "\<exists>c'. UpdateValidatorResponse VoteCounter [2, 0] example_committee [] = Some (c', Inr [[1], [1]])"
proof -
  have "map (\<lambda>i. entry_PublicKey (roster example_committee ! nat i)) [2, 0] = [[1], [1]]"
    by (simp add: example_roster example_validator_def nth_Cons')
  then show ?thesis
    using UpdateValidatorResponse_correct [OF example_reachable, of VoteCounter "[2, 0]"]
    by (auto simp: TotalNodes_def example_total)
qed

text \<open>The node list of the committee has every node of a set that takes part exactly once and
  no other node, and a node is found by its index exactly when it is on that list.\<close>

theorem GetNodes_correct:
  "distinct (GetNodes c) \<and> (fst (ics_GetIndex c k) \<ge> 0 \<longleftrightarrow> k \<in> set (GetNodes c))"
  using GetNodes_members [of c] GetIndex_sets_member [of 0 "Sets c" k]
  by (simp add: ics_GetIndex_def ics_members_def)



text \<open>C20: The context quorum holds exactly when every context set that takes part and has a size
  has at least as many responses as its participant quorum, so the check on unbounded integers and
  the 32-bit quorum agree.\<close>

theorem IsContextQuorum_correct:
  assumes "committee_reachable c"
    and "\<And>ns. Some ns \<in> set (Sets c) \<Longrightarrow> unat (ns_SetSizeWithOutDelta ns) < 2 ^ 31"
  shows "IsContextQuorum c ct = Some (\<forall>k ns. Suc k < length (Sets c) \<longrightarrow> Sets c ! k = Some ns \<longrightarrow>
    \<not> ns_ExcludedFromICS ns \<longrightarrow>
    (\<exists>quorum. ParticipantQuorum c (int k) = Some quorum \<and> unat quorum \<le> nat (GetRespCount ns ct)))"
proof -
  have inv: "committee_inv c" using assms(1) by (rule committee_reachable_inv)
  have "quorum_or_excluded ct (Sets c ! k) \<longleftrightarrow> (\<forall>ns. Sets c ! k = Some ns \<longrightarrow> \<not> ns_ExcludedFromICS ns \<longrightarrow>
      (\<exists>quorum. ParticipantQuorum c (int k) = Some quorum \<and> unat quorum \<le> nat (GetRespCount ns ct)))"
    if k: "Suc k < length (Sets c)" for k
  proof -
    have mem: "Sets c ! k \<in> set (Sets c)" using k by simp
    then obtain ns where ns: "Sets c ! k = Some ns" "set_ok ns" using inv by (auto simp: committee_inv_def)
    have small: "unat (ns_SetSizeWithOutDelta ns) < 2 ^ 31" using assms(2) mem ns(1) by simp
    have count: "GetRespCount ns ct = int (length (filter (\<lambda>e. snd e ct) (set_roster ns)))"
      using set_okD(3) [OF ns(2)] by (simp add: GetRespCount_def)
    show ?thesis
    proof (cases "ns_SetSizeWithOutDelta ns = 0")
      case True
      then show ?thesis
        using ns k count by (simp add: quorum_or_excluded_def set_quorum_eq ParticipantQuorum_def)
    next
      case False
      then have "unat (ns_SetSizeWithOutDelta ns) \<noteq> 0" by (simp add: unat_eq_0)
      with False show ?thesis
        using ns k count ParticipantQuorum_eq [OF _ ns(1) small False]
        by (auto simp: quorum_or_excluded_def set_quorum_eq)
    qed
  qed
  then show ?thesis unfolding IsContextQuorum_eq [OF inv] by blast
qed

theorem IsContextQuorum_correct_witness: "IsContextQuorum example_committee VoteCounter = Some False"
proof -
  have "IsContextQuorum example_committee VoteCounter = Some (\<forall>k ns. Suc k < length (Sets example_committee) \<longrightarrow>
      Sets example_committee ! k = Some ns \<longrightarrow> \<not> ns_ExcludedFromICS ns \<longrightarrow>
      (\<exists>quorum. ParticipantQuorum example_committee (int k) = Some quorum \<and> unat quorum \<le> nat (GetRespCount ns VoteCounter)))"
    by (rule IsContextQuorum_correct [OF example_reachable]) (auto simp: example_sets NewNodeSet_def)
  moreover have "\<not> (\<exists>quorum. ParticipantQuorum example_committee (int 0) = Some quorum
      \<and> unat quorum \<le> nat (GetRespCount (NewNodeSet [example_validator ''a'', example_validator ''b''] 2) VoteCounter))"
    by (simp add: ParticipantQuorum_def example_sets NewNodeSet_def GetRespCount_def Let_def)
  ultimately show ?thesis by (force simp: example_sets NewNodeSet_def)
qed

end
