(* ===== verification/Cluster.thy ===== *)
theory Cluster
  imports Committee "HOL-Library.List_Lexorder"
begin

text \<open>
  The participants of a cluster, src/common/participant.go, and the cluster state of
  src/consensus/types/ics.go. The cluster state caches the list of quorums, one per node set;
  the vote sets compare their sums with it.
\<close>

section \<open>Definitions\<close>

record DeltaGroup =
  dg_ConsensusNodes :: "KramaID list"
  dg_ReplacedNodes :: "KramaID list"

record Participant =
  ps_IsGenesis :: bool
  ps_IsSigner :: bool
  ps_Height :: u64
  ps_ConsensusNodesHash :: Hash
  ps_TesseractHash :: Hash
  ps_LockType :: LockType
  ps_ContextDelta :: "DeltaGroup option"
  ps_ExcludeFromICS :: bool

text \<open>The map of participants is ranged over, so it is a list of distinct keys with their values.\<close>

type_synonym Participants = "(Identifier \<times> Participant) list"

definition NewHeight :: "Participant \<Rightarrow> u64" where
  "NewHeight p =
     (if ps_IsGenesis p \<or> ps_LockType p \<noteq> MutateLock \<or> ps_ExcludeFromICS p then ps_Height p
      else ps_Height p + 1)"

definition TSHash :: "Participant \<Rightarrow> Hash" where
  "TSHash p = ps_TesseractHash p"

definition ExcludedFromICS :: "Participant \<Rightarrow> bool" where
  "ExcludedFromICS p \<longleftrightarrow> \<not> ps_IsGenesis p \<and> ps_ExcludeFromICS p"

definition LockInfo_of :: "Participants \<Rightarrow> bool \<Rightarrow> (Identifier \<times> LockType) list" where
  "LockInfo_of ps activeParticipantsOnly =
     [(ident, ps_LockType info). (ident, info) \<leftarrow> ps, \<not> activeParticipantsOnly \<or> \<not> ExcludedFromICS info]"

definition ExcludeFromICS :: "Identifier list \<Rightarrow> Participants \<Rightarrow> Participants" where
  "ExcludeFromICS ids ps =
     map (\<lambda>(ident, info). (ident, if ident \<in> set ids then info\<lparr>ps_ExcludeFromICS := True\<rparr> else info)) ps"

text \<open>\<^verbatim>\<open>sort.Sort\<close> on identifiers compares them byte by byte.\<close>

definition Participants_IDs :: "Participants \<Rightarrow> Identifier list" where
  "Participants_IDs ps = sort (map fst ps)"

definition AccountsWithoutNoLocks :: "Participants \<Rightarrow> Identifier list" where
  "AccountsWithoutNoLocks ps = sort (map fst (filter (\<lambda>(_, state). ps_LockType state \<noteq> NoLock) ps))"

text \<open>The fields of \<^verbatim>\<open>ClusterState\<close> that its own methods read; \<open>cs_currentView\<close> is the number of the
  view.\<close>

record ClusterState =
  cs_selfID :: KramaID
  cs_committee :: ICSCommittee
  cs_clusterID :: ClusterID
  cs_operator :: KramaID
  cs_dirty :: "Hash \<rightharpoonup> u8 list"
  cs_ICSRespCount :: int
  cs_operatorIncluded :: bool
  cs_Participants :: Participants
  cs_quorum :: "u32 list option"
  cs_localViewInfo :: Views
  cs_highestViewInfo :: Views
  cs_preparedQc :: "PreparedInfo option"
  cs_currentView :: u64
  cs_isTSStored :: bool

definition NewICS ::
  "ClusterID \<Rightarrow> KramaID \<Rightarrow> KramaID \<Rightarrow> ICSCommittee \<Rightarrow> Participants \<Rightarrow> Views \<Rightarrow> u64 \<Rightarrow> bool \<Rightarrow> ClusterState" where
  "NewICS clusterID operator selfID committee participants viewInfos view isTSStored =
     \<lparr>cs_selfID = selfID, cs_committee = committee, cs_clusterID = clusterID, cs_operator = operator,
      cs_dirty = Map.empty, cs_ICSRespCount = 0, cs_operatorIncluded = False,
      cs_Participants = participants, cs_quorum = None, cs_localViewInfo = viewInfos,
      cs_highestViewInfo = replicate (length viewInfos) None, cs_preparedQc = None,
      cs_currentView = view, cs_isTSStored = isTSStored\<rparr>"

definition ParticipantHeight :: "ClusterState \<Rightarrow> Identifier \<Rightarrow> u64" where
  "ParticipantHeight cs ident =
     (case map_of (cs_Participants cs) ident of Some ps \<Rightarrow> ps_Height ps | None \<Rightarrow> 0)"

definition ParticipantTSHash :: "ClusterState \<Rightarrow> Identifier \<Rightarrow> Hash" where
  "ParticipantTSHash cs ident =
     (case map_of (cs_Participants cs) ident of Some ps \<Rightarrow> TSHash ps | None \<Rightarrow> NilHash)"

definition cs_Size :: "ClusterState \<Rightarrow> int" where
  "cs_Size cs = TotalNodes (cs_committee cs)"

definition GetNodeSet :: "ClusterState \<Rightarrow> int \<Rightarrow> NodeSet option option" where
  "GetNodeSet cs nodeSetPosition = go_index (Sets (cs_committee cs)) nodeSetPosition"

definition cs_AppendNodeSet :: "NodeSet option \<Rightarrow> ClusterState \<Rightarrow> ClusterState" where
  "cs_AppendNodeSet data cs = cs\<lparr>cs_committee := AppendNodeSet NilHash data (cs_committee cs)\<rparr>"

definition IncludeOperator :: "ClusterState \<Rightarrow> ClusterState" where
  "IncludeOperator cs = cs\<lparr>cs_operatorIncluded := True\<rparr>"

definition ExcludeParticipantsFromICS :: "Identifier list \<Rightarrow> ClusterState \<Rightarrow> ClusterState option" where
  "ExcludeParticipantsFromICS ids cs = (let ps = ExcludeFromICS ids (cs_Participants cs) in do {
     committee \<leftarrow> foldM (\<lambda>(_, info) c.
         if ExcludedFromICS info then IncrementExcludedPSCount (ps_ConsensusNodesHash info) c else Some c)
       ps (cs_committee cs);
     Some (cs\<lparr>cs_Participants := ps, cs_committee := committee\<rparr>)
   })"

definition NewHeights :: "ClusterState \<Rightarrow> (Identifier \<times> u64) list" where
  "NewHeights cs = map (\<lambda>(ident, ps). (ident, NewHeight ps)) (cs_Participants cs)"

abbreviation ConsensusNodesSize :: nat where "ConsensusNodesSize \<equiv> 5"

definition GetConsensusNodesDelta :: "ClusterState \<Rightarrow> int \<Rightarrow> KramaID \<Rightarrow> (KramaID \<times> KramaID) option" where
  "GetConsensusNodesDelta cs nodeSetPosition newPeer = do {
     ns \<leftarrow> set_at (cs_committee cs) nodeSetPosition;
     if newPeer \<in> vi_KramaID ` set (ns_Infos ns) then Some ('''', '''')
     else do {
       replaced \<leftarrow> (if length (ns_Infos ns) \<ge> ConsensusNodesSize
                   then map_option vi_KramaID (go_index (ns_Infos ns) 0) else Some '''');
       Some (newPeer, replaced)
     }
   }"

definition cs_IsContextQuorum :: "ClusterState \<Rightarrow> CounterType \<Rightarrow> bool option" where
  "cs_IsContextQuorum cs ct = IsContextQuorum (cs_committee cs) ct"

definition cs_IsRandomQuorum :: "ClusterState \<Rightarrow> CounterType \<Rightarrow> bool option" where
  "cs_IsRandomQuorum cs ct = do {
     r \<leftarrow> RandomSet (cs_committee cs);
     ns \<leftarrow> r;
     q \<leftarrow> RandomQuorumSize (cs_committee cs);
     Some (GetRespCount ns ct \<ge> uint q)
   }"

definition cs_HasKramaID :: "ClusterState \<Rightarrow> KramaID \<Rightarrow> (int \<times> u8 list \<times> bool) option" where
  "cs_HasKramaID cs kramaID = HasKramaID (cs_committee cs) kramaID"

definition IsICSMember :: "ClusterState \<Rightarrow> KramaID \<Rightarrow> bool" where
  "IsICSMember cs kramaID \<longleftrightarrow> fst (ics_GetIndex (cs_committee cs) kramaID) \<ge> 0"

definition GetByIndex :: "ClusterState \<Rightarrow> int \<Rightarrow> (KramaID \<times> u8 list) option" where
  "GetByIndex cs index = do {
     (slots, _, kramaID, publicKey) \<leftarrow> GetKramaID (cs_committee cs) index;
     Some (if slots = None then ('''', []) else (kramaID, publicKey))
   }"

definition GetICSVoteset :: "ClusterState \<Rightarrow> CounterType \<Rightarrow> ArrayOfBits option option" where
  "GetICSVoteset cs ct = GetVoteset (cs_committee cs) ct"

definition GetRandomNodes :: "ClusterState \<Rightarrow> u64 list option" where
  "GetRandomNodes cs = do { r \<leftarrow> RandomSet (cs_committee cs); ns \<leftarrow> r; Some (ValidatorIndices ns) }"

text \<open>The quorum of every context set that takes part, 0 for the excluded ones, and the random
  quorum at the end; computed once and cached.\<close>

definition GetQuorum :: "ClusterState \<Rightarrow> (u32 list \<times> ClusterState) option" where
  "GetQuorum cs =
     (case cs_quorum cs of
        Some quorum \<Rightarrow> Some (quorum, cs)
      | None \<Rightarrow> (let n = ics_Size (cs_committee cs) in do {
          quorum \<leftarrow> (if n < 0 then None else Some (replicate (nat n) 0));
          quorum \<leftarrow> foldM (\<lambda>i quorum. do {
              ns \<leftarrow> set_at (cs_committee cs) (int i);
              if ns_ExcludedFromICS ns then Some quorum
              else do {
                q \<leftarrow> ParticipantQuorum (cs_committee cs) (int i);
                go_update quorum (int i) q
              }
            }) [0..<nat (n - 1)] quorum;
          r \<leftarrow> RandomQuorumSize (cs_committee cs);
          quorum \<leftarrow> go_update quorum (int (length quorum) - 1) r;
          Some (quorum, cs\<lparr>cs_quorum := Some quorum\<rparr>)
        }))"

definition AddDirty :: "Hash \<Rightarrow> u8 list \<Rightarrow> ClusterState \<Rightarrow> ClusterState" where
  "AddDirty key data cs = cs\<lparr>cs_dirty := (cs_dirty cs)(key \<mapsto> data)\<rparr>"

definition IncrementICSRespCount :: "int \<Rightarrow> ClusterState \<Rightarrow> ClusterState" where
  "IncrementICSRespCount n cs = cs\<lparr>cs_ICSRespCount := cs_ICSRespCount cs + n\<rparr>"

definition ContextDelta :: "ClusterState \<Rightarrow> (Identifier \<times> DeltaGroup) list" where
  "ContextDelta cs = [(ident, delta). (ident, ps) \<leftarrow> cs_Participants cs, \<not> ps_ExcludeFromICS ps,
     delta \<leftarrow> (case ps_ContextDelta ps of None \<Rightarrow> [] | Some d \<Rightarrow> [d])]"

end
