(* ===== verification/Vote_Set.thy ===== *)
theory Vote_Set
  imports Cluster
begin

text \<open>
  The vote sets of src/consensus/types/voteset.go and votesetheight.go: votes of one type are
  stored per validator, counted per node set, and the first vote that lifts every count to its
  quorum fixes the majority hash and its aggregated signature. The signature scheme and the
  vote encoding are parameters; the cluster state is passed along because \<^verbatim>\<open>GetQuorum\<close> caches
  the quorums in it.
\<close>

section \<open>Definitions\<close>

text \<open>\<^verbatim>\<open>Vote.SignBytes\<close> and the functions \<^verbatim>\<open>Verify\<close>, \<^verbatim>\<open>VerifyAggregateSignature\<close> and
  \<^verbatim>\<open>AggregateSignatures\<close> of the crypto package. An error is \<open>Inl\<close>, or the \<open>Some\<close> of a second
  result.\<close>

record Crypto =
  cr_SignBytes :: "CanonicalVote \<Rightarrow> string + u8 list"
  cr_Verify :: "u8 list \<Rightarrow> u8 list \<Rightarrow> u8 list \<Rightarrow> bool \<times> string option"
  cr_VerifyAggregate :: "u8 list \<Rightarrow> u8 list \<Rightarrow> u8 list list \<Rightarrow> bool \<times> string option"
  cr_Aggregate :: "u8 list list \<Rightarrow> string + u8 list"

datatype vote_error = ErrInvalidVote | ErrInvalidValidatorDetails | ErrInvalidViewAndTSHash
  | ErrInvalidValidator | ErrSignatureVerificationFailed | ErrConflictingVote | ErrInvalidValidatorIndex
  | ErrPublicKeyNotFound | ErrCrypto string

record VoteSet =
  vs_view :: u64
  vs_votetype :: ConsensusMsgType
  vs_sum :: "u32 list"
  vs_votingPowerSum :: "int list"
  vs_votes :: "Vote option list"
  vs_votesBitArray :: "ArrayOfBits option"
  vs_maj23TsHash :: "Hash option"
  vs_maj23aggSignature :: "u8 list"

definition NewVoteSet :: "u64 \<Rightarrow> ConsensusMsgType \<Rightarrow> ClusterState \<Rightarrow> VoteSet" where
  "NewVoteSet view voteType cs =
     \<lparr>vs_view = view, vs_votetype = voteType,
      vs_sum = replicate (nat (ics_Size (cs_committee cs))) 0,
      vs_votingPowerSum = replicate (nat (ics_Size (cs_committee cs))) 0,
      vs_votes = replicate (nat (cs_Size cs)) None,
      vs_votesBitArray = NewArrayOfBits (cs_Size cs),
      vs_maj23TsHash = None, vs_maj23aggSignature = []\<rparr>"

definition aggregateSignatures :: "Crypto \<Rightarrow> VoteSet \<Rightarrow> (string + u8 list) option" where
  "aggregateSignatures cr vs = do {
     bits \<leftarrow> vs_votesBitArray vs;
     indices \<leftarrow> GetTrueIndices bits;
     sigs \<leftarrow> those (map (\<lambda>index. do {
         v \<leftarrow> go_index (vs_votes vs) index;
         map_option vote_Signature v
       }) indices);
     Some (cr_Aggregate cr sigs)
   }"

definition HasMajority :: "VoteSet option \<Rightarrow> bool" where
  "HasMajority vs = (case vs of None \<Rightarrow> False | Some v \<Rightarrow> vs_maj23TsHash v \<noteq> None)"

definition SuperMajority :: "VoteSet option \<Rightarrow> Hash \<times> bool" where
  "SuperMajority vs =
     (case vs of None \<Rightarrow> (NilHash, False)
      | Some v \<Rightarrow> (case vs_maj23TsHash v of Some h \<Rightarrow> (h, True) | None \<Rightarrow> (NilHash, False)))"

text \<open>Whether no value is below the one at its index; a missing second value panics.\<close>

fun areGreater :: "u32 list \<Rightarrow> u32 list \<Rightarrow> bool option" where
  "areGreater [] newValues = Some True"
| "areGreater (value # values) [] = None"
| "areGreater (value # values) (newValue # newValues) =
     (if value < newValue then Some False else areGreater values newValues)"

definition HasMajorityAny :: "VoteSet option \<Rightarrow> ClusterState \<Rightarrow> (bool \<times> ClusterState) option" where
  "HasMajorityAny vs cs =
     (case vs of None \<Rightarrow> Some (False, cs)
      | Some v \<Rightarrow> (if vs_sum v = [] then Some (True, cs) else do {
          (quorum, cs') \<leftarrow> GetQuorum cs;
          any \<leftarrow> areGreater (vs_sum v) quorum;
          Some (any, cs')
        }))"

text \<open>The slots of a validator index, or nil.\<close>

definition getSumIndex :: "ClusterState \<Rightarrow> int \<Rightarrow> (vote_error + int list) option" where
  "getSumIndex cs valIndex = do {
     (slots, _, _, _) \<leftarrow> GetKramaID (cs_committee cs) valIndex;
     Some (case slots of None \<Rightarrow> Inl ErrInvalidValidatorIndex | Some s \<Rightarrow> Inr s)
   }"

definition updateSum :: "int list \<Rightarrow> int \<Rightarrow> VoteSet \<Rightarrow> VoteSet option" where
  "updateSum sumIndex vp = foldM (\<lambda>index vs. do {
     s \<leftarrow> go_index (vs_sum vs) index;
     p \<leftarrow> go_index (vs_votingPowerSum vs) index;
     Some (vs\<lparr>vs_sum := (vs_sum vs)[nat index := s + 1],
              vs_votingPowerSum := (vs_votingPowerSum vs)[nat index := int32 (p + vp)]\<rparr>)
   }) sumIndex"

definition addVerifiedVote ::
  "Crypto \<Rightarrow> Vote \<Rightarrow> int \<Rightarrow> int \<Rightarrow> int list \<Rightarrow> bool \<Rightarrow> VoteSet \<Rightarrow> ClusterState
    \<Rightarrow> (bool \<times> VoteSet \<times> ClusterState) option" where
  "addVerifiedVote cr vote votePower valIndex sumIndex isQc vs cs = do {
     existingVote \<leftarrow> go_index (vs_votes vs) valIndex;
     if existingVote \<noteq> None then Some (False, vs, cs)
     else do {
       votes \<leftarrow> go_update (vs_votes vs) valIndex (Some vote);
       (_, bits) \<leftarrow> SetIndex (vs_votesBitArray vs) valIndex True;
       vs1 \<leftarrow> updateSum sumIndex votePower (vs\<lparr>vs_votes := votes, vs_votesBitArray := bits\<rparr>);
       (quorum, cs1) \<leftarrow> GetQuorum cs;
       if vs_maj23TsHash vs1 \<noteq> None then Some (True, vs1, cs1)
       else do {
         reached \<leftarrow> areGreater (vs_sum vs1) quorum;
         if \<not> reached then Some (True, vs1, cs1)
         else do {
           aggSig \<leftarrow> (if \<not> isQc
                      then map_option (case_sum (\<lambda>_. []) (\<lambda>s. s)) (aggregateSignatures cr vs1)
                      else Some (vote_Signature vote));
           Some (True, vs1\<lparr>vs_maj23TsHash := Some (vote_TSHash vote), vs_maj23aggSignature := aggSig\<rparr>, cs1)
         }
       }
     }
   }"

definition AddVote ::
  "Crypto \<Rightarrow> Vote option \<Rightarrow> Hash \<Rightarrow> VoteSet \<Rightarrow> ClusterState
    \<Rightarrow> ((bool \<times> vote_error option) \<times> VoteSet \<times> ClusterState) option" where
  "AddVote cr v expectedTSHash vs cs =
     (case v of
        None \<Rightarrow> Some ((False, Some ErrInvalidVote), vs, cs)
      | Some v \<Rightarrow> (let valIndex = vote_SignerIndex v in
          if valIndex < 0 then Some ((False, Some ErrInvalidValidatorDetails), vs, cs)
          else if vote_View v \<noteq> vs_view vs \<or> vote_Type v \<noteq> vs_votetype vs
          then Some ((False, Some ErrInvalidViewAndTSHash), vs, cs)
          else do {
            (valKramaID, publicKey) \<leftarrow> GetByIndex cs valIndex;
            if valKramaID = '''' then Some ((False, Some ErrInvalidValidator), vs, cs)
            else (case cr_SignBytes cr (canonicalVote v) of
                Inl err \<Rightarrow> Some ((False, Some (ErrCrypto err)), vs, cs)
              | Inr rawData \<Rightarrow> (case cr_Verify cr rawData (vote_Signature v) publicKey of
                  (_, Some err) \<Rightarrow> Some ((False, Some (ErrCrypto err)), vs, cs)
                | (verified, None) \<Rightarrow>
                    if \<not> verified then Some ((False, Some ErrSignatureVerificationFailed), vs, cs)
                    else if vote_TSHash v \<noteq> expectedTSHash then Some ((False, Some ErrConflictingVote), vs, cs)
                    else do {
                      sumIndex \<leftarrow> getSumIndex cs valIndex;
                      (case sumIndex of
                         Inl err \<Rightarrow> Some ((False, Some err), vs, cs)
                       | Inr slots \<Rightarrow> do {
                           (added, vs', cs') \<leftarrow> addVerifiedVote cr v 1 valIndex slots False vs cs;
                           Some ((added, None), vs', cs')
                         })
                    }))
          }))"

text \<open>The loop of \<^verbatim>\<open>AddQc\<close> that looks up the signers: their public keys and slots.\<close>

fun qc_signers :: "ClusterState \<Rightarrow> int list \<Rightarrow> (u8 list list \<times> (int \<times> int list) list) option option" where
  "qc_signers cs [] = Some (Some ([], []))"
| "qc_signers cs (valIndex # rest) = do {
     (slots, _, kramaID, publicKey) \<leftarrow> GetKramaID (cs_committee cs) (int32 valIndex);
     if kramaID = '''' then Some None
     else do {
       r \<leftarrow> qc_signers cs rest;
       Some (map_option (\<lambda>(keys, sums).
         (publicKey # keys, (valIndex, case slots of None \<Rightarrow> [] | Some s \<Rightarrow> s) # sums)) r)
     }
   }"

definition AddQc ::
  "Crypto \<Rightarrow> Vote option \<Rightarrow> Hash \<Rightarrow> VoteSet \<Rightarrow> ClusterState
    \<Rightarrow> ((bool \<times> vote_error option) \<times> VoteSet \<times> ClusterState) option" where
  "AddQc cr v expectedTSHash vs cs =
     (case v of
        None \<Rightarrow> Some ((False, Some ErrInvalidVote), vs, cs)
      | Some v \<Rightarrow>
          if vote_SignerIndex v < 0 then Some ((False, Some ErrInvalidValidatorDetails), vs, cs)
          else do {
            signers \<leftarrow> vote_SignerIndices v;
            signedVals \<leftarrow> GetTrueIndices signers;
            found \<leftarrow> qc_signers cs signedVals;
            (case found of
               None \<Rightarrow> Some ((False, Some ErrPublicKeyNotFound), vs, cs)
             | Some (publicKeys, sums) \<Rightarrow> (case cr_SignBytes cr (canonicalVote v) of
                 Inl err \<Rightarrow> Some ((False, Some (ErrCrypto err)), vs, cs)
               | Inr rawVote \<Rightarrow> (case cr_VerifyAggregate cr rawVote (vote_Signature v) publicKeys of
                   (isvalid, err) \<Rightarrow>
                     if \<not> isvalid \<or> err \<noteq> None then Some ((False, map_option ErrCrypto err), vs, cs)
                     else if vote_TSHash v \<noteq> expectedTSHash then Some ((False, Some ErrConflictingVote), vs, cs)
                     else do {
                       (vs', cs') \<leftarrow> foldM (\<lambda>(valIndex, slots) (vs, cs). do {
                           (_, vs', cs') \<leftarrow> addVerifiedVote cr v 1 (int32 valIndex) slots True vs cs;
                           Some (vs', cs')
                         }) sums (vs, cs);
                       Some ((True, None), vs', cs')
                     })))
          })"

definition GetVoteBits :: "VoteSet \<Rightarrow> ArrayOfBits option" where
  "GetVoteBits vs = bits_Copy (vs_votesBitArray vs)"

definition vs_GetQC :: "VoteSet \<Rightarrow> ArrayOfBits option \<times> u8 list" where
  "vs_GetQC vs = (vs_votesBitArray vs, vs_maj23aggSignature vs)"

text \<open>\<^verbatim>\<open>HeightVoteSet\<close> and its \<^verbatim>\<open>ViewVoteSet\<close>; the cluster state it points to is passed along.\<close>

record HeightVoteSet =
  hvs_tsHash :: Hash
  hvs_view :: u64
  hvs_Prevotes :: VoteSet
  hvs_Precommits :: VoteSet

definition VoteBitSet :: "HeightVoteSet \<Rightarrow> (ArrayOfBits option \<times> ArrayOfBits option) option" where
  "VoteBitSet hvs =
     (if bits_IsEmpty (GetVoteBits (hvs_Prevotes hvs)) then None
      else Some (GetVoteBits (hvs_Prevotes hvs),
        if \<not> bits_IsEmpty (GetVoteBits (hvs_Precommits hvs)) then GetVoteBits (hvs_Precommits hvs) else None))"

definition Reset :: "ClusterState \<Rightarrow> HeightVoteSet \<Rightarrow> HeightVoteSet" where
  "Reset valset hvs = hvs\<lparr>
     hvs_Prevotes := NewVoteSet (cs_currentView valset) PREVOTE valset,
     hvs_Precommits := NewVoteSet (cs_currentView valset) PRECOMMIT valset,
     hvs_view := cs_currentView valset\<rparr>"

definition NewHeightVoteSet :: "ClusterState \<Rightarrow> HeightVoteSet" where
  "NewHeightVoteSet valset =
     Reset valset \<lparr>hvs_tsHash = NilHash, hvs_view = 0,
       hvs_Prevotes = NewVoteSet 0 PREVOTE valset, hvs_Precommits = NewVoteSet 0 PRECOMMIT valset\<rparr>"

definition SetTSHash :: "Hash \<Rightarrow> HeightVoteSet \<Rightarrow> HeightVoteSet" where
  "SetTSHash tsHash hvs = hvs\<lparr>hvs_tsHash := tsHash\<rparr>"

definition getVoteSet :: "HeightVoteSet \<Rightarrow> ConsensusMsgType \<Rightarrow> VoteSet option" where
  "getVoteSet hvs votetype =
     (if votetype = PREVOTE then Some (hvs_Prevotes hvs)
      else if votetype = PRECOMMIT then Some (hvs_Precommits hvs)
      else None)"

definition putVoteSet :: "ConsensusMsgType \<Rightarrow> VoteSet \<Rightarrow> HeightVoteSet \<Rightarrow> HeightVoteSet" where
  "putVoteSet votetype vs hvs =
     (if votetype = PREVOTE then hvs\<lparr>hvs_Prevotes := vs\<rparr> else hvs\<lparr>hvs_Precommits := vs\<rparr>)"

text \<open>A vote of another type gives a nil vote set, and taking its lock panics.\<close>

definition hvs_AddVote ::
  "Crypto \<Rightarrow> Vote \<Rightarrow> HeightVoteSet \<Rightarrow> ClusterState
    \<Rightarrow> ((bool \<times> vote_error option) \<times> HeightVoteSet \<times> ClusterState) option" where
  "hvs_AddVote cr v hvs cs = do {
     vs \<leftarrow> getVoteSet hvs (vote_Type v);
     (r, vs', cs') \<leftarrow> AddVote cr (Some v) (hvs_tsHash hvs) vs cs;
     Some (r, putVoteSet (vote_Type v) vs' hvs, cs')
   }"

definition hvs_AddQC ::
  "Crypto \<Rightarrow> Vote \<Rightarrow> HeightVoteSet \<Rightarrow> ClusterState
    \<Rightarrow> ((bool \<times> vote_error option) \<times> HeightVoteSet \<times> ClusterState) option" where
  "hvs_AddQC cr v hvs cs = do {
     vs \<leftarrow> getVoteSet hvs (vote_Type v);
     (r, vs', cs') \<leftarrow> AddQc cr (Some v) (hvs_tsHash hvs) vs cs;
     Some (r, putVoteSet (vote_Type v) vs' hvs, cs')
   }"

definition Prevotes :: "HeightVoteSet \<Rightarrow> VoteSet option" where
  "Prevotes hvs = getVoteSet hvs PREVOTE"

definition Precommits :: "HeightVoteSet \<Rightarrow> VoteSet option" where
  "Precommits hvs = getVoteSet hvs PRECOMMIT"

text \<open>The fields of the certificate that the code leaves out have their zero values.\<close>

definition hvs_GetQC :: "HeightVoteSet \<Rightarrow> Hash \<Rightarrow> u64 \<Rightarrow> ConsensusMsgType \<Rightarrow> (string + Qc) option" where
  "hvs_GetQC hvs tsHash view voteType = do {
     vs \<leftarrow> getVoteSet hvs voteType;
     maj23 \<leftarrow> vs_maj23TsHash vs;
     if maj23 \<noteq> tsHash then Some (Inl ''ts hash does not match with super majority'')
     else Some (Inr \<lparr>qc_Type = voteType, qc_ID = [], qc_LockType = MutateLock, qc_View = view, qc_TSHash = maj23,
       qc_SignerIndices = vs_votesBitArray vs, qc_Signature = vs_maj23aggSignature vs\<rparr>)
   }"

definition AreVoteHeightsEqual :: "(Identifier \<times> u64) list \<Rightarrow> (Identifier \<times> u64) list \<Rightarrow> bool" where
  "AreVoteHeightsEqual voteHeights systemHeights \<longleftrightarrow>
     length voteHeights = length systemHeights
     \<and> list_all (\<lambda>(a, h). map_of systemHeights a = Some h) voteHeights"

section \<open>Quorums of the cluster\<close>

text \<open>The quorum of the set at a position as a number: 0 for a context set that is excluded or has no
  size, and two thirds of the size plus one otherwise.\<close>

definition quorum_of :: "ICSCommittee \<Rightarrow> nat \<Rightarrow> nat" where
  "quorum_of c k =
     (case Sets c ! k of
        None \<Rightarrow> 0
      | Some ns \<Rightarrow> (let n = unat (ns_SetSizeWithOutDelta ns)
          in if Suc k \<noteq> length (Sets c) \<and> (ns_ExcludedFromICS ns \<or> n = 0) then 0 else n * 2 div 3 + 1))"

definition cluster_ok :: "ClusterState \<Rightarrow> bool" where
  "cluster_ok cs \<longleftrightarrow> committee_inv (cs_committee cs) \<and> Sets (cs_committee cs) \<noteq> []
    \<and> totalNodes (cs_committee cs) < 2 ^ 31
    \<and> (\<forall>ns. Some ns \<in> set (Sets (cs_committee cs)) \<longrightarrow> unat (ns_SetSizeWithOutDelta ns) < 2 ^ 31)
    \<and> (\<forall>e \<in> set (roster (cs_committee cs)). entry_KramaID e \<noteq> '''')
    \<and> (\<forall>q. cs_quorum cs = Some q \<longrightarrow>
         map unat q = map (quorum_of (cs_committee cs)) [0..<length (Sets (cs_committee cs))])"

lemma cluster_okD:
  assumes "cluster_ok cs"
  shows "committee_inv (cs_committee cs)" and "Sets (cs_committee cs) \<noteq> []"
    and "totalNodes (cs_committee cs) < 2 ^ 31"
    and "totalNodes (cs_committee cs) = int (length (roster (cs_committee cs)))"
    and "ics_Size (cs_committee cs) = int (length (Sets (cs_committee cs)))"
  using assms by (auto simp: cluster_ok_def committee_inv_def ics_Size_def)

lemma GetQuorum_fresh:
  assumes "cluster_ok cs" and "cs_quorum cs = None"
  obtains q where "GetQuorum cs = Some (q, cs\<lparr>cs_quorum := Some q\<rparr>)"
    and "map unat q = map (quorum_of (cs_committee cs)) [0..<length (Sets (cs_committee cs))]"
proof -
  define c where "c = cs_committee cs"
  define n where "n = length (Sets c) - 1"
  have len: "length (Sets c) = Suc n" and size: "ics_Size c = int (Suc n)" and inv: "committee_inv c"
    using cluster_okD [OF assms(1)] by (simp_all add: c_def n_def)
  have set_k: "\<exists>ns. set_at c (int k) = Some ns \<and> Sets c ! k = Some ns \<and> unat (ns_SetSizeWithOutDelta ns) < 2 ^ 31"
    if k: "k < Suc n" for k
  proof -
    obtain ns where ns: "set_at c (int k) = Some ns" "Sets c ! k = Some ns"
      by (rule set_at_ok [OF inv, of "int k"]) (use k len in auto)
    have "Sets c ! k \<in> set (Sets c)" using k len by simp
    then show ?thesis using ns assms(1) by (auto simp: cluster_ok_def c_def)
  qed
  let ?body = "\<lambda>i quorum. do {
      ns \<leftarrow> set_at c (int i);
      if ns_ExcludedFromICS ns then Some quorum
      else do { q \<leftarrow> ParticipantQuorum c (int i); go_update quorum (int i) q } }"
  define P where "P = (\<lambda>j (quorum :: u32 list). length quorum = Suc n \<and> (\<forall>k < Suc n. unat (quorum ! k) = (if k < j then quorum_of c k else 0)))"
  have "\<exists>quorum. foldM ?body [0..<n] (replicate (Suc n) (0 :: u32)) = Some quorum \<and> P n quorum"
  proof (rule foldM_upt)
    show "P 0 (replicate (Suc n) 0)" by (simp add: P_def del: replicate_Suc)
  next
    fix j quorum assume j: "j < n" and P: "P j quorum"
    obtain ns where ns: "set_at c (int j) = Some ns" "Sets c ! j = Some ns" "unat (ns_SetSizeWithOutDelta ns) < 2 ^ 31"
      using set_k [of j] j by auto
    have jl: "j < length (Sets c)" "Suc j \<noteq> length (Sets c)" using j len by auto
    show "\<exists>quorum'. ?body j quorum = Some quorum' \<and> P (Suc j) quorum'"
    proof (cases "ns_ExcludedFromICS ns")
      case True
      then have "quorum_of c j = 0" using ns(2) jl by (simp add: quorum_of_def)
      with True ns(1) P show ?thesis by (auto simp: P_def less_Suc_eq)
    next
      case False
      have "\<exists>q. ParticipantQuorum c (int j) = Some q \<and> unat q = quorum_of c j"
      proof (cases "ns_SetSizeWithOutDelta ns = 0")
        case True
        then show ?thesis using ns(2) jl by (simp add: ParticipantQuorum_def quorum_of_def)
      next
        case nz: False
        then have "unat (ns_SetSizeWithOutDelta ns) \<noteq> 0" by (simp add: unat_eq_0)
        with ParticipantQuorum_eq [OF jl(1) ns(2,3) nz] ns(2) jl False show ?thesis
          by (auto simp: quorum_of_def Let_def)
      qed
      then obtain q where "ParticipantQuorum c (int j) = Some q" "unat q = quorum_of c j" by blast
      with False ns(1) P j show ?thesis by (auto simp: P_def nth_list_update)
    qed
  qed
  then obtain quorum where quorum: "foldM ?body [0..<n] (replicate (Suc n) 0) = Some quorum" "P n quorum" by blast
  obtain ns where ns: "set_at c (int n) = Some ns" "Sets c ! n = Some ns" "unat (ns_SetSizeWithOutDelta ns) < 2 ^ 31"
    using set_k [of n] by auto
  let ?r = "ns_SetSizeWithOutDelta ns * 2 div 3 + 1"
  have r: "RandomQuorumSize c = Some ?r"
    using ns(1,2) len size by (simp add: RandomQuorumSize_def RandomSet_def StochasticSetPosition_def ics_Size_def go_index_def)
  have ur: "unat ?r = quorum_of c n" using unat_two_thirds [OF ns(3)] ns(2) len by (simp add: quorum_of_def Let_def)
  let ?q = "quorum[n := ?r]"
  have sizes: "nat (ics_Size c) = Suc n" "nat (ics_Size c - 1) = n" using size by simp_all
  have lq: "length quorum = Suc n" using quorum(2) by (simp add: P_def)
  have "go_update quorum (int (length quorum) - 1) ?r = Some ?q" by (simp add: go_update_def lq)
  then have "GetQuorum cs = Some (?q, cs\<lparr>cs_quorum := Some ?q\<rparr>)"
    using assms(2) quorum(1) r sizes size unfolding GetQuorum_def c_def [symmetric] Let_def sizes
    by (simp del: replicate_Suc)
  moreover have "map unat ?q = map (quorum_of c) [0..<length (Sets c)]"
    using quorum(2) ur lq unfolding len by (intro nth_equalityI) (auto simp: P_def nth_list_update less_Suc_eq nth_append)
  ultimately show ?thesis using that unfolding c_def by blast
qed

lemma GetQuorum_total:
  assumes "cluster_ok cs"
  obtains q where "GetQuorum cs = Some (q, cs\<lparr>cs_quorum := Some q\<rparr>)" and "length q = length (Sets (cs_committee cs))"
    and "cluster_ok (cs\<lparr>cs_quorum := Some q\<rparr>)"
proof (cases "cs_quorum cs")
  case None
  obtain q where q: "GetQuorum cs = Some (q, cs\<lparr>cs_quorum := Some q\<rparr>)"
      "map unat q = map (quorum_of (cs_committee cs)) [0..<length (Sets (cs_committee cs))]"
    by (rule GetQuorum_fresh [OF assms None])
  have "length q = length (Sets (cs_committee cs))" using arg_cong [OF q(2), of length] by simp
  with that [OF q(1)] assms q(2) show ?thesis by (simp add: cluster_ok_def)
next
  case (Some q)
  then have id: "cs\<lparr>cs_quorum := Some q\<rparr> = cs" by simp
  have "map unat q = map (quorum_of (cs_committee cs)) [0..<length (Sets (cs_committee cs))]"
    using assms Some by (simp add: cluster_ok_def)
  from arg_cong [OF this, of length] have "length q = length (Sets (cs_committee cs))" by simp
  with that [of q] Some assms show ?thesis by (simp add: GetQuorum_def id)
qed

lemma areGreater_eq:
  "length xs \<le> length ys \<Longrightarrow> areGreater xs ys = Some (\<forall>k < length xs. ys ! k \<le> xs ! k)"
proof (induction xs ys rule: areGreater.induct)
  case (3 x xs y ys)
  then show ?case by (auto simp: not_less less_Suc_eq_0_disj)
qed simp_all

section \<open>The slots of a validator\<close>

definition slots_of :: "ICSCommittee \<Rightarrow> nat \<Rightarrow> int list" where
  "slots_of c i = (case GetKramaID c (int i) of Some (Some s, _) \<Rightarrow> s | _ \<Rightarrow> [])"

definition sets_distinct :: "ICSCommittee \<Rightarrow> bool" where
  "sets_distinct c \<longleftrightarrow> (\<forall>ns. Some ns \<in> set (Sets c) \<longrightarrow> distinct (map vi_KramaID (ns_Infos ns)))"

lemma filter_kramaID_le_1:
  "distinct (map vi_KramaID infos) \<Longrightarrow> length (filter (\<lambda>k. vi_KramaID k = ident) infos) \<le> 1"
proof (induction infos)
  case (Cons a infos)
  show ?case
  proof (cases "vi_KramaID a = ident")
    case True
    then have "filter (\<lambda>k. vi_KramaID k = ident) infos = []"
      using Cons.prems by (auto simp: filter_empty_conv rev_image_eqI)
    with True show ?thesis by simp
  qed (use Cons in simp)
qed simp

lemma later_slots_distinct:
  assumes "sets_distinct c"
  shows "distinct (later_slots c v ident) \<and> set (later_slots c v ident) \<subseteq> {int (Suc v)..<int (length (Sets c)) - 1}"
proof -
  let ?g = "\<lambda>j. case Sets c ! j of None \<Rightarrow> []
     | Some ns \<Rightarrow> map (\<lambda>_. int j) (filter (\<lambda>k. vi_KramaID k = ident) (ns_Infos ns))"
  have g: "distinct (?g j) \<and> set (?g j) \<subseteq> {int j}" if "j < length (Sets c)" for j
  proof (cases "Sets c ! j")
    case (Some ns)
    then have "distinct (map vi_KramaID (ns_Infos ns))" using assms that nth_mem [OF that] by (simp add: sets_distinct_def)
    then have "length (filter (\<lambda>k. vi_KramaID k = ident) (ns_Infos ns)) \<le> 1" by (rule filter_kramaID_le_1)
    then show ?thesis
      by (cases "filter (\<lambda>k. vi_KramaID k = ident) (ns_Infos ns)") (auto simp: Some)
  qed simp
  have "\<forall>j \<in> set js. j < length (Sets c) \<Longrightarrow> distinct js \<Longrightarrow> distinct (concat (map ?g js)) \<and> set (concat (map ?g js)) \<subseteq> int ` set js" for js
  proof (induction js)
    case (Cons j js)
    then have IH: "distinct (concat (map ?g js))" "set (concat (map ?g js)) \<subseteq> int ` set js" by auto
    have gj: "distinct (?g j)" "set (?g j) \<subseteq> {int j}" using g [of j] Cons.prems by auto
    have "int j \<notin> int ` set js" using Cons.prems(2) by auto
    then have "set (?g j) \<inter> set (concat (map ?g js)) = {}" using IH(2) gj(2) by blast
    with IH gj show ?case by auto
  qed simp
  moreover have "\<forall>j \<in> set [Suc v..<length (Sets c) - 1]. j < length (Sets c)" by auto
  ultimately have "distinct (later_slots c v ident)" "set (later_slots c v ident) \<subseteq> int ` set [Suc v..<length (Sets c) - 1]"
    unfolding later_slots_def using distinct_upt by blast+
  moreover have "int ` set [Suc v..<length (Sets c) - 1] \<subseteq> {int (Suc v)..<int (length (Sets c)) - 1}" by auto
  ultimately show ?thesis by blast
qed

lemma slots_of_roster:
  assumes "cluster_ok cs" and "sets_distinct (cs_committee cs)" and "i < length (roster (cs_committee cs))"
  obtains k ns j where "GetKramaID (cs_committee cs) (int i) = Some (Some (slots_of (cs_committee cs) i), int j,
      entry_KramaID (roster (cs_committee cs) ! i), entry_PublicKey (roster (cs_committee cs) ! i))"
    and "slots_of (cs_committee cs) i = int k # later_slots (cs_committee cs) k (entry_KramaID (roster (cs_committee cs) ! i))"
    and "distinct (slots_of (cs_committee cs) i)"
    and "set (slots_of (cs_committee cs) i) \<subseteq> {0..<int (length (Sets (cs_committee cs)))}"
    and "k < length (Sets (cs_committee cs))" and "Sets (cs_committee cs) ! k = Some ns" and "j < length (ns_Infos ns)"
    and "i = length (roster_of (take k (Sets (cs_committee cs)))) + j"
proof -
  define c where "c = cs_committee cs"
  have inv: "committee_inv c" and i: "int i < totalNodes c"
    using cluster_okD [OF assms(1)] assms(3) by (simp_all add: c_def)
  obtain k j ns where g: "GetKramaID c (int i) = Some (Some (int k # later_slots c k (entry_KramaID (roster c ! nat (int i)))), int j,
      entry_KramaID (roster c ! nat (int i)), entry_PublicKey (roster c ! nat (int i)))"
      "k < length (Sets c)" "Sets c ! k = Some ns" "j < length (ns_Infos ns)"
      "nat (int i) = length (roster_of (take k (Sets c))) + j"
    using inv _ i by (rule GetKramaID_roster) simp_all
  have s: "slots_of c i = int k # later_slots c k (entry_KramaID (roster c ! i))" using g(1) by (simp add: slots_of_def)
  have "distinct (slots_of c i)" and "set (slots_of c i) \<subseteq> {0..<int (length (Sets c))}"
    using later_slots_distinct [OF assms(2) [folded c_def], of k "entry_KramaID (roster c ! i)"] g(2)
    unfolding s by fastforce+
  with that [folded c_def, of j k ns] g s show ?thesis by simp
qed

lemma updateSum_spec:
  assumes "distinct slots" and "set slots \<subseteq> {0..<int n}" and "length (vs_sum vs) = n" and "length (vs_votingPowerSum vs) = n"
  shows "\<exists>vs'. updateSum slots vp vs = Some vs' \<and> length (vs_sum vs') = n \<and> length (vs_votingPowerSum vs') = n
    \<and> (\<forall>k < n. vs_sum vs' ! k = vs_sum vs ! k + (if int k \<in> set slots then 1 else 0))
    \<and> vs_votes vs' = vs_votes vs \<and> vs_votesBitArray vs' = vs_votesBitArray vs
    \<and> vs_maj23TsHash vs' = vs_maj23TsHash vs \<and> vs_maj23aggSignature vs' = vs_maj23aggSignature vs
    \<and> vs_view vs' = vs_view vs \<and> vs_votetype vs' = vs_votetype vs"
  using assms
proof (induction slots arbitrary: vs)
  case Nil
  then show ?case by (simp add: updateSum_def)
next
  case (Cons s slots)
  let ?vs = "vs\<lparr>vs_sum := (vs_sum vs)[nat s := vs_sum vs ! nat s + 1],
      vs_votingPowerSum := (vs_votingPowerSum vs)[nat s := int32 (vs_votingPowerSum vs ! nat s + vp)]\<rparr>"
  have s: "0 \<le> s" "s < int n" "s \<notin> set slots" using Cons.prems(1,2) by auto
  have "updateSum (s # slots) vp vs = updateSum slots vp ?vs"
    using s Cons.prems(3,4) by (simp add: updateSum_def go_index_Some)
  moreover obtain vs' where vs': "updateSum slots vp ?vs = Some vs'" "length (vs_sum vs') = n"
      "length (vs_votingPowerSum vs') = n"
      "\<forall>k < n. vs_sum vs' ! k = vs_sum ?vs ! k + (if int k \<in> set slots then 1 else 0)"
      "vs_votes vs' = vs_votes vs" "vs_votesBitArray vs' = vs_votesBitArray vs"
      "vs_maj23TsHash vs' = vs_maj23TsHash vs" "vs_maj23aggSignature vs' = vs_maj23aggSignature vs"
      "vs_view vs' = vs_view vs" "vs_votetype vs' = vs_votetype vs"
    using Cons.IH [of ?vs] Cons.prems by auto
  moreover have "vs_sum vs' ! k = vs_sum vs ! k + (if int k \<in> set (s # slots) then 1 else 0)" if "k < n" for k
    using vs'(4) that s Cons.prems(3) by (cases "int k = s") (auto simp: nth_list_update)
  ultimately show ?case by simp
qed

section \<open>The vote set invariant\<close>

text \<open>The indices whose vote counts for the set at a position.\<close>

definition counted :: "ICSCommittee \<Rightarrow> VoteSet \<Rightarrow> nat \<Rightarrow> nat set" where
  "counted c vs k = {i. i < length (vs_votes vs) \<and> vs_votes vs ! i \<noteq> None \<and> int k \<in> set (slots_of c i)}"

text \<open>A stored vote is backed by a signature on its canonical form: its own, or an aggregated one that
  was checked against the public keys of its signers, this validator among them.\<close>

definition authentic :: "Crypto \<Rightarrow> ICSCommittee \<Rightarrow> nat \<Rightarrow> Vote \<Rightarrow> bool" where
  "authentic cr c i v \<longleftrightarrow> (\<exists>raw. cr_SignBytes cr (canonicalVote v) = Inr raw
     \<and> (cr_Verify cr raw (vote_Signature v) (entry_PublicKey (roster c ! i)) = (True, None)
        \<or> (\<exists>keys. entry_PublicKey (roster c ! i) \<in> set keys
             \<and> cr_VerifyAggregate cr raw (vote_Signature v) keys = (True, None))))"

definition vs_inv :: "Crypto \<Rightarrow> ClusterState \<Rightarrow> Hash \<Rightarrow> VoteSet \<Rightarrow> bool" where
  "vs_inv cr cs h vs \<longleftrightarrow> (let c = cs_committee cs; N = length (roster c); n = length (Sets c) in
     length (vs_votes vs) = N \<and> wf_obits N (vs_votesBitArray vs)
     \<and> obits N (vs_votesBitArray vs) = map (\<lambda>v. v \<noteq> None) (vs_votes vs)
     \<and> length (vs_sum vs) = n \<and> length (vs_votingPowerSum vs) = n
     \<and> (\<forall>k < n. unat (vs_sum vs ! k) = card (counted c vs k))
     \<and> (\<forall>i < N. \<forall>v. vs_votes vs ! i = Some v \<longrightarrow> vote_TSHash v = h \<and> authentic cr c i v)
     \<and> (\<forall>g. vs_maj23TsHash vs = Some g \<longrightarrow> g = h
          \<and> (\<exists>q. cs_quorum cs = Some q \<and> (\<forall>k < n. q ! k \<le> vs_sum vs ! k))))"

lemma vs_invD:
  assumes "vs_inv cr cs h vs"
  shows "length (vs_votes vs) = length (roster (cs_committee cs))"
    and "wf_obits (length (roster (cs_committee cs))) (vs_votesBitArray vs)"
    and "obits (length (roster (cs_committee cs))) (vs_votesBitArray vs) = map (\<lambda>v. v \<noteq> None) (vs_votes vs)"
    and "length (vs_sum vs) = length (Sets (cs_committee cs))"
    and "length (vs_votingPowerSum vs) = length (Sets (cs_committee cs))"
    and "k < length (Sets (cs_committee cs)) \<Longrightarrow> unat (vs_sum vs ! k) = card (counted (cs_committee cs) vs k)"
    and "i < length (roster (cs_committee cs)) \<Longrightarrow> vs_votes vs ! i = Some v \<Longrightarrow>
      vote_TSHash v = h \<and> authentic cr (cs_committee cs) i v"
    and "vs_maj23TsHash vs = Some g \<Longrightarrow> g = h
      \<and> (\<exists>q. cs_quorum cs = Some q \<and> (\<forall>k < length (Sets (cs_committee cs)). q ! k \<le> vs_sum vs ! k))"
  using assms by (simp_all add: vs_inv_def Let_def)

lemma vs_inv_New:
  assumes "cluster_ok cs"
  shows "vs_inv cr cs h (NewVoteSet view t cs)"
  using cluster_okD [OF assms] NewArrayOfBits_obits [of "length (roster (cs_committee cs))"]
  by (simp add: vs_inv_def NewVoteSet_def cs_Size_def TotalNodes_def counted_def Let_def)

lemma vs_inv_cs:
  assumes "cs_committee cs' = cs_committee cs" and "\<And>q. cs_quorum cs = Some q \<Longrightarrow> cs_quorum cs' = Some q"
    and "vs_inv cr cs h vs"
  shows "vs_inv cr cs' h vs"
  using assms by (auto simp: vs_inv_def Let_def)

lemma aggregateSignatures_total:
  assumes "vs_inv cr cs h vs" and "roster (cs_committee cs) \<noteq> []"
  shows "\<exists>r. aggregateSignatures cr vs = Some r"
proof -
  let ?N = "length (roster (cs_committee cs))"
  note inv = vs_invD [OF assms(1)]
  obtain b where b: "vs_votesBitArray vs = Some b" "wf_bits b" "Size b = int ?N"
    using inv(2) assms(2) by (auto simp: wf_obits_def split: option.splits)
  have "\<exists>sigs. those (map (\<lambda>index. Option.bind (go_index (vs_votes vs) index) (map_option vote_Signature))
      (map int (filter (bit_at b) [0..<?N]))) = Some sigs \<and> list_all2 (\<lambda>_ _. True) (map int (filter (bit_at b) [0..<?N])) sigs"
  proof (rule those_map_total)
    fix x assume "x \<in> set (map int (filter (bit_at b) [0..<?N]))"
    then obtain i where i: "x = int i" "i < ?N" "bit_at b i" by auto
    have "vs_votes vs ! i \<noteq> None"
      using arg_cong [OF inv(3), of "\<lambda>l. l ! i"] i inv(1) by (simp add: b(1) obit_def)
    with i inv(1) show "\<exists>y. Option.bind (go_index (vs_votes vs) x) (map_option vote_Signature) = Some y \<and> True" by auto
  qed
  then show ?thesis using b by (auto simp: aggregateSignatures_def GetTrueIndices_eq)
qed

lemma counted_add:
  assumes "i < length (vs_votes vs)" and "vs_votes vs ! i = None"
    and "vs_votes vs' = (vs_votes vs)[i := Some v]"
  shows "card (counted c vs' k) = card (counted c vs k) + (if int k \<in> set (slots_of c i) then 1 else 0)"
proof -
  have "counted c vs' k = (if int k \<in> set (slots_of c i) then insert i (counted c vs k) else counted c vs k)"
    using assms by (auto simp: counted_def nth_list_update)
  moreover have "i \<notin> counted c vs k" using assms(2) by (simp add: counted_def)
  moreover have "finite (counted c vs k)" by (simp add: counted_def)
  ultimately show ?thesis by simp
qed

lemma counted_bound: "card (counted c vs k) \<le> length (vs_votes vs)"
  using card_mono [of "{..<length (vs_votes vs)}" "counted c vs k"] by (auto simp: counted_def)

text \<open>A verified vote of a validator without a vote is stored and counted; a majority that was there
  stays, and one that is reached now is for the hash of the vote.\<close>

lemma addVerifiedVote_new:
  assumes ok: "cluster_ok cs" "sets_distinct (cs_committee cs)" and inv: "vs_inv cr cs h vs"
    and i: "i < length (roster (cs_committee cs))" and free: "vs_votes vs ! i = None"
    and v: "vote_TSHash v = h" "authentic cr (cs_committee cs) i v"
  obtains vs' q where
      "addVerifiedVote cr v 1 (int i) (slots_of (cs_committee cs) i) isQc vs cs = Some (True, vs', cs\<lparr>cs_quorum := Some q\<rparr>)"
    and "vs_inv cr (cs\<lparr>cs_quorum := Some q\<rparr>) h vs'" and "vs_votes vs' = (vs_votes vs)[i := Some v]"
    and "cluster_ok (cs\<lparr>cs_quorum := Some q\<rparr>)" and "\<And>q'. cs_quorum cs = Some q' \<Longrightarrow> q' = q"
    and "\<And>g. vs_maj23TsHash vs = Some g \<Longrightarrow> vs_maj23TsHash vs' = Some g \<and> vs_maj23aggSignature vs' = vs_maj23aggSignature vs"
    and "vs_view vs' = vs_view vs" and "vs_votetype vs' = vs_votetype vs"
proof -
  define c where "c = cs_committee cs"
  let ?N = "length (roster c)" and ?n = "length (Sets c)"
  note D = vs_invD [OF inv, folded c_def]
  have N31: "?N < 2 ^ 31" using cluster_okD(3,4) [OF ok(1)] by (simp add: c_def)
  have slots: "distinct (slots_of c i)" "set (slots_of c i) \<subseteq> {0..<int ?n}"
    using slots_of_roster [OF ok i] unfolding c_def by blast+
  have iN: "i < ?N" using i by (simp add: c_def)
  obtain bits where bits: "SetIndex (vs_votesBitArray vs) (int i) True = Some (True, bits)" "wf_obits ?N bits"
      "obits ?N bits = (obits ?N (vs_votesBitArray vs))[i := True]"
    by (rule SetIndex_obits [OF D(2) iN])
  let ?v0 = "vs\<lparr>vs_votes := (vs_votes vs)[i := Some v], vs_votesBitArray := bits\<rparr>"
  obtain v1 where v1: "updateSum (slots_of c i) 1 ?v0 = Some v1" "length (vs_sum v1) = ?n" "length (vs_votingPowerSum v1) = ?n"
      "\<forall>k < ?n. vs_sum v1 ! k = vs_sum vs ! k + (if int k \<in> set (slots_of c i) then 1 else 0)"
      "vs_votes v1 = (vs_votes vs)[i := Some v]" "vs_votesBitArray v1 = bits" "vs_maj23TsHash v1 = vs_maj23TsHash vs"
      "vs_maj23aggSignature v1 = vs_maj23aggSignature vs" "vs_view v1 = vs_view vs" "vs_votetype v1 = vs_votetype vs"
    using updateSum_spec [OF slots, of ?v0 1] D(4,5) by auto
  obtain q where q: "GetQuorum cs = Some (q, cs\<lparr>cs_quorum := Some q\<rparr>)" "length q = ?n" "cluster_ok (cs\<lparr>cs_quorum := Some q\<rparr>)"
    by (rule GetQuorum_total [OF ok(1), folded c_def])
  have qq: "q' = q" if "cs_quorum cs = Some q'" for q' using q(1) that by (simp add: GetQuorum_def)
  have sum: "unat (vs_sum v1 ! k) = card (counted c v1 k)" if k: "k < ?n" for k
  proof -
    have "card (counted c v1 k) = card (counted c vs k) + (if int k \<in> set (slots_of c i) then 1 else 0)"
      using counted_add [of i vs v1 v c k] iN D(1) free v1(5) by simp
    moreover have "card (counted c v1 k) < 2 ^ 31" using counted_bound [of c v1 k] D(1) N31 v1(5) by simp
    ultimately show ?thesis using v1(4) k D(6) [OF k] by (auto simp: unat_word_ariths)
  qed
  have mono: "vs_sum vs ! k \<le> vs_sum v1 ! k" if k: "k < ?n" for k
    using sum [OF k] D(6) [OF k] counted_add [of i vs v1 v c k] iN D(1) free v1(5)
    by (simp add: word_le_nat_alt)
  let ?cs = "cs\<lparr>cs_quorum := Some q\<rparr>"
  have maj: "g = h \<and> (\<forall>k < ?n. q ! k \<le> vs_sum v1 ! k)" if "vs_maj23TsHash vs = Some g" for g
  proof -
    from D(8) [OF that] obtain q' where "g = h" "cs_quorum cs = Some q'" "\<forall>k < ?n. q' ! k \<le> vs_sum vs ! k" by blast
    moreover from this have "q' = q" using qq by simp
    ultimately show ?thesis using mono order_trans by blast
  qed
  have stored: "vote_TSHash w = h \<and> authentic cr c j w" if "j < ?N" "vs_votes v1 ! j = Some w" for j w
    using that D(1,7) v v1(5) iN by (cases "j = i") (auto simp: c_def)
  have inv1: "vs_inv cr ?cs h v1"
    unfolding vs_inv_def Let_def
    using D(1,3) bits(2,3) v1(2,3,5,6,7) sum stored maj by (auto simp: c_def [symmetric] map_update)
  have greater: "areGreater (vs_sum v1) q = Some (\<forall>k < ?n. q ! k \<le> vs_sum v1 ! k)"
    using areGreater_eq [of "vs_sum v1" q] v1(2) q(2) by simp
  have idx: "go_index (vs_votes vs) (int i) = Some None" "go_update (vs_votes vs) (int i) (Some v) = Some ((vs_votes vs)[i := Some v])"
    using iN D(1) free by simp_all
  have step: "addVerifiedVote cr v 1 (int i) (slots_of c i) isQc vs cs =
      (if vs_maj23TsHash v1 \<noteq> None then Some (True, v1, ?cs)
       else if \<not> (\<forall>k < ?n. q ! k \<le> vs_sum v1 ! k) then Some (True, v1, ?cs)
       else do {
         aggSig \<leftarrow> (if \<not> isQc then map_option (case_sum (\<lambda>_. []) (\<lambda>s. s)) (aggregateSignatures cr v1) else Some (vote_Signature v));
         Some (True, v1\<lparr>vs_maj23TsHash := Some (vote_TSHash v), vs_maj23aggSignature := aggSig\<rparr>, ?cs) })"
    unfolding addVerifiedVote_def idx bits(1) by (simp add: v1(1) q(1) greater)
  show ?thesis
  proof (cases "vs_maj23TsHash v1 \<noteq> None \<or> \<not> (\<forall>k < ?n. q ! k \<le> vs_sum v1 ! k)")
    case True
    then have "addVerifiedVote cr v 1 (int i) (slots_of c i) isQc vs cs = Some (True, v1, ?cs)" using step by auto
    then show ?thesis
      by (rule that [folded c_def, OF _ inv1 v1(5) q(3) qq]) (simp_all add: v1(7-10))
  next
    case False
    have "roster (cs_committee ?cs) \<noteq> []" using iN by (auto simp: c_def)
    then obtain r where r: "aggregateSignatures cr v1 = Some r" using aggregateSignatures_total [OF inv1] by blast
    obtain agg where agg: "addVerifiedVote cr v 1 (int i) (slots_of c i) isQc vs cs
        = Some (True, v1\<lparr>vs_maj23TsHash := Some (vote_TSHash v), vs_maj23aggSignature := agg\<rparr>, ?cs)"
      using step False r by (cases isQc) auto
    have "vs_inv cr ?cs h (v1\<lparr>vs_maj23TsHash := Some (vote_TSHash v), vs_maj23aggSignature := agg\<rparr>)"
      using inv1 False v(1) by (auto simp: vs_inv_def Let_def counted_def c_def [symmetric])
    from that [folded c_def, OF agg this _ q(3) qq] show ?thesis using v1(5,7-10) False by simp
  qed
qed

section \<open>How vote sets evolve\<close>

text \<open>The cluster state changes in its cached quorum only, and only by filling it.\<close>

definition cs_ext :: "ClusterState \<Rightarrow> ClusterState \<Rightarrow> bool" where
  "cs_ext cs cs' \<longleftrightarrow> (\<exists>q. cs' = cs\<lparr>cs_quorum := q\<rparr> \<and> (cs_quorum cs \<noteq> None \<longrightarrow> q = cs_quorum cs))"

text \<open>A vote set keeps its votes and its majority.\<close>

definition vs_next :: "Crypto \<Rightarrow> Hash \<Rightarrow> VoteSet \<times> ClusterState \<Rightarrow> VoteSet \<times> ClusterState \<Rightarrow> bool" where
  "vs_next cr h = (\<lambda>(vs, cs) (vs', cs'). cs_ext cs cs' \<and> cluster_ok cs' \<and> vs_inv cr cs' h vs'
     \<and> (\<forall>i v. i < length (vs_votes vs) \<longrightarrow> vs_votes vs ! i = Some v \<longrightarrow> vs_votes vs' ! i = Some v)
     \<and> (vs_maj23TsHash vs \<noteq> None \<longrightarrow> vs_maj23TsHash vs' = vs_maj23TsHash vs \<and> vs_maj23aggSignature vs' = vs_maj23aggSignature vs)
     \<and> vs_view vs' = vs_view vs \<and> vs_votetype vs' = vs_votetype vs)"

lemma cs_ext_refl [simp]: "cs_ext cs cs"
  unfolding cs_ext_def by (rule exI [of _ "cs_quorum cs"]) simp

lemma cs_ext_trans:
  assumes "cs_ext a b" and "cs_ext b c"
  shows "cs_ext a c"
proof -
  obtain q where q: "b = a\<lparr>cs_quorum := q\<rparr>" "cs_quorum a \<noteq> None \<longrightarrow> q = cs_quorum a"
    using assms(1) by (auto simp: cs_ext_def)
  obtain r where r: "c = b\<lparr>cs_quorum := r\<rparr>" "cs_quorum b \<noteq> None \<longrightarrow> r = cs_quorum b"
    using assms(2) by (auto simp: cs_ext_def)
  have "c = a\<lparr>cs_quorum := r\<rparr>" using q(1) r(1) by simp
  moreover have "cs_quorum a \<noteq> None \<longrightarrow> r = cs_quorum a" using q r(2) by auto
  ultimately show ?thesis unfolding cs_ext_def by blast
qed

lemma cs_ext_same: "cs_ext cs cs' \<Longrightarrow> cs_committee cs' = cs_committee cs \<and> cs_currentView cs' = cs_currentView cs
    \<and> cs_operator cs' = cs_operator cs \<and> cs_selfID cs' = cs_selfID cs"
  by (auto simp: cs_ext_def)

lemma cs_ext_quorum: "cs_ext cs cs' \<Longrightarrow> cs_quorum cs = Some q \<Longrightarrow> cs_quorum cs' = Some q"
  by (auto simp: cs_ext_def)

lemma vs_next_refl: "cluster_ok cs \<Longrightarrow> vs_inv cr cs h vs \<Longrightarrow> vs_next cr h (vs, cs) (vs, cs)"
  by (simp add: vs_next_def)

lemma vs_nextD:
  assumes "vs_next cr h (vs, cs) (vs', cs')"
  shows "cs_ext cs cs'" and "cluster_ok cs'" and "vs_inv cr cs' h vs'"
    and "i < length (vs_votes vs) \<Longrightarrow> vs_votes vs ! i = Some v \<Longrightarrow> vs_votes vs' ! i = Some v"
    and "vs_maj23TsHash vs \<noteq> None \<Longrightarrow> vs_maj23TsHash vs' = vs_maj23TsHash vs \<and> vs_maj23aggSignature vs' = vs_maj23aggSignature vs"
    and "vs_view vs' = vs_view vs \<and> vs_votetype vs' = vs_votetype vs"
  using assms by (auto simp: vs_next_def)

lemma vs_next_trans:
  assumes "vs_next cr h (a, x) (b, y)" and "vs_next cr h (b, y) (d, z)" and "vs_inv cr x h a"
  shows "vs_next cr h (a, x) (d, z)"
proof -
  note p = vs_nextD [OF assms(1)] and q = vs_nextD [OF assms(2)]
  have len: "length (vs_votes a) = length (vs_votes b)"
    using vs_invD(1) [OF assms(3)] vs_invD(1) [OF p(3)] cs_ext_same [OF p(1)] by simp
  show ?thesis
    unfolding vs_next_def using cs_ext_trans [OF p(1) q(1)] q(2,3) p(4-6) q(4-6) len by auto
qed

lemma addVerifiedVote_step:
  assumes "cluster_ok cs" "sets_distinct (cs_committee cs)" and "vs_inv cr cs h vs"
    and "i < length (roster (cs_committee cs))" and "vote_TSHash v = h" "authentic cr (cs_committee cs) i v"
  obtains vs' cs' where "addVerifiedVote cr v 1 (int i) (slots_of (cs_committee cs) i) isQc vs cs
      = Some (vs_votes vs ! i = None, vs', cs')"
    and "vs_next cr h (vs, cs) (vs', cs')"
    and "vs_votes vs' = (if vs_votes vs ! i = None then (vs_votes vs)[i := Some v] else vs_votes vs)"
    and "vs_votes vs ! i \<noteq> None \<Longrightarrow> vs' = vs \<and> cs' = cs"
proof (cases "vs_votes vs ! i")
  case None
  obtain vs' q where a: "addVerifiedVote cr v 1 (int i) (slots_of (cs_committee cs) i) isQc vs cs = Some (True, vs', cs\<lparr>cs_quorum := Some q\<rparr>)"
      "vs_inv cr (cs\<lparr>cs_quorum := Some q\<rparr>) h vs'" "vs_votes vs' = (vs_votes vs)[i := Some v]"
      "cluster_ok (cs\<lparr>cs_quorum := Some q\<rparr>)" "\<And>q'. cs_quorum cs = Some q' \<Longrightarrow> q' = q"
      "\<And>g. vs_maj23TsHash vs = Some g \<Longrightarrow> vs_maj23TsHash vs' = Some g \<and> vs_maj23aggSignature vs' = vs_maj23aggSignature vs"
      "vs_view vs' = vs_view vs" "vs_votetype vs' = vs_votetype vs"
    using addVerifiedVote_new [OF assms(1-4) None assms(5,6), of isQc] by blast
  have "cs_ext cs (cs\<lparr>cs_quorum := Some q\<rparr>)"
    unfolding cs_ext_def using a(5) by (intro exI [of _ "Some q"]) auto
  moreover have "vs_votes vs' ! j = Some w" if "vs_votes vs ! j = Some w" for j w
    using a(3) None that by (cases "j = i") auto
  ultimately have "vs_next cr h (vs, cs) (vs', cs\<lparr>cs_quorum := Some q\<rparr>)"
    using a(2,4,6-8) by (auto simp: vs_next_def)
  with that [OF _ this] a(1,3) None show ?thesis by simp
next
  case (Some w)
  then have "addVerifiedVote cr v 1 (int i) (slots_of (cs_committee cs) i) isQc vs cs = Some (False, vs, cs)"
    using assms(4) vs_invD(1) [OF assms(3)] by (simp add: addVerifiedVote_def)
  with that [OF _ vs_next_refl [OF assms(1,3)]] Some show ?thesis by simp
qed

section \<open>Adding votes and certificates\<close>

text \<open>The votes a vote set accepts: the right type, view and hash, signed by a validator of the
  committee.\<close>

definition acceptable :: "Crypto \<Rightarrow> ClusterState \<Rightarrow> Hash \<Rightarrow> VoteSet \<Rightarrow> Vote \<Rightarrow> bool" where
  "acceptable cr cs h vs v \<longleftrightarrow> 0 \<le> vote_SignerIndex v \<and> vote_SignerIndex v < TotalNodes (cs_committee cs)
     \<and> vote_View v = vs_view vs \<and> vote_Type v = vs_votetype vs \<and> vote_TSHash v = h
     \<and> (\<exists>raw. cr_SignBytes cr (canonicalVote v) = Inr raw
          \<and> cr_Verify cr raw (vote_Signature v) (entry_PublicKey (roster (cs_committee cs) ! nat (vote_SignerIndex v))) = (True, None))"

lemma GetByIndex_roster:
  assumes "cluster_ok cs" "sets_distinct (cs_committee cs)" and "i < length (roster (cs_committee cs))"
  shows "GetByIndex cs (int i) = Some (entry_KramaID (roster (cs_committee cs) ! i), entry_PublicKey (roster (cs_committee cs) ! i))"
    and "getSumIndex cs (int i) = Some (Inr (slots_of (cs_committee cs) i))"
    and "entry_KramaID (roster (cs_committee cs) ! i) \<noteq> ''''"
proof -
  obtain j where g: "GetKramaID (cs_committee cs) (int i) = Some (Some (slots_of (cs_committee cs) i), int j,
      entry_KramaID (roster (cs_committee cs) ! i), entry_PublicKey (roster (cs_committee cs) ! i))"
    using slots_of_roster [OF assms] by blast
  show "GetByIndex cs (int i) = Some (entry_KramaID (roster (cs_committee cs) ! i), entry_PublicKey (roster (cs_committee cs) ! i))"
    and "getSumIndex cs (int i) = Some (Inr (slots_of (cs_committee cs) i))"
    by (simp_all add: GetByIndex_def getSumIndex_def g)
  show "entry_KramaID (roster (cs_committee cs) ! i) \<noteq> ''''"
    using assms(1,3) by (auto simp: cluster_ok_def)
qed

lemma AddVote_spec:
  assumes "cluster_ok cs" "sets_distinct (cs_committee cs)" and "vs_inv cr cs h vs"
  obtains err vs' cs' where "AddVote cr (Some v) h vs cs
      = Some ((acceptable cr cs h vs v \<and> vs_votes vs ! nat (vote_SignerIndex v) = None, err), vs', cs')"
    and "vs_next cr h (vs, cs) (vs', cs')" and "err = None \<longleftrightarrow> acceptable cr cs h vs v"
    and "vs_votes vs' = (if acceptable cr cs h vs v \<and> vs_votes vs ! nat (vote_SignerIndex v) = None
          then (vs_votes vs)[nat (vote_SignerIndex v) := Some v] else vs_votes vs)"
    and "\<not> acceptable cr cs h vs v \<or> vs_votes vs ! nat (vote_SignerIndex v) \<noteq> None \<Longrightarrow> vs' = vs \<and> cs' = cs"
proof -
  let ?c = "cs_committee cs"
  have total: "TotalNodes ?c = int (length (roster ?c))" using cluster_okD(4) [OF assms(1)] by (simp add: TotalNodes_def)
  show ?thesis
  proof (cases "acceptable cr cs h vs v")
    case True
    then obtain i where i: "vote_SignerIndex v = int i" "i < length (roster ?c)"
      using total by (auto simp: acceptable_def elim: nonneg_int_obtain)
    have h: "vote_TSHash v = h" and auth: "authentic cr ?c i v"
      using True i(1) by (auto simp: acceptable_def authentic_def)
    obtain vs' cs' where a: "addVerifiedVote cr v 1 (int i) (slots_of ?c i) False vs cs = Some (vs_votes vs ! i = None, vs', cs')"
        "vs_next cr h (vs, cs) (vs', cs')"
        "vs_votes vs' = (if vs_votes vs ! i = None then (vs_votes vs)[i := Some v] else vs_votes vs)"
        "vs_votes vs ! i \<noteq> None \<Longrightarrow> vs' = vs \<and> cs' = cs"
      using addVerifiedVote_step [OF assms i(2) h auth, of False] by blast
    have "AddVote cr (Some v) h vs cs = Some ((vs_votes vs ! i = None, None), vs', cs')"
      using True GetByIndex_roster [OF assms(1,2) i(2)] a(1)
      by (auto simp: AddVote_def acceptable_def i(1) Let_def)
    with that [of None vs' cs'] a True i(1) show ?thesis by simp
  next
    case False
    have "\<exists>err. AddVote cr (Some v) h vs cs = Some ((False, Some err), vs, cs)"
    proof (cases "0 \<le> vote_SignerIndex v \<and> vote_SignerIndex v < TotalNodes ?c")
      case True
      then obtain i where i: "vote_SignerIndex v = int i" "i < length (roster ?c)"
        using total by (auto elim: nonneg_int_obtain)
      show ?thesis
        using False True GetByIndex_roster [OF assms(1,2) i(2)]
        by (auto simp: AddVote_def acceptable_def i(1) Let_def split: sum.splits option.splits prod.splits)
    next
      case out: False
      then have "vote_SignerIndex v < 0 \<or> GetByIndex cs (vote_SignerIndex v) = Some ('''', [])"
        by (auto simp: GetByIndex_def GetKramaID_def TotalNodes_def)
      then show ?thesis by (auto simp: AddVote_def Let_def)
    qed
    then obtain err where "AddVote cr (Some v) h vs cs = Some ((False, Some err), vs, cs)" by blast
    with that [of "Some err" vs cs] vs_next_refl [OF assms(1,3)] False show ?thesis by simp
  qed
qed

lemma qc_signers_eq:
  assumes "cluster_ok cs" "sets_distinct (cs_committee cs)" and "\<forall>i \<in> set is. i < 2 ^ 31"
  shows "qc_signers cs (map int is) =
    Some (if \<forall>i \<in> set is. i < length (roster (cs_committee cs))
      then Some (map (\<lambda>i. entry_PublicKey (roster (cs_committee cs) ! i)) is, map (\<lambda>i. (int i, slots_of (cs_committee cs) i)) is)
      else None)"
  using assms(3)
proof (induction "is")
  case Nil
  then show ?case by simp
next
  case (Cons i "is")
  have i32: "int32 (int i) = int i" using Cons.prems by simp
  show ?case
  proof (cases "i < length (roster (cs_committee cs))")
    case True
    obtain j where g: "GetKramaID (cs_committee cs) (int i) = Some (Some (slots_of (cs_committee cs) i), int j,
        entry_KramaID (roster (cs_committee cs) ! i), entry_PublicKey (roster (cs_committee cs) ! i))"
      using slots_of_roster [OF assms(1,2) True] by blast
    with True Cons GetByIndex_roster(3) [OF assms(1,2) True] show ?thesis by (simp add: i32)
  next
    case False
    then have "GetKramaID (cs_committee cs) (int i) = Some (None, -1, '''', [])"
      using cluster_okD(4) [OF assms(1)] by (simp add: GetKramaID_def)
    with False show ?thesis by (simp add: i32)
  qed
qed

text \<open>The certificates a vote set accepts.\<close>

definition acceptable_qc :: "Crypto \<Rightarrow> ClusterState \<Rightarrow> Hash \<Rightarrow> ArrayOfBits \<Rightarrow> Vote \<Rightarrow> bool" where
  "acceptable_qc cr cs h b v \<longleftrightarrow> 0 \<le> vote_SignerIndex v \<and> vote_TSHash v = h
     \<and> (\<forall>i. bit_at b i \<longrightarrow> i < length (roster (cs_committee cs)))
     \<and> (\<exists>raw. cr_SignBytes cr (canonicalVote v) = Inr raw
          \<and> cr_VerifyAggregate cr raw (vote_Signature v)
              (map (\<lambda>i. entry_PublicKey (roster (cs_committee cs) ! i)) (filter (bit_at b) [0..<nat (Size b)])) = (True, None))"

lemma add_signers:
  assumes "cluster_ok cs" "sets_distinct (cs_committee cs)" "vs_inv cr cs h vs"
    and "\<forall>i \<in> set is. i < length (roster (cs_committee cs)) \<and> authentic cr (cs_committee cs) i v \<and> i < 2 ^ 31"
    and "vote_TSHash v = h"
  shows "\<exists>vs' cs'. foldM (\<lambda>(valIndex, slots) (vs, cs). do {
        (_, vs', cs') \<leftarrow> addVerifiedVote cr v 1 (int32 valIndex) slots True vs cs;
        Some (vs', cs') }) (map (\<lambda>i. (int i, slots_of (cs_committee cs) i)) is) (vs, cs) = Some (vs', cs')
    \<and> vs_next cr h (vs, cs) (vs', cs') \<and> (\<forall>i \<in> set is. vs_votes vs' ! i \<noteq> None)"
  using assms
proof (induction "is" arbitrary: vs cs)
  case Nil
  then show ?case using vs_next_refl by simp
next
  case (Cons i "is")
  have i: "i < length (roster (cs_committee cs))" "authentic cr (cs_committee cs) i v" "int32 (int i) = int i"
    using Cons.prems(4) by auto
  obtain vs1 cs1 where s: "addVerifiedVote cr v 1 (int i) (slots_of (cs_committee cs) i) True vs cs = Some (vs_votes vs ! i = None, vs1, cs1)"
      "vs_next cr h (vs, cs) (vs1, cs1)"
      "vs_votes vs1 = (if vs_votes vs ! i = None then (vs_votes vs)[i := Some v] else vs_votes vs)"
    by (rule addVerifiedVote_step [OF Cons.prems(1-3) i(1) Cons.prems(5) i(2), of True])
  have c1: "cs_committee cs1 = cs_committee cs" using cs_ext_same [OF vs_nextD(1) [OF s(2)]] by simp
  obtain vs2 cs2 where r: "foldM (\<lambda>(valIndex, slots) (vs, cs). do {
        (_, vs', cs') \<leftarrow> addVerifiedVote cr v 1 (int32 valIndex) slots True vs cs;
        Some (vs', cs') }) (map (\<lambda>i. (int i, slots_of (cs_committee cs1) i)) is) (vs1, cs1) = Some (vs2, cs2)"
      "vs_next cr h (vs1, cs1) (vs2, cs2)" "\<forall>i \<in> set is. vs_votes vs2 ! i \<noteq> None"
    using Cons.IH [OF vs_nextD(2) [OF s(2)] _ vs_nextD(3) [OF s(2)]] Cons.prems(2,4,5) c1 by auto
  have len: "length (vs_votes vs1) = length (roster (cs_committee cs))"
    using vs_invD(1) [OF vs_nextD(3) [OF s(2)]] c1 by simp
  have "vs_votes vs1 ! i \<noteq> None" using s(3) i(1) len by auto
  then have "vs_votes vs2 ! i \<noteq> None" using vs_nextD(4) [OF r(2)] i(1) len by auto
  with r vs_next_trans [OF s(2) r(2) Cons.prems(3)] s(1) i(3) c1 show ?case by simp
qed

lemma AddQc_spec:
  assumes "cluster_ok cs" "sets_distinct (cs_committee cs)" and "vs_inv cr cs h vs"
    and b: "vote_SignerIndices v = Some b" "wf_bits b" "Size b < 2 ^ 31"
  obtains err vs' cs' where "AddQc cr (Some v) h vs cs = Some ((acceptable_qc cr cs h b v, err), vs', cs')"
    and "vs_next cr h (vs, cs) (vs', cs')"
    and "acceptable_qc cr cs h b v \<Longrightarrow> err = None \<and> (\<forall>i. bit_at b i \<longrightarrow> vs_votes vs' ! i \<noteq> None)"
    and "\<not> acceptable_qc cr cs h b v \<Longrightarrow> vs' = vs \<and> cs' = cs"
proof -
  let ?c = "cs_committee cs" and ?is = "filter (bit_at b) [0..<nat (Size b)]"
  have mem: "i \<in> set ?is \<longleftrightarrow> bit_at b i" for i by (auto simp: bit_at_def)
  have small: "\<forall>i \<in> set ?is. i < 2 ^ 31" using b(3) by auto
  have idx: "GetTrueIndices b = Some (map int ?is)" using b(2) by (rule GetTrueIndices_eq)
  note sig = qc_signers_eq [OF assms(1,2) small]
  show ?thesis
  proof (cases "acceptable_qc cr cs h b v")
    case True
    then have "\<forall>i \<in> set ?is. i < length (roster ?c)" and h: "vote_TSHash v = h"
      and auth: "\<forall>i \<in> set ?is. i < length (roster ?c) \<and> authentic cr ?c i v \<and> i < 2 ^ 31"
      using small by (auto simp: acceptable_qc_def authentic_def mem simp del: set_filter)
    obtain vs' cs' where f: "foldM (\<lambda>(valIndex, slots) (vs, cs). do {
          (_, vs', cs') \<leftarrow> addVerifiedVote cr v 1 (int32 valIndex) slots True vs cs;
          Some (vs', cs') }) (map (\<lambda>i. (int i, slots_of ?c i)) ?is) (vs, cs) = Some (vs', cs')"
        "vs_next cr h (vs, cs) (vs', cs')" "\<forall>i \<in> set ?is. vs_votes vs' ! i \<noteq> None"
      using add_signers [OF assms(1-3) auth h] by blast
    have "AddQc cr (Some v) h vs cs = Some ((True, None), vs', cs')"
      using True \<open>\<forall>i \<in> set ?is. i < length (roster ?c)\<close> f(1)
      by (auto simp: AddQc_def acceptable_qc_def b(1) idx sig simp del: set_filter)
    with that [of None vs' cs'] f(2,3) True mem show ?thesis by (simp del: set_filter)
  next
    case False
    have "\<exists>err. AddQc cr (Some v) h vs cs = Some ((False, err), vs, cs)"
    proof (cases "\<forall>i \<in> set ?is. i < length (roster ?c)")
      case True
      with False show ?thesis
        by (auto simp: AddQc_def acceptable_qc_def b(1) idx sig mem split: sum.splits prod.splits simp del: set_filter)
    next
      case out: False
      then show ?thesis by (auto simp: AddQc_def b(1) idx sig simp del: set_filter)
    qed
    then obtain err where "AddQc cr (Some v) h vs cs = Some ((False, err), vs, cs)" by blast
    with that [of err vs cs] vs_next_refl [OF assms(1,3)] False show ?thesis by simp
  qed
qed

section \<open>Runs of the vote sets\<close>

text \<open>
  A majority, once reached, is kept by every later step: the client may read it at any time.
\<close>

locale majority_keeper =
  fixes step :: "'s \<Rightarrow> 's \<Rightarrow> bool"
    and valid :: "'s \<Rightarrow> bool"
    and majority :: "'s \<Rightarrow> 't \<Rightarrow> Hash option"
  assumes step_valid: "valid s \<Longrightarrow> step s s' \<Longrightarrow> valid s'"
    and step_keeps: "valid s \<Longrightarrow> step s s' \<Longrightarrow> majority s t = Some h \<Longrightarrow> majority s' t = Some h"
begin

lemma run_valid: "step\<^sup>*\<^sup>* s s' \<Longrightarrow> valid s \<Longrightarrow> valid s'"
  by (induction rule: rtranclp_induct) (auto intro: step_valid)

lemma run_keeps: "step\<^sup>*\<^sup>* s s' \<Longrightarrow> valid s \<Longrightarrow> majority s t = Some h \<Longrightarrow> majority s' t = Some h"
proof (induction rule: rtranclp_induct)
  case base
  then show ?case by simp
next
  case (step y z)
  then show ?case using step_keeps run_valid by blast
qed

lemma run_agrees:
  assumes "step\<^sup>*\<^sup>* s s'" and "valid s" and "majority s t = Some h" and "majority s' t = Some h'"
  shows "h' = h"
  using run_keeps [OF assms(1-3)] assms(4) by simp

end

definition hvs_inv :: "Crypto \<Rightarrow> HeightVoteSet \<times> ClusterState \<Rightarrow> bool" where
  "hvs_inv cr = (\<lambda>(hvs, cs). cluster_ok cs \<and> sets_distinct (cs_committee cs)
     \<and> vs_inv cr cs (hvs_tsHash hvs) (hvs_Prevotes hvs) \<and> vs_inv cr cs (hvs_tsHash hvs) (hvs_Precommits hvs)
     \<and> vs_votetype (hvs_Prevotes hvs) = PREVOTE \<and> vs_votetype (hvs_Precommits hvs) = PRECOMMIT)"

definition hvs_majority :: "HeightVoteSet \<times> ClusterState \<Rightarrow> ConsensusMsgType \<Rightarrow> Hash option" where
  "hvs_majority s t = Option.bind (getVoteSet (fst s) t) vs_maj23TsHash"

text \<open>The steps of a run; a certificate carries a well-formed set of signers.\<close>

inductive hvs_step :: "Crypto \<Rightarrow> HeightVoteSet \<times> ClusterState \<Rightarrow> HeightVoteSet \<times> ClusterState \<Rightarrow> bool" for cr where
  vote: "hvs_AddVote cr v hvs cs = Some (r, hvs', cs') \<Longrightarrow> hvs_step cr (hvs, cs) (hvs', cs')"
| qc: "vote_SignerIndices v = Some b \<Longrightarrow> wf_bits b \<Longrightarrow> Size b < 2 ^ 31 \<Longrightarrow>
    hvs_AddQC cr v hvs cs = Some (r, hvs', cs') \<Longrightarrow> hvs_step cr (hvs, cs) (hvs', cs')"

lemma hvs_put:
  assumes "hvs_inv cr (hvs, cs)" and "getVoteSet hvs t = Some vs" and "vs_next cr (hvs_tsHash hvs) (vs, cs) (vs', cs')"
  shows "hvs_inv cr (putVoteSet t vs' hvs, cs')"
    and "hvs_majority (hvs, cs) u = Some h \<Longrightarrow> hvs_majority (putVoteSet t vs' hvs, cs') u = Some h"
proof -
  note n = vs_nextD [OF assms(3)]
  have other: "vs_inv cr cs' (hvs_tsHash hvs) w" if "vs_inv cr cs (hvs_tsHash hvs) w" for w
    by (rule vs_inv_cs [OF _ _ that]) (use cs_ext_same [OF n(1)] cs_ext_quorum [OF n(1)] in auto)
  show "hvs_inv cr (putVoteSet t vs' hvs, cs')"
    using assms(1,2) n(2,3,6) other cs_ext_same [OF n(1)]
    by (auto simp: hvs_inv_def getVoteSet_def putVoteSet_def split: if_splits)
  show "hvs_majority (putVoteSet t vs' hvs, cs') u = Some h" if "hvs_majority (hvs, cs) u = Some h"
    using that assms(2) n(5)
    by (auto simp: hvs_majority_def getVoteSet_def putVoteSet_def split: if_splits)
qed

lemma hvs_getVoteSet_inv:
  "hvs_inv cr (hvs, cs) \<Longrightarrow> getVoteSet hvs t = Some vs \<Longrightarrow>
    cluster_ok cs \<and> sets_distinct (cs_committee cs) \<and> vs_inv cr cs (hvs_tsHash hvs) vs \<and> vs_votetype vs = t"
  by (auto simp: hvs_inv_def getVoteSet_def split: if_splits)

lemma hvs_AddVote_next:
  assumes "hvs_inv cr (hvs, cs)" and "getVoteSet hvs (vote_Type v) = Some vs"
  obtains err vs' cs' where "hvs_AddVote cr v hvs cs
      = Some ((acceptable cr cs (hvs_tsHash hvs) vs v \<and> vs_votes vs ! nat (vote_SignerIndex v) = None, err),
              putVoteSet (vote_Type v) vs' hvs, cs')"
    and "vs_next cr (hvs_tsHash hvs) (vs, cs) (vs', cs')"
    and "vs_votes vs' = (if acceptable cr cs (hvs_tsHash hvs) vs v \<and> vs_votes vs ! nat (vote_SignerIndex v) = None
          then (vs_votes vs)[nat (vote_SignerIndex v) := Some v] else vs_votes vs)"
proof -
  have inv: "cluster_ok cs" "sets_distinct (cs_committee cs)" "vs_inv cr cs (hvs_tsHash hvs) vs"
    using hvs_getVoteSet_inv [OF assms] by auto
  obtain err vs' cs' where "AddVote cr (Some v) (hvs_tsHash hvs) vs cs
      = Some ((acceptable cr cs (hvs_tsHash hvs) vs v \<and> vs_votes vs ! nat (vote_SignerIndex v) = None, err), vs', cs')"
      "vs_next cr (hvs_tsHash hvs) (vs, cs) (vs', cs')"
      "vs_votes vs' = (if acceptable cr cs (hvs_tsHash hvs) vs v \<and> vs_votes vs ! nat (vote_SignerIndex v) = None
          then (vs_votes vs)[nat (vote_SignerIndex v) := Some v] else vs_votes vs)"
    by (rule AddVote_spec [OF inv])
  with that assms(2) show ?thesis by (simp add: hvs_AddVote_def)
qed

lemma hvs_AddQC_next:
  assumes "hvs_inv cr (hvs, cs)" and "getVoteSet hvs (vote_Type v) = Some vs"
    and "vote_SignerIndices v = Some b" "wf_bits b" "Size b < 2 ^ 31"
  obtains r vs' cs' where "hvs_AddQC cr v hvs cs = Some (r, putVoteSet (vote_Type v) vs' hvs, cs')"
    and "vs_next cr (hvs_tsHash hvs) (vs, cs) (vs', cs')"
proof -
  have inv: "cluster_ok cs" "sets_distinct (cs_committee cs)" "vs_inv cr cs (hvs_tsHash hvs) vs"
    using hvs_getVoteSet_inv [OF assms(1,2)] by auto
  obtain err vs' cs' where "AddQc cr (Some v) (hvs_tsHash hvs) vs cs = Some ((acceptable_qc cr cs (hvs_tsHash hvs) b v, err), vs', cs')"
      "vs_next cr (hvs_tsHash hvs) (vs, cs) (vs', cs')"
    by (rule AddQc_spec [OF inv assms(3-5)])
  with that assms(2) show ?thesis by (simp add: hvs_AddQC_def)
qed

lemma hvs_step_next:
  assumes "hvs_step cr s s'" and "hvs_inv cr s"
  shows "hvs_inv cr s' \<and> (\<forall>u h. hvs_majority s u = Some h \<longrightarrow> hvs_majority s' u = Some h) \<and> hvs_tsHash (fst s') = hvs_tsHash (fst s)
    \<and> cs_ext (snd s) (snd s')"
  using assms
proof (induction rule: hvs_step.induct)
  case (vote v hvs cs r hvs' cs')
  obtain vs where vs: "getVoteSet hvs (vote_Type v) = Some vs" using vote.hyps by (auto simp: hvs_AddVote_def bind_eq_Some_conv)
  obtain err vs1 cs1 where n: "hvs_AddVote cr v hvs cs = Some ((acceptable cr cs (hvs_tsHash hvs) vs v
        \<and> vs_votes vs ! nat (vote_SignerIndex v) = None, err), putVoteSet (vote_Type v) vs1 hvs, cs1)"
      "vs_next cr (hvs_tsHash hvs) (vs, cs) (vs1, cs1)"
    by (rule hvs_AddVote_next [OF vote.prems vs])
  then have e: "hvs' = putVoteSet (vote_Type v) vs1 hvs" "cs' = cs1" using vote.hyps by simp_all
  show ?case
    unfolding e using hvs_put [OF vote.prems vs n(2)] vs_nextD(1) [OF n(2)] by (auto simp: putVoteSet_def)
next
  case (qc v b hvs cs r hvs' cs')
  obtain vs where vs: "getVoteSet hvs (vote_Type v) = Some vs" using qc.hyps(4) by (auto simp: hvs_AddQC_def bind_eq_Some_conv)
  obtain r1 vs1 cs1 where n: "hvs_AddQC cr v hvs cs = Some (r1, putVoteSet (vote_Type v) vs1 hvs, cs1)"
      "vs_next cr (hvs_tsHash hvs) (vs, cs) (vs1, cs1)"
    by (rule hvs_AddQC_next [OF qc.prems vs qc.hyps(1-3)])
  then have e: "hvs' = putVoteSet (vote_Type v) vs1 hvs" "cs' = cs1" using qc.hyps(4) by simp_all
  show ?case
    unfolding e using hvs_put [OF qc.prems vs n(2)] vs_nextD(1) [OF n(2)] by (auto simp: putVoteSet_def)
qed

interpretation hv: majority_keeper "hvs_step cr" "hvs_inv cr" hvs_majority for cr
  by unfold_locales (use hvs_step_next in blast)+

lemma hvs_inv_start:
  assumes "cluster_ok cs" and "sets_distinct (cs_committee cs)"
  shows "hvs_inv cr (SetTSHash h (NewHeightVoteSet cs), cs)"
  using assms vs_inv_New [OF assms(1)]
  by (simp add: hvs_inv_def SetTSHash_def NewHeightVoteSet_def Reset_def) (simp add: NewVoteSet_def)

lemma hvs_run_frame:
  assumes "(hvs_step cr)\<^sup>*\<^sup>* s s'" and "hvs_inv cr s"
  shows "hvs_inv cr s' \<and> hvs_tsHash (fst s') = hvs_tsHash (fst s) \<and> cs_ext (snd s) (snd s')"
  using assms
proof (induction rule: rtranclp_induct)
  case base
  then show ?case by simp
next
  case (step y z)
  then have y: "hvs_inv cr y" "hvs_tsHash (fst y) = hvs_tsHash (fst s)" "cs_ext (snd s) (snd y)" by auto
  from hvs_step_next [OF step.hyps(2) y(1)] y(2,3) show ?case using cs_ext_trans [OF y(3)] by auto
qed

section \<open>Who counts for a set\<close>

definition offset :: "ICSCommittee \<Rightarrow> nat \<Rightarrow> nat" where
  "offset c k = length (roster_of (take k (Sets c)))"

lemma offset_mono: "k \<le> k' \<Longrightarrow> offset c k \<le> offset c k'"
proof -
  assume "k \<le> k'"
  then obtain d where "k' = k + d" using le_iff_add by auto
  then show ?thesis by (simp add: offset_def take_add)
qed

lemma offset_Suc: "k < length (Sets c) \<Longrightarrow> Sets c ! k = Some ns \<Longrightarrow> offset c (Suc k) = offset c k + length (ns_Infos ns)"
  by (simp add: offset_def take_Suc_conv_app_nth)

lemma offset_unique:
  assumes "offset c k \<le> i" "i < offset c (Suc k)" "offset c k' \<le> i" "i < offset c (Suc k')"
  shows "k = k'"
proof (rule ccontr)
  assume "k \<noteq> k'"
  then have "Suc k \<le> k' \<or> Suc k' \<le> k" by linarith
  then show False using offset_mono [of "Suc k" k' c] offset_mono [of "Suc k'" k c] assms by linarith
qed

lemma slots_of_first_last:
  assumes "cluster_ok cs" "sets_distinct (cs_committee cs)" and "i < length (roster (cs_committee cs))"
    and "k = 0 \<or> Suc k = length (Sets (cs_committee cs))"
  shows "int k \<in> set (slots_of (cs_committee cs) i) \<longleftrightarrow> offset (cs_committee cs) k \<le> i \<and> i < offset (cs_committee cs) (Suc k)"
proof -
  define c where "c = cs_committee cs"
  obtain k' ns j where s: "slots_of c i = int k' # later_slots c k' (entry_KramaID (roster c ! i))"
      "k' < length (Sets c)" "Sets c ! k' = Some ns" "j < length (ns_Infos ns)" "i = offset c k' + j"
    by (rule slots_of_roster [OF assms(1-3), folded c_def offset_def])
  have own: "offset c k' \<le> i \<and> i < offset c (Suc k')" using s(2-5) offset_Suc [of k' c ns] by simp
  have "int k \<notin> set (later_slots c k' (entry_KramaID (roster c ! i)))"
    using later_slots_distinct [of c k' "entry_KramaID (roster c ! i)"] assms(2,4) by (auto simp: c_def)
  then have "int k \<in> set (slots_of c i) \<longleftrightarrow> k = k'" by (auto simp: s(1))
  also have "\<dots> \<longleftrightarrow> offset c k \<le> i \<and> i < offset c (Suc k)" using own offset_unique [of c k i k'] by blast
  finally show ?thesis by (simp add: c_def)
qed

text \<open>The invariant of a run, with the quorum read off the committee.\<close>

lemma majority_quorum:
  assumes "hvs_inv cr (hvs, cs)" and "getVoteSet hvs t = Some vs" and "vs_maj23TsHash vs = Some g"
    and "k < length (Sets (cs_committee cs))"
  shows "g = hvs_tsHash hvs" and "quorum_of (cs_committee cs) k \<le> card (counted (cs_committee cs) vs k)"
proof -
  let ?c = "cs_committee cs"
  have inv: "cluster_ok cs" "vs_inv cr cs (hvs_tsHash hvs) vs" using hvs_getVoteSet_inv [OF assms(1,2)] by auto
  obtain q where q: "g = hvs_tsHash hvs" "cs_quorum cs = Some q" "\<forall>k < length (Sets ?c). q ! k \<le> vs_sum vs ! k"
    using vs_invD(8) [OF inv(2) assms(3)] by blast
  show "g = hvs_tsHash hvs" by (rule q(1))
  have mq: "map unat q = map (quorum_of ?c) [0..<length (Sets ?c)]" using inv(1) q(2) by (simp add: cluster_ok_def)
  from arg_cong [OF mq, of length] have "length q = length (Sets ?c)" by simp
  then have "unat (q ! k) = quorum_of ?c k" using arg_cong [OF mq, of "\<lambda>l. l ! k"] assms(4) by simp
  moreover have "unat (q ! k) \<le> unat (vs_sum vs ! k)" using q(3) assms(4) by (simp add: word_le_nat_alt)
  ultimately show "quorum_of ?c k \<le> card (counted ?c vs k)" using vs_invD(6) [OF inv(2) assms(4)] by simp
qed

section \<open>An example cluster\<close>

text \<open>Three sets: \<open>a\<close>; \<open>a\<close> and \<open>d\<close>; and \<open>r\<close> as the random set.\<close>

definition example_ics :: ICSCommittee where
  "example_ics =
     AppendNodeSet NilHash (Some (NewNodeSet [example_validator ''r''] 1))
      (AppendNodeSet [2] (Some (NewNodeSet [example_validator ''a'', example_validator ''d''] 2))
       (AppendNodeSet [1] (Some (NewNodeSet [example_validator ''a''] 1)) NewICSCommittee))"

definition example_cluster :: ClusterState where
  "example_cluster = NewICS ''c'' ''a'' ''a'' example_ics [] [] 1 False"

definition example_crypto :: Crypto where
  "example_crypto = \<lparr>cr_SignBytes = (\<lambda>_. Inr []), cr_Verify = (\<lambda>_ _ _. (True, None)),
     cr_VerifyAggregate = (\<lambda>_ _ _. (True, None)), cr_Aggregate = (\<lambda>_. Inr [])\<rparr>"

definition example_vote :: "int \<Rightarrow> Vote" where
  "example_vote i = \<lparr>vote_Type = PREVOTE, vote_IsQC = False, vote_View = 1, vote_SignerIndex = i,
     vote_TSHash = [7], vote_SignerIndices = None, vote_Signature = []\<rparr>"

fun run_votes :: "Crypto \<Rightarrow> Vote list \<Rightarrow> HeightVoteSet \<times> ClusterState \<Rightarrow> HeightVoteSet \<times> ClusterState" where
  "run_votes cr [] s = s"
| "run_votes cr (v # vs) (hvs, cs) =
     (case hvs_AddVote cr v hvs cs of
        None \<Rightarrow> run_votes cr vs (hvs, cs)
      | Some (_, hvs', cs') \<Rightarrow> run_votes cr vs (hvs', cs'))"

lemma run_votes_steps: "(hvs_step cr)\<^sup>*\<^sup>* s (run_votes cr vs s)"
proof (induction vs arbitrary: s)
  case Nil
  then show ?case by simp
next
  case (Cons v vs)
  obtain hvs cs where s: "s = (hvs, cs)" by force
  show ?case
  proof (cases "hvs_AddVote cr v hvs cs")
    case None
    then show ?thesis using Cons.IH s by simp
  next
    case (Some r)
    obtain a hvs' cs' where r: "r = (a, hvs', cs')" using prod_cases3 by blast
    have "hvs_step cr s (hvs', cs')" using Some unfolding s r by (rule hvs_step.vote)
    with Cons.IH [of "(hvs', cs')"] show ?thesis using Some s r by (simp add: converse_rtranclp_into_rtranclp)
  qed
qed

lemma example_ics_reachable: "committee_reachable example_ics"
proof -
  have "committee_reachable (AppendNodeSet [1] (Some (NewNodeSet [example_validator ''a''] 1)) NewICSCommittee)"
    by (rule committee_reachable.step [OF committee_reachable.start committee_step.append]) simp
  then have "committee_reachable (AppendNodeSet [2] (Some (NewNodeSet [example_validator ''a'', example_validator ''d''] 2))
       (AppendNodeSet [1] (Some (NewNodeSet [example_validator ''a''] 1)) NewICSCommittee))"
    by (rule committee_reachable.step [OF _ committee_step.append]) simp
  then show ?thesis
    unfolding example_ics_def by (rule committee_reachable.step [OF _ committee_step.append]) simp
qed

lemma example_ics_sets:
  "Sets example_ics = [Some (NewNodeSet [example_validator ''a''] 1),
     Some (NewNodeSet [example_validator ''a'', example_validator ''d''] 2), Some (NewNodeSet [example_validator ''r''] 1)]"
  by (simp add: example_ics_def AppendNodeSet_def NewICSCommittee_def Let_def)

lemma example_ics_roster:
  "roster example_ics = map (\<lambda>k. (example_validator k, \<lambda>_. False)) [''a'', ''a'', ''d'', ''r'']"
  using set_ok_NewNodeSet [of "[example_validator ''a'']" 1] set_ok_NewNodeSet [of "[example_validator ''r'']" 1]
    set_ok_NewNodeSet [of "[example_validator ''a'', example_validator ''d'']" 2]
  by (simp add: roster_def example_ics_sets)

lemma example_cluster_ok: "cluster_ok example_cluster \<and> sets_distinct (cs_committee example_cluster)"
proof -
  have inv: "committee_inv example_ics" by (rule committee_reachable_inv [OF example_ics_reachable])
  then have "totalNodes example_ics = 4" by (simp add: committee_inv_def example_ics_roster)
  with inv show ?thesis
    by (auto simp: cluster_ok_def sets_distinct_def example_cluster_def NewICS_def example_ics_sets example_ics_roster
        example_validator_def NewNodeSet_def)
qed

definition example_start :: "HeightVoteSet \<times> ClusterState" where
  "example_start = (SetTSHash [7] (NewHeightVoteSet example_cluster), example_cluster)"

definition example_run :: "HeightVoteSet \<times> ClusterState" where
  "example_run = run_votes example_crypto (map example_vote [0, 1, 3]) example_start"

lemma example_run_steps:
  "(hvs_step example_crypto)\<^sup>*\<^sup>* (SetTSHash [7] (NewHeightVoteSet example_cluster), example_cluster)
    (fst example_run, snd example_run)"
  unfolding prod.collapse example_run_def example_start_def [symmetric] by (rule run_votes_steps)

lemma example_run_majority: "vs_maj23TsHash (hvs_Prevotes (fst example_run)) = Some [7]"
  by code_simp

lemma example_run_votes: "map (\<lambda>v. v \<noteq> None) (vs_votes (hvs_Prevotes (fst example_run))) = [True, True, False, True]"
  by code_simp

section \<open>Properties\<close>



text \<open>C8: A majority is final: whatever votes and certificates arrive later, the super majority of a
  vote set keeps its hash.\<close>

theorem SuperMajority_final:
  assumes "hvs_inv cr s" and "(hvs_step cr)\<^sup>*\<^sup>* s s'" and "SuperMajority (getVoteSet (fst s) t) = (h, True)"
  shows "SuperMajority (getVoteSet (fst s') t) = (h, True)"
proof -
  have "SuperMajority (getVoteSet (fst r) t) = (h, True) \<longleftrightarrow> hvs_majority r t = Some h" for r :: "HeightVoteSet \<times> ClusterState"
    by (auto simp: SuperMajority_def hvs_majority_def split: option.splits)
  then show ?thesis using hv.run_keeps [OF assms(2,1)] assms(3) by simp
qed

theorem SuperMajority_final_witness:
  "SuperMajority (getVoteSet (fst (run_votes example_crypto [example_vote 2] example_run)) PREVOTE) = ([7], True)"
proof -
  have "hvs_inv example_crypto example_start"
    unfolding example_start_def using hvs_inv_start example_cluster_ok by blast
  then have inv: "hvs_inv example_crypto example_run"
    using hv.run_valid [OF run_votes_steps [of example_crypto example_start "map example_vote [0, 1, 3]"]]
    by (simp add: example_run_def)
  show ?thesis
    by (rule SuperMajority_final [OF inv run_votes_steps])
      (simp add: getVoteSet_def SuperMajority_def example_run_majority)
qed



text \<open>C13: The sums of a vote set agree with its votes and its bits: in every run the bit of an index is
  set exactly when its vote is stored, and the sum of a node set is the number of stored votes that
  count for it; for the first set and for the random set these are the votes of its own members.\<close>

theorem vote_sums_agree:
  assumes "cluster_ok cs0" and "sets_distinct (cs_committee cs0)"
    and "(hvs_step cr)\<^sup>*\<^sup>* (SetTSHash h (NewHeightVoteSet cs0), cs0) (hvs, cs)" and "getVoteSet hvs t = Some vs"
  shows "(\<forall>i < length (vs_votes vs). GetIndex (GetVoteBits vs) (int i) = Some (vs_votes vs ! i \<noteq> None))
    \<and> (\<forall>k < length (Sets (cs_committee cs0)). unat (vs_sum vs ! k) = card (counted (cs_committee cs0) vs k)
        \<and> (k = 0 \<or> Suc k = length (Sets (cs_committee cs0)) \<longrightarrow> counted (cs_committee cs0) vs k
            = {i. offset (cs_committee cs0) k \<le> i \<and> i < offset (cs_committee cs0) (Suc k)
                 \<and> i < length (vs_votes vs) \<and> vs_votes vs ! i \<noteq> None}))"
proof -
  have run: "hvs_inv cr (hvs, cs)" "hvs_tsHash hvs = h" and c: "cs_committee cs = cs_committee cs0"
    using hvs_run_frame [OF assms(3) hvs_inv_start [OF assms(1,2)]] by (auto simp: SetTSHash_def dest: cs_ext_same)
  have vs: "vs_inv cr cs h vs" using hvs_getVoteSet_inv [OF run(1) assms(4)] run(2) by simp
  note D = vs_invD [OF vs, unfolded c]
  have "bits_copy b = b" for b by (simp add: bits_copy_def)
  then have copy: "GetVoteBits vs = vs_votesBitArray vs"
    by (cases "vs_votesBitArray vs") (simp_all add: GetVoteBits_def bits_Copy_def)
  have bits: "GetIndex (GetVoteBits vs) (int i) = Some (vs_votes vs ! i \<noteq> None)" if "i < length (vs_votes vs)" for i
    using GetIndex_obit [OF D(2), of i] arg_cong [OF D(3), of "\<lambda>l. l ! i"] that D(1) by (simp add: copy)
  have "counted (cs_committee cs0) vs k = {i. offset (cs_committee cs0) k \<le> i \<and> i < offset (cs_committee cs0) (Suc k)
         \<and> i < length (vs_votes vs) \<and> vs_votes vs ! i \<noteq> None}"
    if "k = 0 \<or> Suc k = length (Sets (cs_committee cs0))" for k
    using slots_of_first_last [OF assms(1,2) _ that] D(1) by (auto simp: counted_def)
  with bits D(6) show ?thesis by blast
qed

theorem vote_sums_agree_witness:
  "GetIndex (GetVoteBits (hvs_Prevotes (fst example_run))) (int 0) = Some True"
proof -
  have get: "getVoteSet (fst example_run) PREVOTE = Some (hvs_Prevotes (fst example_run))" by (simp add: getVoteSet_def)
  from arg_cong [OF example_run_votes, of length]
  have len: "length (vs_votes (hvs_Prevotes (fst example_run))) = 4" by simp
  moreover from arg_cong [OF example_run_votes, of "\<lambda>l. l ! 0"] len
  have "vs_votes (hvs_Prevotes (fst example_run)) ! 0 \<noteq> None" by simp
  ultimately show ?thesis
    using conjunct1 [OF vote_sums_agree [OF conjunct1 [OF example_cluster_ok] conjunct2 [OF example_cluster_ok]
        example_run_steps get], rule_format, of 0]
    by simp
qed

text \<open>One validator can be counted twice for a set: the canonical form of a vote does not hold the
  signer index, so the signature of \<open>a\<close> serves for both of its indices, and its vote counts for the
  second set through either of them. The second set reaches its quorum of two without \<open>d\<close>.\<close>

theorem double_counted_validator:
  "vs_maj23TsHash (hvs_Prevotes (fst example_run)) = Some [7]
    \<and> canonicalVote (example_vote 0) = canonicalVote (example_vote 1)
    \<and> GetKramaID example_ics 0 = Some (Some [0, 1], 0, ''a'', [1])
    \<and> GetKramaID example_ics 1 = Some (Some [1], 0, ''a'', [1])
    \<and> vs_sum (hvs_Prevotes (fst example_run)) ! 1 = 2
    \<and> map (\<lambda>v. v \<noteq> None) (vs_votes (hvs_Prevotes (fst example_run))) = [True, True, False, True]"
  by code_simp

text \<open>A vote whose type is neither a prevote nor a precommit has no vote set, and adding it panics.\<close>

theorem AddVote_unknown_type_panics:
  "vote_Type v \<noteq> PREVOTE \<Longrightarrow> vote_Type v \<noteq> PRECOMMIT \<Longrightarrow> hvs_AddVote cr v hvs cs = None"
  by (simp add: hvs_AddVote_def getVoteSet_def)

end
