(* ===== verification/Identifiers.thy ===== *)
theory Identifiers
  imports Go_Prelude
begin

text \<open>
  The 32-byte identifiers of src/common/identifiers: the tag, the flags, the metadata, the
  fingerprint and the variant of an identifier (identifier.go, flags.go, common.go), the
  participant, asset and logic identifiers (participant.go, asset.go, logic.go), their
  hexadecimal text form, and the system accounts of src/common/identifier.go and account.go.

  An array of 32 bytes is a list of bytes; \<open>wf_id\<close> says that it has 32 of them. A string is a
  list of characters, one per byte. The hash function is a parameter.
\<close>

section \<open>Tags and flags\<close>

type_synonym IdentifierKind = u8
type_synonym IdentifierTag = u8

abbreviation (input) KindParticipant :: IdentifierKind where "KindParticipant \<equiv> 0"
abbreviation (input) KindAsset :: IdentifierKind where "KindAsset \<equiv> 1"
abbreviation (input) KindLogic :: IdentifierKind where "KindLogic \<equiv> 2"

datatype id_error =
    ErrMissingHexPrefix | ErrInvalidLength | ErrUnsupportedFlag | ErrUnsupportedVersion
  | ErrUnsupportedKind | ErrWrongKind | ErrInvalidFlags | ErrHexLength | ErrHexByte
  | ErrUnsupportedTag | ErrInvalidZone | ErrInvalidPeerID

definition kindSupport :: "IdentifierKind \<rightharpoonup> u8" where
  "kindSupport = [KindParticipant \<mapsto> 0, KindAsset \<mapsto> 0, KindLogic \<mapsto> 0]"

definition TagParticipantV0 :: IdentifierTag where
  "TagParticipantV0 = push_bit 4 KindParticipant OR 0"

definition TagAssetV0 :: IdentifierTag where
  "TagAssetV0 = push_bit 4 KindAsset OR 0"

definition TagLogicV0 :: IdentifierTag where
  "TagLogicV0 = push_bit 4 KindLogic OR 0"

definition Tag_Kind :: "IdentifierTag \<Rightarrow> IdentifierKind" where
  "Tag_Kind tag = drop_bit 4 tag"

definition Tag_Version :: "IdentifierTag \<Rightarrow> u8" where
  "Tag_Version tag = tag AND 0x0F"

text \<open>Reading a missing key of a Go map gives the zero value.\<close>

definition map_default :: "'v \<Rightarrow> ('k \<rightharpoonup> 'v) \<Rightarrow> 'k \<Rightarrow> 'v" where
  "map_default z m k = (case m k of None \<Rightarrow> z | Some v \<Rightarrow> v)"

definition Tag_Validate :: "IdentifierTag \<Rightarrow> id_error option" where
  "Tag_Validate tag =
     (if Tag_Kind tag > KindLogic then Some ErrUnsupportedKind
      else if Tag_Version tag > map_default 0 kindSupport (Tag_Kind tag) then Some ErrUnsupportedVersion
      else None)"

record Flag =
  flag_index :: u8
  flag_support :: "IdentifierKind \<rightharpoonup> u8"

definition Flag_Supports :: "Flag \<Rightarrow> IdentifierTag \<Rightarrow> bool" where
  "Flag_Supports flag tag =
     (case flag_support flag (Tag_Kind tag) of
        None \<Rightarrow> False
      | Some version \<Rightarrow> Tag_Version tag \<ge> version)"

definition getFlag :: "u8 \<Rightarrow> u8 \<Rightarrow> bool" where
  "getFlag value index \<longleftrightarrow> value AND push_bit (unat index) 1 \<noteq> 0"

definition setFlag :: "u8 \<Rightarrow> u8 \<Rightarrow> bool \<Rightarrow> u8" where
  "setFlag value index flag =
     (if flag then value OR push_bit (unat index) 1 else value AND NOT (push_bit (unat index) 1))"

definition makeFlag :: "IdentifierKind \<Rightarrow> u8 \<Rightarrow> u8 \<Rightarrow> Flag option" where
  "makeFlag kind index version =
     (if index > 7 then None
      else if version > 15 then None
      else Some \<lparr>flag_index = index, flag_support = [kind \<mapsto> version]\<rparr>)"

definition Systemic :: Flag where
  "Systemic = \<lparr>flag_index = 7, flag_support = [KindParticipant \<mapsto> 0, KindAsset \<mapsto> 0, KindLogic \<mapsto> 0]\<rparr>"

definition AssetStateful :: Flag where "AssetStateful = the (makeFlag KindAsset 0 0)"
definition AssetLogical :: Flag where "AssetLogical = the (makeFlag KindAsset 1 0)"
definition LogicIntrinsic :: Flag where "LogicIntrinsic = the (makeFlag KindLogic 0 0)"
definition LogicExtrinsic :: Flag where "LogicExtrinsic = the (makeFlag KindLogic 1 0)"
definition LogicAuxiliary :: Flag where "LogicAuxiliary = the (makeFlag KindLogic 2 0)"

definition flagMasks :: "IdentifierTag \<rightharpoonup> u8" where
  "flagMasks = [TagParticipantV0 \<mapsto> 0b01111111, TagLogicV0 \<mapsto> 0b01111000, TagAssetV0 \<mapsto> 0b01111100]"

section \<open>Big-endian numbers\<close>

definition PutUint16 :: "16 word \<Rightarrow> u8 list" where
  "PutUint16 v = [ucast (drop_bit 8 v), ucast v]"

definition Uint16 :: "u8 list \<Rightarrow> 16 word" where
  "Uint16 b = ucast (b ! 1) OR push_bit 8 (ucast (b ! 0))"

definition PutUint32 :: "u32 \<Rightarrow> u8 list" where
  "PutUint32 v = [ucast (drop_bit 24 v), ucast (drop_bit 16 v), ucast (drop_bit 8 v), ucast v]"

definition Uint32 :: "u8 list \<Rightarrow> u32" where
  "Uint32 b = ucast (b ! 3) OR push_bit 8 (ucast (b ! 2)) OR push_bit 16 (ucast (b ! 1))
     OR push_bit 24 (ucast (b ! 0))"

definition BigEndian_PutUint64 :: "u64 \<Rightarrow> u8 list" where
  "BigEndian_PutUint64 v = map (\<lambda>i. ucast (drop_bit (56 - 8 * i) v)) [0..<8]"

section \<open>Identifiers\<close>

definition wf_id :: "Identifier \<Rightarrow> bool" where
  "wf_id ident \<longleftrightarrow> length ident = 32"

definition Nil_id :: Identifier where
  "Nil_id = replicate 32 0"

definition trimFingerprint :: "Identifier \<Rightarrow> u8 list" where
  "trimFingerprint bytes = take 24 (drop 4 bytes)"

definition trimVariant :: "Identifier \<Rightarrow> u8 list" where
  "trimVariant bytes = drop 28 bytes"

definition id_IsNil :: "Identifier \<Rightarrow> bool" where
  "id_IsNil ident \<longleftrightarrow> ident = Nil_id"

definition id_Tag :: "Identifier \<Rightarrow> IdentifierTag" where
  "id_Tag ident = ident ! 0"

definition id_Flags :: "Identifier \<Rightarrow> u8" where
  "id_Flags ident = ident ! 1"

definition id_Metadata :: "Identifier \<Rightarrow> u8 list" where
  "id_Metadata ident = [ident ! 2, ident ! 3]"

definition id_Fingerprint :: "Identifier \<Rightarrow> u8 list" where
  "id_Fingerprint ident = trimFingerprint ident"

definition id_Variant :: "Identifier \<Rightarrow> u32" where
  "id_Variant ident = Uint32 (trimVariant ident)"

definition id_IsVariant :: "Identifier \<Rightarrow> bool" where
  "id_IsVariant ident =
     (let variant = trimVariant ident
      in \<not> (variant ! 0 = 0 \<and> variant ! 1 = 0 \<and> variant ! 2 = 0 \<and> variant ! 3 = 0))"

definition IsParticipantVariant :: "Identifier \<Rightarrow> bool" where
  "IsParticipantVariant ident \<longleftrightarrow> id_IsVariant ident \<and> Tag_Kind (id_Tag ident) = KindParticipant"

definition id_IsLogic :: "Identifier \<Rightarrow> bool" where
  "id_IsLogic ident \<longleftrightarrow> Tag_Kind (id_Tag ident) = KindLogic"

definition id_IsAsset :: "Identifier \<Rightarrow> bool" where
  "id_IsAsset ident \<longleftrightarrow> Tag_Kind (id_Tag ident) = KindAsset"

text \<open>The loops that set or unset flags in the second byte; the tag they check does not change.\<close>

fun attachFlags :: "IdentifierTag \<Rightarrow> bool \<Rightarrow> Flag list \<Rightarrow> u8 list \<Rightarrow> id_error + u8 list" where
  "attachFlags tag v [] buffer = Inr buffer"
| "attachFlags tag v (flag # flags) buffer =
     (if \<not> Flag_Supports flag tag then Inl ErrUnsupportedFlag
      else attachFlags tag v flags (buffer[1 := setFlag (buffer ! 1) (flag_index flag) v]))"

definition DeriveVariant ::
  "Identifier \<Rightarrow> u32 \<Rightarrow> Flag list \<Rightarrow> Flag list \<Rightarrow> id_error + Identifier" where
  "DeriveVariant ident variant set' unset =
     (let derived = take 28 ident @ PutUint32 variant
      in case attachFlags (id_Tag derived) True set' derived of
           Inl err \<Rightarrow> Inl err
         | Inr derived' \<Rightarrow> attachFlags (id_Tag derived) False unset derived')"

section \<open>Participant, asset and logic identifiers\<close>

definition validate_kind :: "IdentifierKind \<Rightarrow> Identifier \<Rightarrow> id_error option" where
  "validate_kind kind ident =
     (case Tag_Validate (id_Tag ident) of
        Some err \<Rightarrow> Some err
      | None \<Rightarrow>
          if Tag_Kind (id_Tag ident) \<noteq> kind then Some ErrWrongKind
          else if (ident ! 1) AND map_default 0 flagMasks (id_Tag ident) \<noteq> 0 then Some ErrInvalidFlags
          else None)"

definition Participant_Validate :: "Identifier \<Rightarrow> id_error option" where
  "Participant_Validate = validate_kind KindParticipant"

definition Asset_Validate :: "Identifier \<Rightarrow> id_error option" where
  "Asset_Validate = validate_kind KindAsset"

definition Logic_Validate :: "Identifier \<Rightarrow> id_error option" where
  "Logic_Validate = validate_kind KindLogic"

definition NewParticipantID :: "Identifier \<Rightarrow> id_error + Identifier" where
  "NewParticipantID data = (case Participant_Validate data of Some err \<Rightarrow> Inl err | None \<Rightarrow> Inr data)"

definition NewAssetID :: "Identifier \<Rightarrow> id_error + Identifier" where
  "NewAssetID data = (case Asset_Validate data of Some err \<Rightarrow> Inl err | None \<Rightarrow> Inr data)"

definition NewLogicID :: "Identifier \<Rightarrow> id_error + Identifier" where
  "NewLogicID data = (case Logic_Validate data of Some err \<Rightarrow> Inl err | None \<Rightarrow> Inr data)"

definition NewParticipantIDFromBytes :: "u8 list \<Rightarrow> id_error + Identifier" where
  "NewParticipantIDFromBytes data = (if length data \<noteq> 32 then Inl ErrInvalidLength else NewParticipantID data)"

definition NewAssetIDFromBytes :: "u8 list \<Rightarrow> id_error + Identifier" where
  "NewAssetIDFromBytes data = (if length data \<noteq> 32 then Inl ErrInvalidLength else NewAssetID data)"

definition NewLogicIDFromBytes :: "u8 list \<Rightarrow> id_error + Identifier" where
  "NewLogicIDFromBytes data = (if length data \<noteq> 32 then Inl ErrInvalidLength else NewLogicID data)"

text \<open>\<^verbatim>\<open>Flag\<close> of the three kinds of identifiers.\<close>

definition Participant_Flag :: "Identifier \<Rightarrow> Flag \<Rightarrow> bool" where
  "Participant_Flag ident flag \<longleftrightarrow> Flag_Supports flag (id_Tag ident) \<and> getFlag (ident ! 1) (flag_index flag)"

definition Asset_Flag :: "Identifier \<Rightarrow> Flag \<Rightarrow> bool" where
  "Asset_Flag ident flag \<longleftrightarrow> Flag_Supports flag (id_Tag ident) \<and> getFlag (ident ! 1) (flag_index flag)"

definition Logic_Flag :: "Identifier \<Rightarrow> Flag \<Rightarrow> bool" where
  "Logic_Flag ident flag \<longleftrightarrow> Flag_Supports flag (id_Tag ident) \<and> getFlag (ident ! 1) (flag_index flag)"

definition Asset_Standard :: "Identifier \<Rightarrow> 16 word" where
  "Asset_Standard ident = Uint16 (take 2 (drop 2 ident))"

definition GenerateParticipantIDv0 :: "u8 list \<Rightarrow> u32 \<Rightarrow> Flag list \<Rightarrow> id_error + Identifier" where
  "GenerateParticipantIDv0 fingerprint variant flags =
     (case attachFlags TagParticipantV0 True flags [TagParticipantV0, 0, 0, 0] of
        Inl err \<Rightarrow> Inl err
      | Inr metadata \<Rightarrow> Inr (metadata @ fingerprint @ PutUint32 variant))"

definition GenerateAssetIDv0 :: "u8 list \<Rightarrow> u32 \<Rightarrow> 16 word \<Rightarrow> Flag list \<Rightarrow> id_error + Identifier" where
  "GenerateAssetIDv0 fingerprint variant standard flags =
     (case attachFlags TagAssetV0 True flags [TagAssetV0, 0, 0, 0] of
        Inl err \<Rightarrow> Inl err
      | Inr metadata \<Rightarrow> Inr (take 2 metadata @ PutUint16 standard @ fingerprint @ PutUint32 variant))"

definition GenerateLogicIDv0 :: "u8 list \<Rightarrow> u32 \<Rightarrow> Flag list \<Rightarrow> id_error + Identifier" where
  "GenerateLogicIDv0 fingerprint variant flags =
     (case attachFlags TagLogicV0 True flags [TagLogicV0, 0, 0, 0] of
        Inl err \<Rightarrow> Inl err
      | Inr metadata \<Rightarrow> Inr (metadata @ fingerprint @ PutUint32 variant))"

section \<open>Hexadecimal text\<close>

definition hextable :: string where
  "hextable = ''0123456789abcdef''"

text \<open>\<^verbatim>\<open>Encode\<close> and \<^verbatim>\<open>DecodeString\<close> of Go's \<^verbatim>\<open>encoding/hex\<close>.\<close>

fun hex_Encode :: "u8 list \<Rightarrow> string" where
  "hex_Encode [] = []"
| "hex_Encode (b # bs) = hextable ! unat (drop_bit 4 b) # hextable ! unat (b AND 0x0F) # hex_Encode bs"

definition fromHexChar :: "char \<Rightarrow> u8 option" where
  "fromHexChar c =
     (let n = of_char c :: nat
      in if 48 \<le> n \<and> n \<le> 57 then Some (of_nat (n - 48))
         else if 97 \<le> n \<and> n \<le> 102 then Some (of_nat (n - 97 + 10))
         else if 65 \<le> n \<and> n \<le> 70 then Some (of_nat (n - 65 + 10))
         else None)"

fun hex_Decode :: "string \<Rightarrow> id_error + u8 list" where
  "hex_Decode [] = Inr []"
| "hex_Decode [c] = (if fromHexChar c = None then Inl ErrHexByte else Inl ErrHexLength)"
| "hex_Decode (c # d # rest) =
     (case fromHexChar c of
        None \<Rightarrow> Inl ErrHexByte
      | Some a \<Rightarrow>
          (case fromHexChar d of
             None \<Rightarrow> Inl ErrHexByte
           | Some b \<Rightarrow>
               (case hex_Decode rest of
                  Inl err \<Rightarrow> Inl err
                | Inr bs \<Rightarrow> Inr ((push_bit 4 a OR b) # bs))))"

definition has0xPrefix :: "string \<Rightarrow> bool" where
  "has0xPrefix value \<longleftrightarrow> take 2 value = ''0x''"

definition trim0xPrefix :: "string \<Rightarrow> string" where
  "trim0xPrefix value = (if has0xPrefix value then drop 2 value else value)"

definition decodeHexString :: "string \<Rightarrow> id_error + u8 list" where
  "decodeHexString str = hex_Decode (trim0xPrefix str)"

definition id_Hex :: "Identifier \<Rightarrow> string" where
  "id_Hex ident = ''0x'' @ hex_Encode ident"

definition NewIdentifierFromHex :: "string \<Rightarrow> id_error + Identifier" where
  "NewIdentifierFromHex data =
     (case decodeHexString data of
        Inl err \<Rightarrow> Inl err
      | Inr decoded \<Rightarrow> if length decoded \<noteq> 32 then Inl ErrInvalidLength else Inr decoded)"

definition NewParticipantIDFromHex :: "string \<Rightarrow> id_error + Identifier" where
  "NewParticipantIDFromHex data =
     (case decodeHexString data of Inl err \<Rightarrow> Inl err | Inr decoded \<Rightarrow> NewParticipantIDFromBytes decoded)"

definition NewAssetIDFromHex :: "string \<Rightarrow> id_error + Identifier" where
  "NewAssetIDFromHex data =
     (case decodeHexString data of Inl err \<Rightarrow> Inl err | Inr decoded \<Rightarrow> NewAssetIDFromBytes decoded)"

definition NewLogicIDFromHex :: "string \<Rightarrow> id_error + Identifier" where
  "NewLogicIDFromHex data =
     (case decodeHexString data of Inl err \<Rightarrow> Inl err | Inr decoded \<Rightarrow> NewLogicIDFromBytes decoded)"

definition marshal32 :: "Identifier \<Rightarrow> string" where
  "marshal32 data = ''0x'' @ hex_Encode data"

text \<open>Converting a slice to an array of 32 bytes panics when the slice is shorter.\<close>

definition unmarshal32 :: "string \<Rightarrow> (id_error + Identifier) option" where
  "unmarshal32 data =
     (if \<not> has0xPrefix data then Some (Inl ErrMissingHexPrefix)
      else
        (let data' = trim0xPrefix data
         in if length data' \<noteq> 32 * 2 then Some (Inl ErrInvalidLength)
            else (case decodeHexString data' of
                    Inl err \<Rightarrow> Some (Inl err)
                  | Inr decoded \<Rightarrow> if length decoded < 32 then None else Some (Inr (take 32 decoded)))))"

text \<open>\<^verbatim>\<open>UnmarshalText\<close>: the receiver afterwards and the error.\<close>

definition UnmarshalText :: "Identifier \<Rightarrow> string \<Rightarrow> (Identifier \<times> id_error option) option" where
  "UnmarshalText ident data = do {
     r \<leftarrow> unmarshal32 data;
     Some (case r of Inl err \<Rightarrow> (ident, Some err) | Inr decoded \<Rightarrow> (decoded, None))
   }"

section \<open>System accounts\<close>

record Sender =
  sender_ID :: Identifier
  sender_SequenceID :: u64
  sender_KeyID :: u64

definition string_bytes :: "string \<Rightarrow> u8 list" where
  "string_bytes = map of_char"

definition CreateParticipantIDFromString ::
  "(u8 list \<Rightarrow> Hash) \<Rightarrow> string \<Rightarrow> u32 \<Rightarrow> Flag list \<Rightarrow> Identifier" where
  "CreateParticipantIDFromString GetHash name variant flags =
     (case GenerateParticipantIDv0 (take 24 (GetHash (string_bytes name))) variant flags of
        Inl _ \<Rightarrow> Nil_id | Inr ident \<Rightarrow> ident)"

definition CreateLogicIDFromString ::
  "(u8 list \<Rightarrow> Hash) \<Rightarrow> string \<Rightarrow> u32 \<Rightarrow> Flag list \<Rightarrow> Identifier" where
  "CreateLogicIDFromString GetHash name variant flags =
     (case GenerateLogicIDv0 (take 24 (GetHash (string_bytes name))) variant flags of
        Inl _ \<Rightarrow> Nil_id | Inr ident \<Rightarrow> ident)"

definition CreateAssetIDFromString ::
  "(u8 list \<Rightarrow> Hash) \<Rightarrow> string \<Rightarrow> u32 \<Rightarrow> 16 word \<Rightarrow> Flag list \<Rightarrow> Identifier" where
  "CreateAssetIDFromString GetHash name variant standard flags =
     (case GenerateAssetIDv0 (take 24 (GetHash (string_bytes name))) variant standard flags of
        Inl _ \<Rightarrow> Nil_id | Inr ident \<Rightarrow> ident)"

definition SargaAccountID :: "(u8 list \<Rightarrow> Hash) \<Rightarrow> Identifier" where
  "SargaAccountID GetHash = CreateLogicIDFromString GetHash ''sargaAccount'' 0 [Systemic]"

definition SystemAccountID :: "(u8 list \<Rightarrow> Hash) \<Rightarrow> Identifier" where
  "SystemAccountID GetHash =
     CreateLogicIDFromString GetHash ''system-registry'' 0 [Systemic, LogicIntrinsic, LogicExtrinsic]"

definition NewAccountID :: "(u8 list \<Rightarrow> Hash) \<Rightarrow> Sender \<Rightarrow> u8 list" where
  "NewAccountID GetHash sender =
     take 24 (GetHash (BigEndian_PutUint64 (sender_SequenceID sender) @ BigEndian_PutUint64 (sender_KeyID sender)
       @ take 32 (sender_ID sender)))"

definition ContainsID :: "Identifier list \<Rightarrow> Identifier \<Rightarrow> bool" where
  "ContainsID ids target = list_ex (\<lambda>ident. ident = target) ids"

definition IsSystemAccount :: "(u8 list \<Rightarrow> Hash) \<Rightarrow> Identifier \<Rightarrow> bool" where
  "IsSystemAccount GetHash ident \<longleftrightarrow> ident = SargaAccountID GetHash \<or> ident = SystemAccountID GetHash"

datatype AccountType = SystemAccount | LogicAccount | AssetAccount | RegularAccount | InvalidAccount

definition AccountTypeFromID :: "(u8 list \<Rightarrow> Hash) \<Rightarrow> Identifier \<Rightarrow> AccountType" where
  "AccountTypeFromID GetHash ident =
     (if ident = SystemAccountID GetHash \<or> ident = SargaAccountID GetHash then SystemAccount
      else if Tag_Kind (id_Tag ident) = KindParticipant then RegularAccount
      else if Tag_Kind (id_Tag ident) = KindAsset then AssetAccount
      else if Tag_Kind (id_Tag ident) = KindLogic then LogicAccount
      else InvalidAccount)"

section \<open>Krama identifiers\<close>

text \<open>The identifiers of network nodes (krama.go); base58 and the decoding of peer identifiers are
  third-party code and come as parameters.\<close>

definition KramaTag_Validate :: "u8 \<Rightarrow> id_error option" where
  "KramaTag_Validate tag =
     (if drop_bit 4 tag > 0 then Some ErrUnsupportedKind
      else if tag AND 0x0F > 0 then Some ErrUnsupportedVersion
      else None)"

definition NetworkZone :: "u8 \<Rightarrow> u8" where
  "NetworkZone km = drop_bit 4 km"

definition KramaMetadata_Validate :: "u8 \<Rightarrow> id_error option" where
  "KramaMetadata_Validate km = (if NetworkZone km > 3 then Some ErrInvalidZone else None)"

definition NewKramaIDFromPeerID ::
  "(u8 list \<Rightarrow> string) \<Rightarrow> u8 \<Rightarrow> u8 \<Rightarrow> u8 \<Rightarrow> string \<Rightarrow> KramaID" where
  "NewKramaIDFromPeerID b58encode kind version networkZone peerID =
     b58encode [push_bit 4 kind OR version, push_bit 4 networkZone] @ peerID"

definition peerIDLength :: "u8 \<Rightarrow> nat option" where
  "peerIDLength tag = (if tag = 0 then Some 53 else None)"

definition Decompose :: "(string \<Rightarrow> u8 list option) \<Rightarrow> KramaID \<Rightarrow> id_error + u8 \<times> u8 \<times> string" where
  "Decompose b58decode kid =
     (if kid = '''' then Inl ErrInvalidLength
      else (case b58decode kid of
              None \<Rightarrow> Inl ErrInvalidLength
            | Some decoded \<Rightarrow>
                if length decoded < 3 then Inl ErrInvalidLength
                else (case peerIDLength (decoded ! 0) of
                        None \<Rightarrow> Inl ErrUnsupportedTag
                      | Some n \<Rightarrow>
                          if length kid \<le> n then Inl ErrInvalidLength
                          else Inr (decoded ! 0, decoded ! 1, drop (length kid - n) kid))))"

definition KramaID_Validate ::
  "(string \<Rightarrow> u8 list option) \<Rightarrow> (string \<Rightarrow> bool) \<Rightarrow> KramaID \<Rightarrow> id_error option" where
  "KramaID_Validate b58decode peerOK kid =
     (case Decompose b58decode kid of
        Inl err \<Rightarrow> Some err
      | Inr (tag, metadata, peerID) \<Rightarrow>
          (case KramaTag_Validate tag of
             Some err \<Rightarrow> Some err
           | None \<Rightarrow>
               (case KramaMetadata_Validate metadata of
                  Some err \<Rightarrow> Some err
                | None \<Rightarrow> if peerOK peerID then None else Some ErrInvalidPeerID)))"

section \<open>Flags and masks\<close>

definition known_flags :: "Flag set" where
  "known_flags = {Systemic, AssetStateful, AssetLogical, LogicIntrinsic, LogicExtrinsic, LogicAuxiliary}"

lemma getFlag_bit: "getFlag x i \<longleftrightarrow> unat i < 8 \<and> bit x (unat i)"
  using bit_imp_le_length [of x "unat i"] by (auto simp: getFlag_def push_bit_eq_mult and_exp_eq_0_iff_not_bit)

lemma bit_setFlag:
  "bit (setFlag x i v) n \<longleftrightarrow> n < 8 \<and> (if n = unat i then v else bit x n)"
  by (auto simp: setFlag_def bit_simps dest: bit_imp_le_length)

lemma bit_fold_setFlag:
  "bit (fold (\<lambda>f x. setFlag x (flag_index f) v) flags x) n
    \<longleftrightarrow> n < 8 \<and> (if \<exists>f \<in> set flags. unat (flag_index f) = n then v else bit x n)"
  by (induction flags arbitrary: x) (auto simp: bit_setFlag dest: bit_imp_le_length)

lemma attachFlags_eq:
  "attachFlags tag v flags b =
     (if \<forall>f \<in> set flags. Flag_Supports f tag
      then Inr (b[1 := fold (\<lambda>f x. setFlag x (flag_index f) v) flags (b ! 1)])
      else Inl ErrUnsupportedFlag)"
proof (induction flags arbitrary: b)
  case Nil
  then show ?case by simp
next
  case (Cons f flags)
  show ?case by (cases "1 < length b") (auto simp: Cons.IH list_update_beyond)
qed

text \<open>What a kind of identifier promises: its validity is a tag and a mask of forbidden flags, and
  every flag of the package that the tag supports lies outside the mask.\<close>

locale id_kind =
  fixes tag :: IdentifierTag and mask :: u8 and validate :: "Identifier \<Rightarrow> id_error option"
  assumes validate_iff: "validate i = None \<longleftrightarrow> i ! 0 = tag \<and> (i ! 1) AND mask = 0"
    and supported_outside: "f \<in> known_flags \<Longrightarrow> Flag_Supports f tag \<Longrightarrow> \<not> bit mask (unat (flag_index f))"
begin

lemma mask_fold_setFlag:
  assumes "set flags \<subseteq> known_flags" and "\<forall>f \<in> set flags. Flag_Supports f tag" and "x AND mask = 0"
  shows "fold (\<lambda>f x. setFlag x (flag_index f) v) flags x AND mask = 0"
proof (rule bit_word_eqI)
  fix n
  have "\<not> (bit x n \<and> bit mask n)"
    using arg_cong [OF assms(3), of "\<lambda>w. bit w n"] by (simp add: bit_simps)
  then show "bit (fold (\<lambda>f x. setFlag x (flag_index f) v) flags x AND mask) n = bit 0 n"
    using supported_outside assms(1,2) by (auto simp: bit_and_iff bit_fold_setFlag)
qed

lemma attachFlags_valid:
  assumes "set flags \<subseteq> known_flags" and "attachFlags tag v flags b = Inr b'"
    and "b ! 0 = tag" and "(b ! 1) AND mask = 0" and "1 < length b"
  shows "b' ! 0 = tag \<and> (b' ! 1) AND mask = 0"
proof -
  have sup: "\<forall>f \<in> set flags. Flag_Supports f tag"
    and b': "b' = b[1 := fold (\<lambda>f x. setFlag x (flag_index f) v) flags (b ! 1)]"
    using assms(2) by (auto simp: attachFlags_eq split: if_splits)
  show ?thesis using mask_fold_setFlag [OF assms(1) sup assms(4)] assms(3,5) by (simp add: b')
qed

lemma DeriveVariant_valid:
  assumes "wf_id i" and "validate i = None" and "set s \<subseteq> known_flags" and "set u \<subseteq> known_flags"
    and "DeriveVariant i variant s u = Inr d"
  shows "validate d = None"
proof -
  let ?d0 = "take 28 i @ PutUint32 variant"
  have i: "i ! 0 = tag" "(i ! 1) AND mask = 0" using assms(2) by (simp_all add: validate_iff)
  have d0: "?d0 ! 0 = tag" "(?d0 ! 1) AND mask = 0" "1 < length ?d0"
    using i assms(1) by (auto simp: wf_id_def nth_append)
  then have t: "id_Tag ?d0 = tag" by (simp add: id_Tag_def)
  from assms(5) obtain d1 where d1: "attachFlags tag True s ?d0 = Inr d1" "attachFlags tag False u d1 = Inr d"
    by (auto simp: DeriveVariant_def t Let_def split: sum.splits)
  have v1: "d1 ! 0 = tag \<and> (d1 ! 1) AND mask = 0" by (rule attachFlags_valid [OF assms(3) d1(1) d0])
  moreover have "1 < length d1" using d1(1) d0(3) by (auto simp: attachFlags_eq split: if_splits)
  ultimately have "d ! 0 = tag \<and> (d ! 1) AND mask = 0"
    using attachFlags_valid [OF assms(4) d1(2)] by blast
  then show ?thesis by (simp add: validate_iff)
qed

end

lemmas tag_defs = TagParticipantV0_def TagAssetV0_def TagLogicV0_def

lemma tag_validate_kind:
  assumes "k \<in> {0, 1, 2}"
  shows "Tag_Validate t = None \<and> Tag_Kind t = k \<longleftrightarrow> t = push_bit 4 k"
proof
  assume "Tag_Validate t = None \<and> Tag_Kind t = k"
  then have k: "drop_bit 4 t = k" and v: "t AND 0x0F = 0"
    using assms by (auto simp: Tag_Validate_def Tag_Kind_def Tag_Version_def kindSupport_def map_default_def
        word_gt_0 split: if_splits)
  have m: "(0x0F :: u8) = Bit_Operations.mask 4" by (simp add: mask_eq_exp_minus_1)
  have "t = push_bit 4 (drop_bit 4 t) OR (t AND 0x0F)"
    unfolding m by (rule bit_word_eqI) (auto simp: bit_simps)
  with k v show "t = push_bit 4 k" by simp
next
  assume "t = push_bit 4 k"
  with assms show "Tag_Validate t = None \<and> Tag_Kind t = k"
    by (auto simp: Tag_Validate_def Tag_Kind_def Tag_Version_def kindSupport_def map_default_def)
qed

lemma validate_kind_iff:
  assumes "k \<in> {0, 1, 2}"
  shows "validate_kind k i = None
    \<longleftrightarrow> i ! 0 = push_bit 4 k \<and> (i ! 1) AND map_default 0 flagMasks (push_bit 4 k) = 0"
  using tag_validate_kind [OF assms, of "i ! 0"]
  by (auto simp: validate_kind_def id_Tag_def split: option.splits if_splits)

lemma flagMasks_tags:
  "map_default 0 flagMasks (push_bit 4 0) = 0x7F"
  "map_default 0 flagMasks (push_bit 4 1) = 0x7C"
  "map_default 0 flagMasks (push_bit 4 2) = 0x78"
  by (simp_all add: flagMasks_def map_default_def tag_defs)

lemmas flag_defs = Systemic_def AssetStateful_def AssetLogical_def LogicIntrinsic_def LogicExtrinsic_def
  LogicAuxiliary_def makeFlag_def

interpretation pid: id_kind TagParticipantV0 "0x7F" Participant_Validate
proof unfold_locales
  show "\<And>i. (Participant_Validate i = None) = (i ! 0 = TagParticipantV0 \<and> (i ! 1) AND 0x7F = 0)"
    using validate_kind_iff [of 0] flagMasks_tags(1) by (simp add: Participant_Validate_def tag_defs)
  show "\<And>f. f \<in> known_flags \<Longrightarrow> Flag_Supports f TagParticipantV0 \<Longrightarrow> \<not> bit (0x7F :: u8) (unat (flag_index f))"
    by (auto simp: known_flags_def flag_defs Flag_Supports_def Tag_Kind_def Tag_Version_def tag_defs)
qed

interpretation aid: id_kind TagAssetV0 "0x7C" Asset_Validate
proof unfold_locales
  show "\<And>i. (Asset_Validate i = None) = (i ! 0 = TagAssetV0 \<and> (i ! 1) AND 0x7C = 0)"
    using validate_kind_iff [of 1] flagMasks_tags(2) by (simp add: Asset_Validate_def tag_defs)
  show "\<And>f. f \<in> known_flags \<Longrightarrow> Flag_Supports f TagAssetV0 \<Longrightarrow> \<not> bit (0x7C :: u8) (unat (flag_index f))"
    by (auto simp: known_flags_def flag_defs Flag_Supports_def Tag_Kind_def Tag_Version_def tag_defs)
qed

interpretation lid: id_kind TagLogicV0 "0x78" Logic_Validate
proof unfold_locales
  show "\<And>i. (Logic_Validate i = None) = (i ! 0 = TagLogicV0 \<and> (i ! 1) AND 0x78 = 0)"
    using validate_kind_iff [of 2] flagMasks_tags(3) by (simp add: Logic_Validate_def tag_defs)
  show "\<And>f. f \<in> known_flags \<Longrightarrow> Flag_Supports f TagLogicV0 \<Longrightarrow> \<not> bit (0x78 :: u8) (unat (flag_index f))"
    by (auto simp: known_flags_def flag_defs Flag_Supports_def Tag_Kind_def Tag_Version_def tag_defs)
qed

section \<open>Layout\<close>

lemma Uint32_PutUint32 [simp]: "Uint32 (PutUint32 v) = v"
proof (rule bit_word_eqI)
  fix n assume "n < LENGTH(32)"
  then show "bit (Uint32 (PutUint32 v)) n = bit v n"
    by (cases "24 \<le> n"; cases "16 \<le> n"; cases "8 \<le> n") (auto simp: Uint32_def PutUint32_def bit_simps)
qed

lemma Uint16_PutUint16 [simp]: "Uint16 (PutUint16 v) = v"
  by (rule bit_word_eqI) (auto simp: Uint16_def PutUint16_def bit_simps)

lemma length_Put [simp]: "length (PutUint32 v) = 4" "length (PutUint16 w) = 2"
  by (simp_all add: PutUint32_def PutUint16_def)

lemma PutUint32_Uint32: "length b = 4 \<Longrightarrow> PutUint32 (Uint32 b) = b"
proof -
  assume "length b = 4"
  then obtain b0 b1 b2 b3 where b: "b = [b0, b1, b2, b3]"
    by (auto simp: numeral_eq_Suc length_Suc_conv)
  show ?thesis unfolding b PutUint32_def Uint32_def
    by (simp, intro conjI; rule bit_word_eqI) (auto simp: bit_simps dest: bit_imp_le_length)
qed

lemma hextable_nth: "n < 16 \<Longrightarrow> fromHexChar (hextable ! n) = Some (of_nat n)"
proof -
  assume "n < 16"
  then have "n \<in> set [0..<16]" by simp
  moreover have "\<forall>n \<in> set [0..<16]. fromHexChar (hextable ! n) = Some (of_nat n)" by code_simp
  ultimately show ?thesis by blast
qed

lemma byte_nibbles: "push_bit 4 (drop_bit 4 b) OR (b AND 0x0F) = (b :: u8)"
proof -
  have m: "(0x0F :: u8) = Bit_Operations.mask 4" by (simp add: mask_eq_exp_minus_1)
  show ?thesis unfolding m by (rule bit_word_eqI) (auto simp: bit_simps)
qed

lemma nibble_lt: "unat (drop_bit 4 (b :: u8)) < 16" "unat (b AND 0x0F :: u8) < 16"
proof -
  have "b AND 0x0F \<le> 0x0F" by (rule word_and_le1)
  then show "unat (b AND 0x0F) < 16" by (simp add: word_le_nat_alt)
  have "unat b < 2 ^ LENGTH(8)" by (rule unsigned_less)
  then show "unat (drop_bit 4 b) < 16" by (simp add: drop_bit_eq_div unat_div)
qed

lemma hex_roundtrip [simp]: "hex_Decode (hex_Encode bs) = Inr bs"
  by (induction bs) (simp_all add: hextable_nth nibble_lt byte_nibbles)

lemma length_hex_Encode [simp]: "length (hex_Encode bs) = 2 * length bs"
  by (induction bs) simp_all

lemma id_split:
  assumes "length m = 4" and "length fp = 24"
  shows "wf_id (m @ fp @ PutUint32 v)" and "id_Fingerprint (m @ fp @ PutUint32 v) = fp"
    and "id_Variant (m @ fp @ PutUint32 v) = v" and "take 4 (m @ fp @ PutUint32 v) = m"
  using assms by (simp_all add: wf_id_def id_Fingerprint_def trimFingerprint_def id_Variant_def trimVariant_def)

lemma attached_flag:
  assumes "unat (flag_index f) < 8"
  shows "getFlag (fold (\<lambda>f x. setFlag x (flag_index f) v) flags x) (flag_index f)
    \<longleftrightarrow> (if \<exists>g \<in> set flags. flag_index g = flag_index f then v else getFlag x (flag_index f))"
  using assms by (auto simp: getFlag_bit bit_fold_setFlag word_unat_eq_iff)

lemma known_index: "f \<in> known_flags \<Longrightarrow> unat (flag_index f) < 8"
  by (auto simp: known_flags_def flag_defs)

text \<open>Two known flags that one tag supports have different bits.\<close>

lemma known_distinct:
  assumes "f \<in> known_flags" and "g \<in> known_flags" and "Flag_Supports f t" and "Flag_Supports g t"
  shows "flag_index f = flag_index g \<longleftrightarrow> f = g"
proof -
  have sup: "Flag_Supports Systemic t \<Longrightarrow> True" "Flag_Supports AssetStateful t \<Longrightarrow> Tag_Kind t = KindAsset"
      "Flag_Supports AssetLogical t \<Longrightarrow> Tag_Kind t = KindAsset"
      "Flag_Supports LogicIntrinsic t \<Longrightarrow> Tag_Kind t = KindLogic"
      "Flag_Supports LogicExtrinsic t \<Longrightarrow> Tag_Kind t = KindLogic"
      "Flag_Supports LogicAuxiliary t \<Longrightarrow> Tag_Kind t = KindLogic"
    by (auto simp: Flag_Supports_def flag_defs split: if_splits option.splits)
  have ix: "flag_index Systemic = 7" "flag_index AssetStateful = 0" "flag_index AssetLogical = 1"
      "flag_index LogicIntrinsic = 0" "flag_index LogicExtrinsic = 1" "flag_index LogicAuxiliary = 2"
    by (simp_all add: flag_defs)
  have "f = g" if "flag_index f = flag_index g"
    using assms that unfolding known_flags_def by (elim insertE emptyE; simp add: ix) (use sup in auto)
  then show ?thesis by blast
qed

section \<open>Properties\<close>

text \<open>C31: An asset identifier that \<^verbatim>\<open>GenerateAssetIDv0\<close> builds is a valid asset identifier from
  which every part is read back: the tag, the standard, the fingerprint, the variant and exactly
  the given flags. A flag that assets do not support is refused.\<close>

theorem GenerateAssetIDv0_roundtrip:
  assumes "length fp = 24" and "set flags \<subseteq> known_flags"
  shows "if \<forall>f \<in> set flags. Flag_Supports f TagAssetV0
    then \<exists>i. GenerateAssetIDv0 fp variant standard flags = Inr i \<and> wf_id i \<and> NewAssetIDFromBytes i = Inr i
      \<and> id_Tag i = TagAssetV0 \<and> Asset_Standard i = standard \<and> id_Fingerprint i = fp \<and> id_Variant i = variant
      \<and> {f \<in> known_flags. Asset_Flag i f} = set flags
    else GenerateAssetIDv0 fp variant standard flags = Inl ErrUnsupportedFlag"
proof (cases "\<forall>f \<in> set flags. Flag_Supports f TagAssetV0")
  case True
  let ?b = "fold (\<lambda>f x. setFlag x (flag_index f) True) flags 0"
  let ?m = "[TagAssetV0, ?b] @ PutUint16 standard"
  let ?i = "?m @ fp @ PutUint32 variant"
  have gen: "GenerateAssetIDv0 fp variant standard flags = Inr ?i"
    using True by (simp add: GenerateAssetIDv0_def attachFlags_eq)
  note parts = id_split [of ?m fp variant, OF _ assms(1)]
  have nth: "?i ! 0 = TagAssetV0" "?i ! 1 = ?b" by simp_all
  have "?b AND 0x7C = 0" by (rule aid.mask_fold_setFlag [OF assms(2) True]) simp
  then have "Asset_Validate ?i = None" using nth by (simp add: aid.validate_iff)
  moreover have "Asset_Flag ?i f \<longleftrightarrow> f \<in> set flags" if "f \<in> known_flags" for f
  proof (cases "Flag_Supports f TagAssetV0")
    case sup: True
    have "Asset_Flag ?i f \<longleftrightarrow> (\<exists>g \<in> set flags. flag_index g = flag_index f)"
      using sup nth attached_flag [OF known_index [OF that], of True flags 0]
      by (simp add: Asset_Flag_def id_Tag_def getFlag_def)
    also have "\<dots> \<longleftrightarrow> f \<in> set flags" using known_distinct [OF _ that _ sup] True assms(2) by blast
    finally show ?thesis .
  next
    case False
    with True nth show ?thesis by (auto simp: Asset_Flag_def id_Tag_def)
  qed
  moreover have "Asset_Standard ?i = standard" by (simp add: Asset_Standard_def)
  moreover have "length ?m = 4" by simp
  ultimately show ?thesis
    using True gen parts assms(2) nth
    by (auto simp: NewAssetIDFromBytes_def NewAssetID_def wf_id_def id_Tag_def)
next
  case False
  then show ?thesis by (auto simp: GenerateAssetIDv0_def attachFlags_eq)
qed

theorem GenerateAssetIDv0_roundtrip_witness:
  "\<exists>i. GenerateAssetIDv0 (replicate 24 7) 9 3 [AssetLogical] = Inr i \<and> wf_id i \<and> NewAssetIDFromBytes i = Inr i
    \<and> {f \<in> known_flags. Asset_Flag i f} = {AssetLogical}"
proof -
  have "Flag_Supports AssetLogical TagAssetV0" by code_simp
  moreover have "set [AssetLogical] \<subseteq> known_flags" by (simp add: known_flags_def)
  ultimately show ?thesis using GenerateAssetIDv0_roundtrip [of "replicate 24 7" "[AssetLogical]" 9 3] by auto
qed

lemma known_flag_set:
  assumes "set flags \<subseteq> known_flags" and "\<forall>g \<in> set flags. Flag_Supports g t"
    and "f \<in> known_flags" and "Flag_Supports f t"
  shows "getFlag (fold (\<lambda>f x. setFlag x (flag_index f) v) flags x) (flag_index f)
    \<longleftrightarrow> (if f \<in> set flags then v else getFlag x (flag_index f))"
proof -
  have "(\<exists>g \<in> set flags. flag_index g = flag_index f) \<longleftrightarrow> f \<in> set flags"
    using known_distinct [OF _ assms(3) _ assms(4)] assms(1,2) by blast
  then show ?thesis by (simp add: attached_flag [OF known_index [OF assms(3)]])
qed

lemma DeriveVariant_eq:
  assumes "wf_id i"
  shows "DeriveVariant i v s u =
    (if \<forall>f \<in> set s \<union> set u. Flag_Supports f (id_Tag i)
     then Inr ((take 28 i @ PutUint32 v)[1 := fold (\<lambda>f x. setFlag x (flag_index f) False) u
       (fold (\<lambda>f x. setFlag x (flag_index f) True) s (i ! 1))])
     else Inl ErrUnsupportedFlag)"
proof -
  have "id_Tag (take 28 i @ PutUint32 v) = id_Tag i" "(take 28 i @ PutUint32 v) ! 1 = i ! 1"
      "1 < length (take 28 i @ PutUint32 v)"
    using assms by (auto simp: id_Tag_def wf_id_def nth_append)
  then show ?thesis by (auto simp: DeriveVariant_def Let_def attachFlags_eq)
qed

text \<open>C32: \<^verbatim>\<open>DeriveVariant\<close> changes the variant and the given flags and nothing else, and a valid
  participant, asset or logic identifier stays valid; a flag that the tag does not support is
  refused.\<close>

theorem DeriveVariant_correct:
  assumes "wf_id i" and "set s \<subseteq> known_flags" and "set u \<subseteq> known_flags"
  shows "if \<forall>f \<in> set s \<union> set u. Flag_Supports f (id_Tag i)
    then \<exists>d. DeriveVariant i v s u = Inr d \<and> wf_id d \<and> id_Tag d = id_Tag i \<and> id_Metadata d = id_Metadata i
      \<and> id_Fingerprint d = id_Fingerprint i \<and> id_Variant d = v
      \<and> (\<forall>f \<in> known_flags. Flag_Supports f (id_Tag i) \<longrightarrow>
          (getFlag (id_Flags d) (flag_index f) \<longleftrightarrow>
            f \<notin> set u \<and> (f \<in> set s \<or> getFlag (id_Flags i) (flag_index f))))
      \<and> (Participant_Validate i = None \<longrightarrow> Participant_Validate d = None)
      \<and> (Asset_Validate i = None \<longrightarrow> Asset_Validate d = None)
      \<and> (Logic_Validate i = None \<longrightarrow> Logic_Validate d = None)
    else DeriveVariant i v s u = Inl ErrUnsupportedFlag"
proof (cases "\<forall>f \<in> set s \<union> set u. Flag_Supports f (id_Tag i)")
  case True
  let ?x = "fold (\<lambda>f x. setFlag x (flag_index f) True) s (i ! 1)"
  let ?y = "fold (\<lambda>f x. setFlag x (flag_index f) False) u ?x"
  let ?d = "(take 28 i @ PutUint32 v)[1 := ?y]"
  have len: "length i = 32" using assms(1) by (simp add: wf_id_def)
  have d: "DeriveVariant i v s u = Inr ?d" using True by (simp add: DeriveVariant_eq [OF assms(1)])
  have nth: "?d ! k = (if k = 1 then ?y else i ! k)" if "k < 28" for k
    using that len by (auto simp: nth_list_update nth_append)
  have flags: "getFlag ?y (flag_index f) \<longleftrightarrow> f \<notin> set u \<and> (f \<in> set s \<or> getFlag (i ! 1) (flag_index f))"
    if "f \<in> known_flags" "Flag_Supports f (id_Tag i)" for f
    using known_flag_set [OF assms(2) _ that] known_flag_set [OF assms(3) _ that] True by auto
  have "id_Fingerprint ?d = id_Fingerprint i"
    using len by (auto simp: id_Fingerprint_def trimFingerprint_def intro!: nth_equalityI simp: nth nth_list_update nth_append)
  moreover have "id_Variant ?d = v" using len by (simp add: id_Variant_def trimVariant_def drop_update_swap)
  moreover have "wf_id ?d \<and> id_Tag ?d = id_Tag i \<and> id_Metadata ?d = id_Metadata i \<and> id_Flags ?d = ?y"
    using len by (simp add: wf_id_def id_Tag_def id_Metadata_def id_Flags_def nth_append)
  moreover have "id_Flags i = i ! 1" by (simp add: id_Flags_def)
  moreover note pid.DeriveVariant_valid [OF assms(1) _ assms(2,3) d] aid.DeriveVariant_valid [OF assms(1) _ assms(2,3) d]
    lid.DeriveVariant_valid [OF assms(1) _ assms(2,3) d]
  ultimately show ?thesis using True d flags by auto
next
  case False
  then show ?thesis by (auto simp: DeriveVariant_eq [OF assms(1)])
qed

theorem DeriveVariant_correct_witness:
  "\<exists>d. DeriveVariant (TagLogicV0 # replicate 31 0) 5 [LogicAuxiliary] [] = Inr d \<and> id_Variant d = 5
    \<and> getFlag (id_Flags d) (flag_index LogicAuxiliary) \<and> Logic_Validate d = None"
proof -
  have sup: "Flag_Supports LogicAuxiliary (id_Tag (TagLogicV0 # replicate 31 0))" by code_simp
  have val: "Logic_Validate (TagLogicV0 # replicate 31 0) = None" by code_simp
  have kn: "set [LogicAuxiliary] \<subseteq> known_flags" "LogicAuxiliary \<in> known_flags" by (simp_all add: known_flags_def)
  show ?thesis
    using DeriveVariant_correct [of "TagLogicV0 # replicate 31 0" "[LogicAuxiliary]" "[]" 5] sup val kn
    by (auto simp: wf_id_def)
qed

text \<open>C33: The text form of an identifier is read back: \<^verbatim>\<open>UnmarshalText\<close> after \<^verbatim>\<open>MarshalText\<close> and
  \<^verbatim>\<open>NewIdentifierFromHex\<close> after \<^verbatim>\<open>Hex\<close> give the identifier, whatever the receiver was, and two
  identifiers with the same text are equal.\<close>

theorem identifier_text_roundtrip:
  assumes "wf_id i"
  shows "UnmarshalText old (marshal32 i) = Some (i, None) \<and> NewIdentifierFromHex (id_Hex i) = Inr i
    \<and> (marshal32 i = marshal32 j \<longrightarrow> i = j)"
proof -
  have "unmarshal32 (marshal32 i) = Some (Inr i)"
  proof -
    have no: "\<not> has0xPrefix (hex_Encode bs)" for bs
    proof (cases bs)
      case (Cons b rest)
      have "hextable ! n \<noteq> CHR ''x''" if "n < 16" for n
      proof -
        have "\<forall>n \<in> set [0..<16]. hextable ! n \<noteq> CHR ''x''" by code_simp
        with that show ?thesis by simp
      qed
      with Cons nibble_lt(2) [of b] show ?thesis by (auto simp: has0xPrefix_def)
    qed (simp add: has0xPrefix_def)
    then show ?thesis
      using assms by (simp add: unmarshal32_def marshal32_def wf_id_def decodeHexString_def trim0xPrefix_def
          has0xPrefix_def)
  qed
  moreover have "NewIdentifierFromHex (id_Hex i) = Inr i"
    using assms by (simp add: NewIdentifierFromHex_def id_Hex_def decodeHexString_def trim0xPrefix_def
        has0xPrefix_def wf_id_def)
  moreover have "i = j" if "marshal32 i = marshal32 j"
  proof -
    from that have "hex_Decode (hex_Encode i) = hex_Decode (hex_Encode j)" by (simp add: marshal32_def)
    then show ?thesis by simp
  qed
  ultimately show ?thesis by (simp add: UnmarshalText_def)
qed

theorem identifier_text_roundtrip_witness:
  "UnmarshalText [] (marshal32 (replicate 32 171)) = Some (replicate 32 171, None)"
  using identifier_text_roundtrip [of "replicate 32 171" "[]"] by (simp add: wf_id_def)

text \<open>The prefix is trimmed twice: a text of the right length that starts with two prefixes decodes
  to 31 bytes, and the conversion to an array of 32 bytes panics.\<close>

theorem unmarshal32_double_prefix_panics:
  "UnmarshalText old (''0x0x'' @ replicate 62 (CHR ''0'')) = None"
proof -
  have "unmarshal32 (''0x0x'' @ replicate 62 (CHR ''0'')) = None" by code_simp
  then show ?thesis by (simp add: UnmarshalText_def)
qed

end
