(* ===== verification/Interactions.thy ===== *)
theory Interactions
  imports Identifiers Consensus_Types "HOL-Library.List_Lexorder"
begin

text \<open>
  Interactions: the data, payloads and operations of src/common/interaction.go, ixpayload.go and
  ixtype.go, the construction of an interaction from its raw data with the participants it adds,
  the choice of the leader candidate, and the groups of interactions.

  The serialisation and the hash function are third-party code and come as the record \<open>Codec\<close>;
  a decoder that fails returns \<^const>\<open>None\<close>. The participants of an interaction are a Go map that
  the code ranges over: an association list whose order stands for the iteration order. The
  mutable fields of an interaction that only the pool writes, \<^verbatim>\<open>allottedView\<close> and
  \<^verbatim>\<open>shouldPropose\<close>, are part of the state of the pool.
\<close>

section \<open>Payloads\<close>

type_synonym IxOpType = int

abbreviation (input) IxParticipantCreate :: IxOpType where "IxParticipantCreate \<equiv> 1"
abbreviation (input) IxAccountConfigure :: IxOpType where "IxAccountConfigure \<equiv> 2"
abbreviation (input) IxAccountInherit :: IxOpType where "IxAccountInherit \<equiv> 3"
abbreviation (input) IxAssetCreate :: IxOpType where "IxAssetCreate \<equiv> 4"
abbreviation (input) IxAssetAction :: IxOpType where "IxAssetAction \<equiv> 5"
abbreviation (input) IxGuardianRegister :: IxOpType where "IxGuardianRegister \<equiv> 6"
abbreviation (input) IxGuardianStake :: IxOpType where "IxGuardianStake \<equiv> 7"
abbreviation (input) IxGuardianUnstake :: IxOpType where "IxGuardianUnstake \<equiv> 8"
abbreviation (input) IxGuardianWithdraw :: IxOpType where "IxGuardianWithdraw \<equiv> 9"
abbreviation (input) IxGuardianClaim :: IxOpType where "IxGuardianClaim \<equiv> 10"
abbreviation (input) IxLogicDeploy :: IxOpType where "IxLogicDeploy \<equiv> 11"
abbreviation (input) IxLogicInvoke :: IxOpType where "IxLogicInvoke \<equiv> 12"
abbreviation (input) IxLogicEnlist :: IxOpType where "IxLogicEnlist \<equiv> 13"

datatype ix_error =
    ErrMissingSender | ErrMissingPayer | ErrMissingValuePayload | ErrMissingAssetAccount
  | ErrMissingLogicAccount | ErrMissingForeignLogicAccount | ErrInvalidInteractionType
  | ErrInvalidIdentifier | ErrEmptyParticipants | ErrCodec | ErrPayloadNotFound | ErrIdentifier id_error
  | ErrInvalidAssetSymbol | ErrInvalidAssetStandard | ErrInvalidLogicPayload | ErrEmptyManifest
  | ErrInvalidValue | ErrInvalidAssetID | ErrInvalidWeight | ErrInvalidSignatureAlgorithm
  | ErrInvalidAccountConfigure | ErrSenderAccount | ErrInvalidTargetAccount | ErrInvalidCallSite
  | ErrInvalidKramaID | ErrInvalidConsensusKey | ErrInvalidKYCProof | ErrMissingLogicID | ErrInvalidLogicID

record AssetActionPayload =
  aa_AssetID :: Identifier
  aa_Callsite :: string
  aa_Calldata :: "u8 list"
  aa_Funds :: "(Identifier \<times> int) list"

record LogicPayload =
  lp_Manifest :: "u8 list"
  lp_LogicID :: Identifier
  lp_Callsite :: string
  lp_Calldata :: "u8 list"
  lp_Interfaces :: "(string \<times> Identifier) list"

record AssetCreatePayload =
  ac_Symbol :: string
  ac_Dimension :: u8
  ac_Decimals :: u8
  ac_Standard :: "16 word"
  ac_EnableEvents :: bool
  ac_Manager :: Identifier
  ac_MaxSupply :: "int option"
  ac_Logic :: "LogicPayload option"

record KeyAddPayload =
  ka_PublicKey :: "u8 list"
  ka_Weight :: u64
  ka_SignatureAlgorithm :: u64

record ParticipantCreatePayload =
  pc_ID :: Identifier
  pc_KeysPayload :: "KeyAddPayload list"
  pc_Value :: "AssetActionPayload option"

record AccountConfigurePayload =
  cf_Add :: "KeyAddPayload list"
  cf_Revoke :: "u64 list"

record AccountInheritPayload =
  ai_TargetAccount :: Identifier
  ai_Value :: "AssetActionPayload option"
  ai_SubAccountIndex :: u32

record GuardianRegisterPayload =
  gr_KramaID :: KramaID
  gr_WalletID :: Identifier
  gr_ConsensusKey :: "u8 list option"
  gr_KYCProof :: "u8 list option"
  gr_Amount :: "int option"

record GuardianActionPayload =
  ga_KramaID :: KramaID
  ga_Amount :: "int option"

record ParticipantPayload =
  pp_Create :: "ParticipantCreatePayload option"
  pp_Configure :: "AccountConfigurePayload option"
  pp_Inherit :: "AccountInheritPayload option"

record AssetPayload =
  ap_Create :: "AssetCreatePayload option"
  ap_Action :: "AssetActionPayload option"

record GuardianPayload =
  gp_Register :: "GuardianRegisterPayload option"
  gp_Action :: "GuardianActionPayload option"

record IxOpPayload =
  pl_participant :: "ParticipantPayload option"
  pl_guardian :: "GuardianPayload option"
  pl_asset :: "AssetPayload option"
  pl_logic :: "LogicPayload option"

definition no_payload :: IxOpPayload where
  "no_payload = \<lparr>pl_participant = None, pl_guardian = None, pl_asset = None, pl_logic = None\<rparr>"

definition AssetCreate_Flags :: "AssetCreatePayload \<Rightarrow> Flag list" where
  "AssetCreate_Flags ac = [AssetLogical, AssetStateful]"

definition LogicPayload_Flags :: "LogicPayload \<Rightarrow> Flag list" where
  "LogicPayload_Flags payload = []"

definition MASX :: "16 word" where
  "MASX = 65535"

definition ValidAssetStandards :: "16 word \<Rightarrow> bool" where
  "ValidAssetStandards s \<longleftrightarrow> s \<in> {0, 1, 2, MASX}"

definition AssetCreate_Validate :: "AssetCreatePayload \<Rightarrow> ix_error option" where
  "AssetCreate_Validate ac =
     (if ac_Symbol ac = '''' then Some ErrInvalidAssetSymbol
      else if \<not> ValidAssetStandards (ac_Standard ac) then Some ErrInvalidAssetStandard
      else if ac_Standard ac = MASX then
        (case ac_Logic ac of
           None \<Rightarrow> Some ErrInvalidLogicPayload
         | Some l \<Rightarrow> if length (lp_Manifest l) = 0 then Some ErrEmptyManifest else None)
      else None)"

definition ParticipantCreate_Weight :: "ParticipantCreatePayload \<Rightarrow> u64" where
  "ParticipantCreate_Weight register = fold (\<lambda>key weight. weight + ka_Weight key) (pc_KeysPayload register) 0"

definition VerifySignatureAlgorithms :: "ParticipantCreatePayload \<Rightarrow> bool" where
  "VerifySignatureAlgorithms register = list_all (\<lambda>key. ka_SignatureAlgorithm key = 0) (pc_KeysPayload register)"

definition isValidParticipantID :: "Identifier \<Rightarrow> bool" where
  "isValidParticipantID ident = (case NewParticipantID ident of Inl _ \<Rightarrow> False | Inr _ \<Rightarrow> True)"

abbreviation (input) MinWeight :: u64 where "MinWeight \<equiv> 1000"

definition KMOITokenAssetID :: "(u8 list \<Rightarrow> Hash) \<Rightarrow> Identifier" where
  "KMOITokenAssetID GetHash = CreateAssetIDFromString GetHash ''KMOI'' 0 0 [Systemic]"

definition ParticipantCreate_Validate ::
  "(u8 list \<Rightarrow> Hash) \<Rightarrow> ParticipantCreatePayload \<Rightarrow> Identifier \<Rightarrow> ix_error option" where
  "ParticipantCreate_Validate GetHash register senderID =
     (if id_IsNil (pc_ID register) \<or> \<not> isValidParticipantID (pc_ID register) \<or> senderID = pc_ID register
      then Some ErrInvalidIdentifier
      else
        (case pc_Value register of
           None \<Rightarrow> Some ErrInvalidValue
         | Some v \<Rightarrow>
             if aa_AssetID v \<noteq> KMOITokenAssetID GetHash then Some ErrInvalidAssetID
             else if length (aa_Callsite v) = 0 then Some ErrInvalidValue
             else if ParticipantCreate_Weight register < MinWeight then Some ErrInvalidWeight
             else if \<not> VerifySignatureAlgorithms register then Some ErrInvalidSignatureAlgorithm
             else None))"

definition AccountConfigure_Validate :: "AccountConfigurePayload \<Rightarrow> ix_error option" where
  "AccountConfigure_Validate configure =
     (let a = length (cf_Add configure); r = length (cf_Revoke configure)
      in if (a > 0 \<and> r > 0) \<or> (a = 0 \<and> r = 0) then Some ErrInvalidAccountConfigure
         else if list_ex (\<lambda>key. ka_SignatureAlgorithm key > 0) (cf_Add configure)
         then Some ErrInvalidSignatureAlgorithm
         else None)"

definition AccountInherit_Validate ::
  "(u8 list \<Rightarrow> Hash) \<Rightarrow> AccountInheritPayload \<Rightarrow> Identifier \<Rightarrow> ix_error option" where
  "AccountInherit_Validate GetHash inherit senderID =
     (if IsParticipantVariant senderID then Some ErrSenderAccount
      else if id_IsNil (ai_TargetAccount inherit) then Some ErrInvalidIdentifier
      else if Tag_Kind (id_Tag (ai_TargetAccount inherit)) \<noteq> KindLogic then Some ErrInvalidTargetAccount
      else
        (case ai_Value inherit of
           None \<Rightarrow> Some ErrInvalidValue
         | Some v \<Rightarrow>
             if aa_AssetID v \<noteq> KMOITokenAssetID GetHash then Some ErrInvalidAssetID
             else if length (aa_Callsite v) = 0 then Some ErrInvalidCallSite
             else None))"

definition AssetAction_Validate :: "AssetActionPayload \<Rightarrow> ix_error option" where
  "AssetAction_Validate action =
     (if Asset_Validate (aa_AssetID action) \<noteq> None then Some ErrInvalidAssetID
      else if aa_Callsite action = '''' then Some ErrInvalidCallSite
      else None)"

definition GuardianRegister_Validate ::
  "(KramaID \<Rightarrow> bool) \<Rightarrow> GuardianRegisterPayload \<Rightarrow> ix_error option" where
  "GuardianRegister_Validate krama_ok register =
     (if \<not> krama_ok (gr_KramaID register) then Some ErrInvalidKramaID
      else if id_IsNil (gr_WalletID register) then Some ErrInvalidIdentifier
      else if gr_ConsensusKey register = None then Some ErrInvalidConsensusKey
      else if gr_KYCProof register = None then Some ErrInvalidKYCProof
      else (case gr_Amount register of
              None \<Rightarrow> Some ErrInvalidValue
            | Some a \<Rightarrow> if a \<le> 0 then Some ErrInvalidValue else None))"

definition GuardianAction_Validate ::
  "(KramaID \<Rightarrow> bool) \<Rightarrow> GuardianActionPayload \<Rightarrow> ix_error option" where
  "GuardianAction_Validate krama_ok action =
     (if \<not> krama_ok (ga_KramaID action) then Some ErrInvalidKramaID
      else (case ga_Amount action of
              None \<Rightarrow> Some ErrInvalidValue
            | Some a \<Rightarrow> if a \<le> 0 then Some ErrInvalidValue else None))"

definition ValidateLogicDeploy :: "LogicPayload \<Rightarrow> ix_error option" where
  "ValidateLogicDeploy payload = (if length (lp_Manifest payload) = 0 then Some ErrEmptyManifest else None)"

definition ValidateLogicInteract :: "LogicPayload \<Rightarrow> ix_error option" where
  "ValidateLogicInteract payload =
     (if length (lp_Callsite payload) = 0 then Some ErrInvalidCallSite
      else if id_IsNil (lp_LogicID payload) then Some ErrMissingLogicID
      else if Logic_Validate (lp_LogicID payload) \<noteq> None then Some ErrInvalidLogicID
      else None)"

section \<open>Interactions\<close>

record IxParticipant =
  ip_ID :: Identifier
  ip_LockType :: LockType
  ip_Notary :: bool

record IxOpRaw =
  raw_Type :: IxOpType
  raw_Payload :: "u8 list"

record IxData =
  ixd_Sender :: Sender
  ixd_Payer :: Identifier
  ixd_FuelPrice :: "int option"
  ixd_FuelLimit :: u64
  ixd_IxOps :: "IxOpRaw list"
  ixd_Participants :: "IxParticipant list"

record ParticipantInfo =
  info_ID :: Identifier
  info_IsSigner :: bool
  info_LockType :: LockType
  info_IsGenesis :: bool

type_synonym ParticipantMap = "(Identifier \<times> ParticipantInfo) list"

record Signature =
  sig_ID :: Identifier
  sig_KeyID :: u64
  sig_Signature :: "u8 list"

record IxOp =
  op_target :: Identifier
  op_OpType :: IxOpType
  op_Payload :: "IxOpPayload option"

record Interaction =
  ix_inner :: IxData
  ix_ops :: "IxOp list"
  ix_ps :: ParticipantMap
  ix_leaderCandidateAcc :: "ParticipantInfo option"
  ix_hash :: Hash
  ix_size :: u64
  ix_signatures :: "Signature list"

record Codec =
  cd_IxData :: "IxData \<Rightarrow> u8 list option"
  cd_Signatures :: "Signature list \<Rightarrow> u8 list option"
  cd_ParticipantCreate :: "u8 list \<Rightarrow> ParticipantCreatePayload option"
  cd_AccountConfigure :: "u8 list \<Rightarrow> AccountConfigurePayload option"
  cd_AccountInherit :: "u8 list \<Rightarrow> AccountInheritPayload option"
  cd_AssetCreate :: "u8 list \<Rightarrow> AssetCreatePayload option"
  cd_AssetAction :: "u8 list \<Rightarrow> AssetActionPayload option"
  cd_Logic :: "u8 list \<Rightarrow> LogicPayload option"
  cd_GuardianRegister :: "u8 list \<Rightarrow> GuardianRegisterPayload option"
  cd_GuardianAction :: "u8 list \<Rightarrow> GuardianActionPayload option"
  cd_GetHash :: "u8 list \<Rightarrow> Hash"

text \<open>Writing a key of the map: an existing entry is replaced in place, a new one is added.\<close>

definition ps_put :: "Identifier \<Rightarrow> 'v \<Rightarrow> (Identifier \<times> 'v) list \<Rightarrow> (Identifier \<times> 'v) list" where
  "ps_put ident v ps =
     (if ident \<in> fst ` set ps then map (\<lambda>(k, w). if k = ident then (k, v) else (k, w)) ps
      else ps @ [(ident, v)])"

definition ParticipantsInfo :: "IxData \<Rightarrow> ParticipantMap" where
  "ParticipantsInfo ixData = fold (\<lambda>ps.
     ps_put (ip_ID ps) \<lparr>info_ID = ip_ID ps, info_IsSigner = (ip_ID ps = sender_ID (ixd_Sender ixData)),
       info_LockType = ip_LockType ps, info_IsGenesis = False\<rparr>) (ixd_Participants ixData) []"

text \<open>The blocks that add an account to the participants when it is missing.\<close>

definition add_missing :: "Identifier \<Rightarrow> bool \<Rightarrow> ParticipantMap \<Rightarrow> ParticipantMap" where
  "add_missing ident genesis ps =
     (if ident \<in> fst ` set ps then ps
      else ps_put ident \<lparr>info_ID = ident, info_IsSigner = False, info_LockType = MutateLock,
        info_IsGenesis = genesis\<rparr> ps)"

definition new_op :: "Identifier \<Rightarrow> IxOpType \<Rightarrow> IxOpPayload \<Rightarrow> IxOp" where
  "new_op target t p = \<lparr>op_target = target, op_OpType = t, op_Payload = Some p\<rparr>"

definition participant_payload :: "ParticipantPayload \<Rightarrow> IxOpPayload" where
  "participant_payload p = no_payload\<lparr>pl_participant := Some p\<rparr>"

text \<open>The cases of the switch over the operations: the operation and the participants it leaves.\<close>

definition op_ParticipantCreate :: "Codec \<Rightarrow> IxOpRaw \<Rightarrow> ParticipantMap \<Rightarrow> ix_error + IxOp \<times> ParticipantMap" where
  "op_ParticipantCreate cd raw ps =
     (case cd_ParticipantCreate cd (raw_Payload raw) of
        None \<Rightarrow> Inl ErrCodec
      | Some p \<Rightarrow>
          (let o' = new_op (pc_ID p) (raw_Type raw)
                 (participant_payload \<lparr>pp_Create = Some p, pp_Configure = None, pp_Inherit = None\<rparr>);
               ps1 = add_missing (SargaAccountID (cd_GetHash cd)) False ps;
               ps2 = add_missing (pc_ID p) True ps1
           in case pc_Value p of
                None \<Rightarrow> Inl ErrMissingValuePayload
              | Some v \<Rightarrow>
                  if aa_AssetID v \<notin> fst ` set ps2 then Inl ErrMissingAssetAccount else Inr (o', ps2)))"

definition op_AccountConfigure :: "Codec \<Rightarrow> IxOpRaw \<Rightarrow> ParticipantMap \<Rightarrow> ix_error + IxOp \<times> ParticipantMap" where
  "op_AccountConfigure cd raw ps =
     (case cd_AccountConfigure cd (raw_Payload raw) of
        None \<Rightarrow> Inl ErrCodec
      | Some p \<Rightarrow> Inr (new_op Nil_id (raw_Type raw)
          (participant_payload \<lparr>pp_Create = None, pp_Configure = Some p, pp_Inherit = None\<rparr>), ps))"

definition op_AccountInherit ::
  "Codec \<Rightarrow> Sender \<Rightarrow> IxOpRaw \<Rightarrow> ParticipantMap \<Rightarrow> ix_error + IxOp \<times> ParticipantMap" where
  "op_AccountInherit cd sender raw ps =
     (case cd_AccountInherit cd (raw_Payload raw) of
        None \<Rightarrow> Inl ErrCodec
      | Some p \<Rightarrow>
          (case ai_Value p of
             None \<Rightarrow> Inl ErrMissingValuePayload
           | Some v \<Rightarrow>
               (case DeriveVariant (sender_ID sender) (ai_SubAccountIndex p) [] [] of
                  Inl err \<Rightarrow> Inl (ErrIdentifier err)
                | Inr subAccount \<Rightarrow>
                    (let o' = new_op subAccount (raw_Type raw)
                           (participant_payload \<lparr>pp_Create = None, pp_Configure = None, pp_Inherit = Some p\<rparr>);
                         ps1 = add_missing subAccount True ps;
                         ps2 = add_missing (SargaAccountID (cd_GetHash cd)) False ps1
                     in if aa_AssetID v \<notin> fst ` set ps2 then Inl ErrMissingAssetAccount
                        else Inr (o', ps2)))))"

definition op_AssetCreate ::
  "Codec \<Rightarrow> Sender \<Rightarrow> IxOpRaw \<Rightarrow> ParticipantMap \<Rightarrow> ix_error + IxOp \<times> ParticipantMap" where
  "op_AssetCreate cd sender raw ps =
     (case cd_AssetCreate cd (raw_Payload raw) of
        None \<Rightarrow> Inl ErrCodec
      | Some p \<Rightarrow>
          (case GenerateAssetIDv0 (NewAccountID (cd_GetHash cd) sender) 0 (ac_Standard p) (AssetCreate_Flags p) of
             Inl err \<Rightarrow> Inl (ErrIdentifier err)
           | Inr assetID \<Rightarrow>
               Inr (new_op assetID (raw_Type raw)
                      (no_payload\<lparr>pl_asset := Some \<lparr>ap_Create = Some p, ap_Action = None\<rparr>\<rparr>),
                    add_missing assetID True (add_missing (SargaAccountID (cd_GetHash cd)) False ps))))"

definition op_AssetAction :: "Codec \<Rightarrow> IxOpRaw \<Rightarrow> ParticipantMap \<Rightarrow> ix_error + IxOp \<times> ParticipantMap" where
  "op_AssetAction cd raw ps =
     (case cd_AssetAction cd (raw_Payload raw) of
        None \<Rightarrow> Inl ErrCodec
      | Some p \<Rightarrow>
          if aa_AssetID p \<notin> fst ` set ps then Inl ErrMissingAssetAccount
          else Inr (new_op (aa_AssetID p) (raw_Type raw)
            (no_payload\<lparr>pl_asset := Some \<lparr>ap_Create = None, ap_Action = Some p\<rparr>\<rparr>), ps))"

text \<open>Every foreign logic of the payload has to be a participant and is marked as no signer.\<close>

fun foreign_logics :: "(string \<times> Identifier) list \<Rightarrow> ParticipantMap \<Rightarrow> ix_error + ParticipantMap" where
  "foreign_logics [] ps = Inr ps"
| "foreign_logics ((_, logic) # rest) ps =
     (case map_of ps logic of
        None \<Rightarrow> Inl ErrMissingForeignLogicAccount
      | Some account \<Rightarrow> foreign_logics rest (ps_put logic (account\<lparr>info_IsSigner := False\<rparr>) ps))"

definition op_Logic ::
  "Codec \<Rightarrow> Sender \<Rightarrow> IxOpRaw \<Rightarrow> ParticipantMap \<Rightarrow> ix_error + IxOp \<times> ParticipantMap" where
  "op_Logic cd sender raw ps =
     (case cd_Logic cd (raw_Payload raw) of
        None \<Rightarrow> Inl ErrCodec
      | Some p \<Rightarrow>
          (let pl = no_payload\<lparr>pl_logic := Some p\<rparr>
           in if raw_Type raw \<noteq> IxLogicDeploy then
                (if lp_LogicID p \<notin> fst ` set ps then Inl ErrMissingLogicAccount
                 else (case foreign_logics (lp_Interfaces p) ps of
                         Inl err \<Rightarrow> Inl err
                       | Inr ps' \<Rightarrow> Inr (new_op (lp_LogicID p) (raw_Type raw) pl, ps')))
              else
                (let ps1 = add_missing (SargaAccountID (cd_GetHash cd)) False ps;
                     logicID = (case GenerateLogicIDv0 (NewAccountID (cd_GetHash cd) sender) 0
                         (LogicPayload_Flags p) of Inl _ \<Rightarrow> Nil_id | Inr i \<Rightarrow> i)
                 in Inr (new_op logicID (raw_Type raw) pl, add_missing logicID True ps1))))"

definition op_GuardianRegister :: "Codec \<Rightarrow> IxOpRaw \<Rightarrow> ParticipantMap \<Rightarrow> ix_error + IxOp \<times> ParticipantMap" where
  "op_GuardianRegister cd raw ps =
     (case cd_GuardianRegister cd (raw_Payload raw) of
        None \<Rightarrow> Inl ErrCodec
      | Some p \<Rightarrow>
          Inr (new_op Nil_id (raw_Type raw)
                 (no_payload\<lparr>pl_guardian := Some \<lparr>gp_Register = Some p, gp_Action = None\<rparr>\<rparr>),
               add_missing (SystemAccountID (cd_GetHash cd)) False ps))"

definition op_GuardianAction :: "Codec \<Rightarrow> IxOpRaw \<Rightarrow> ParticipantMap \<Rightarrow> ix_error + IxOp \<times> ParticipantMap" where
  "op_GuardianAction cd raw ps =
     (case cd_GuardianAction cd (raw_Payload raw) of
        None \<Rightarrow> Inl ErrCodec
      | Some p \<Rightarrow>
          Inr (new_op Nil_id (raw_Type raw)
                 (no_payload\<lparr>pl_guardian := Some \<lparr>gp_Register = None, gp_Action = Some p\<rparr>\<rparr>),
               add_missing (SystemAccountID (cd_GetHash cd)) False ps))"

definition decode_op ::
  "Codec \<Rightarrow> Sender \<Rightarrow> IxOpRaw \<Rightarrow> ParticipantMap \<Rightarrow> ix_error + IxOp \<times> ParticipantMap" where
  "decode_op cd sender raw ps =
     (let t = raw_Type raw
      in if t = IxParticipantCreate then op_ParticipantCreate cd raw ps
         else if t = IxAccountConfigure then op_AccountConfigure cd raw ps
         else if t = IxAccountInherit then op_AccountInherit cd sender raw ps
         else if t = IxAssetCreate then op_AssetCreate cd sender raw ps
         else if t = IxAssetAction then op_AssetAction cd raw ps
         else if t = IxLogicDeploy \<or> t = IxLogicInvoke then op_Logic cd sender raw ps
         else if t = IxGuardianRegister then op_GuardianRegister cd raw ps
         else if t \<in> {IxGuardianStake, IxGuardianUnstake, IxGuardianWithdraw, IxGuardianClaim}
         then op_GuardianAction cd raw ps
         else Inl ErrInvalidInteractionType)"

fun decode_ops ::
  "Codec \<Rightarrow> Sender \<Rightarrow> IxOpRaw list \<Rightarrow> ParticipantMap \<Rightarrow> ix_error + IxOp list \<times> ParticipantMap" where
  "decode_ops cd sender [] ps = Inr ([], ps)"
| "decode_ops cd sender (raw # raws) ps =
     (case decode_op cd sender raw ps of
        Inl err \<Rightarrow> Inl err
      | Inr (o', ps') \<Rightarrow>
          (case decode_ops cd sender raws ps' of
             Inl err \<Rightarrow> Inl err
           | Inr (os, ps'') \<Rightarrow> Inr (o' # os, ps'')))"

section \<open>The leader candidate\<close>

text \<open>The loop over the participants: it stops at an invalid account or at a system account and
  otherwise collects the accounts that are locked for mutation.\<close>

datatype leader_scan = ScanInvalid | ScanSystem Identifier | ScanDone "Identifier list" "Identifier list"

fun scan_leader ::
  "(u8 list \<Rightarrow> Hash) \<Rightarrow> ParticipantMap \<Rightarrow> Identifier list \<Rightarrow> Identifier list \<Rightarrow> leader_scan" where
  "scan_leader GetHash [] regular nonRegular = ScanDone regular nonRegular"
| "scan_leader GetHash ((ident, info) # ps) regular nonRegular =
     (if AccountTypeFromID GetHash (info_ID info) = InvalidAccount then ScanInvalid
      else if ident = SargaAccountID GetHash \<or> ident = SystemAccountID GetHash then ScanSystem ident
      else if info_IsGenesis info then scan_leader GetHash ps regular nonRegular
      else if AccountTypeFromID GetHash (info_ID info) = RegularAccount \<and> info_LockType info = MutateLock
      then scan_leader GetHash ps (regular @ [ident]) nonRegular
      else if info_LockType info < ReadLock then scan_leader GetHash ps regular (nonRegular @ [ident])
      else scan_leader GetHash ps regular nonRegular)"

text \<open>The first regular account is read without a check that there is one: when there is none the
  index is out of range.\<close>

definition UpdateLeaderCandidateID ::
  "(u8 list \<Rightarrow> Hash) \<Rightarrow> Interaction \<Rightarrow> (Interaction \<times> ix_error option) option" where
  "UpdateLeaderCandidateID GetHash ix =
     (if length (ix_ps ix) = 0 then Some (ix, Some ErrEmptyParticipants)
      else (case scan_leader GetHash (ix_ps ix) [] [] of
              ScanInvalid \<Rightarrow> Some (ix, Some ErrInvalidIdentifier)
            | ScanSystem ident \<Rightarrow> Some (ix\<lparr>ix_leaderCandidateAcc := map_of (ix_ps ix) ident\<rparr>, None)
            | ScanDone regular nonRegular \<Rightarrow>
                if length nonRegular > 0 then
                  Some (ix\<lparr>ix_leaderCandidateAcc := map_of (ix_ps ix) (sort nonRegular ! 0)\<rparr>, None)
                else do {
                  ident \<leftarrow> go_index (sort regular) 0;
                  Some (ix\<lparr>ix_leaderCandidateAcc := map_of (ix_ps ix) ident\<rparr>, None)
                }))"

definition NewInteraction ::
  "Codec \<Rightarrow> IxData \<Rightarrow> Signature list \<Rightarrow> (Interaction option \<times> ix_error option) option" where
  "NewInteraction cd ixData signatures =
     (let ps = ParticipantsInfo ixData; sender = ixd_Sender ixData
      in case cd_IxData cd ixData of
           None \<Rightarrow> Some (None, Some ErrCodec)
         | Some raw \<Rightarrow>
             if sender_ID sender \<notin> fst ` set ps then Some (None, Some ErrMissingSender)
             else if \<not> id_IsNil (ixd_Payer ixData) \<and> ixd_Payer ixData \<notin> fst ` set ps
             then Some (None, Some ErrMissingPayer)
             else (case decode_ops cd sender (ixd_IxOps ixData) ps of
                     Inl err \<Rightarrow> Some (None, Some err)
                   | Inr (ops, ps') \<Rightarrow>
                       (case cd_Signatures cd signatures of
                          None \<Rightarrow> Some (None, Some ErrCodec)
                        | Some sigs \<Rightarrow> do {
                            (ix, err) \<leftarrow> UpdateLeaderCandidateID (cd_GetHash cd)
                              \<lparr>ix_inner = ixData, ix_ops = ops, ix_ps = ps', ix_leaderCandidateAcc = None,
                               ix_hash = cd_GetHash cd raw, ix_size = of_nat (length raw + length sigs),
                               ix_signatures = signatures\<rparr>;
                            Some (Some ix, err)
                          })))"

section \<open>Accessors\<close>

definition ix_SenderID :: "Interaction \<Rightarrow> Identifier" where
  "ix_SenderID ix = sender_ID (ixd_Sender (ix_inner ix))"

definition ix_SenderKeyID :: "Interaction \<Rightarrow> u64" where
  "ix_SenderKeyID ix = sender_KeyID (ixd_Sender (ix_inner ix))"

definition ix_SequenceID :: "Interaction \<Rightarrow> u64" where
  "ix_SequenceID ix = sender_SequenceID (ixd_Sender (ix_inner ix))"

definition ix_FuelPrice :: "Interaction \<Rightarrow> int" where
  "ix_FuelPrice ix = (case ixd_FuelPrice (ix_inner ix) of None \<Rightarrow> 0 | Some p \<Rightarrow> p)"

definition ix_FuelLimit :: "Interaction \<Rightarrow> u64" where
  "ix_FuelLimit ix = ixd_FuelLimit (ix_inner ix)"

definition KMOITokenValue :: "Interaction \<Rightarrow> int" where
  "KMOITokenValue ix = 0"

definition ix_Cost :: "Interaction \<Rightarrow> int" where
  "ix_Cost ix = ix_FuelPrice ix * uint (ix_FuelLimit ix) + KMOITokenValue ix"

definition IsUnderpriced :: "Interaction \<Rightarrow> int \<Rightarrow> bool" where
  "IsUnderpriced ix priceLimit \<longleftrightarrow> ix_FuelPrice ix \<noteq> priceLimit"

definition ix_IDs :: "Interaction \<Rightarrow> Identifier list" where
  "ix_IDs ix = map fst (ix_ps ix)"

definition AccountsWithoutNoLock :: "Interaction \<Rightarrow> Identifier list" where
  "AccountsWithoutNoLock ix = map fst (filter (\<lambda>(ident, info). info_LockType info \<noteq> NoLock) (ix_ps ix))"

text \<open>The leader candidate is a pointer: reading it when it is nil panics.\<close>

definition LeaderCandidateAcc :: "Interaction \<Rightarrow> Identifier option" where
  "LeaderCandidateAcc ix = map_option info_ID (ix_leaderCandidateAcc ix)"

definition GetIxOp :: "Interaction \<Rightarrow> int \<Rightarrow> IxOp option" where
  "GetIxOp ix opID = go_index (ix_ops ix) opID"

definition GetParticipantCreatePayload :: "IxOp \<Rightarrow> ix_error + ParticipantCreatePayload option" where
  "GetParticipantCreatePayload op =
     (case Option.bind (op_Payload op) pl_participant of None \<Rightarrow> Inl ErrPayloadNotFound | Some p \<Rightarrow> Inr (pp_Create p))"

definition GetAccountConfigurePayload :: "IxOp \<Rightarrow> ix_error + AccountConfigurePayload" where
  "GetAccountConfigurePayload op =
     (case do { pl \<leftarrow> op_Payload op; p \<leftarrow> pl_participant pl; pp_Configure p } of
        None \<Rightarrow> Inl ErrPayloadNotFound | Some c \<Rightarrow> Inr c)"

definition GetAccountInheritPayload :: "IxOp \<Rightarrow> ix_error + AccountInheritPayload" where
  "GetAccountInheritPayload op =
     (case do { pl \<leftarrow> op_Payload op; p \<leftarrow> pl_participant pl; pp_Inherit p } of
        None \<Rightarrow> Inl ErrPayloadNotFound | Some c \<Rightarrow> Inr c)"

definition GetAssetCreatePayload :: "IxOp \<Rightarrow> ix_error + AssetCreatePayload" where
  "GetAssetCreatePayload op =
     (case do { pl \<leftarrow> op_Payload op; p \<leftarrow> pl_asset pl; ap_Create p } of
        None \<Rightarrow> Inl ErrPayloadNotFound | Some c \<Rightarrow> Inr c)"

definition GetAssetActionPayload :: "IxOp \<Rightarrow> ix_error + AssetActionPayload" where
  "GetAssetActionPayload op =
     (case do { pl \<leftarrow> op_Payload op; p \<leftarrow> pl_asset pl; ap_Action p } of
        None \<Rightarrow> Inl ErrPayloadNotFound | Some c \<Rightarrow> Inr c)"

definition GetGuardianRegisterPayload :: "IxOp \<Rightarrow> ix_error + GuardianRegisterPayload" where
  "GetGuardianRegisterPayload op =
     (case do { pl \<leftarrow> op_Payload op; p \<leftarrow> pl_guardian pl; gp_Register p } of
        None \<Rightarrow> Inl ErrPayloadNotFound | Some c \<Rightarrow> Inr c)"

definition GetGuardianActionPayload :: "IxOp \<Rightarrow> ix_error + GuardianActionPayload" where
  "GetGuardianActionPayload op =
     (case do { pl \<leftarrow> op_Payload op; p \<leftarrow> pl_guardian pl; gp_Action p } of
        None \<Rightarrow> Inl ErrPayloadNotFound | Some c \<Rightarrow> Inr c)"

definition GetLogicPayload :: "IxOp \<Rightarrow> ix_error + LogicPayload" where
  "GetLogicPayload op =
     (case Option.bind (op_Payload op) pl_logic of None \<Rightarrow> Inl ErrPayloadNotFound | Some c \<Rightarrow> Inr c)"

section \<open>Groups of interactions\<close>

record Interactions =
  ixns :: "Interaction list"
  ixns_leaderCandidateID :: Identifier

fun scan_group ::
  "(u8 list \<Rightarrow> Hash) \<Rightarrow> Interaction list \<Rightarrow> Identifier list \<Rightarrow> Identifier list \<Rightarrow> leader_scan option" where
  "scan_group GetHash [] regular nonRegular = Some (ScanDone regular nonRegular)"
| "scan_group GetHash (ixn # rest) regular nonRegular = do {
     leader \<leftarrow> ix_leaderCandidateAcc ixn;
     (let t = AccountTypeFromID GetHash (info_ID leader)
      in if t = SystemAccount then Some (ScanSystem (info_ID leader))
         else if t = RegularAccount then scan_group GetHash rest (regular @ [info_ID leader]) nonRegular
         else scan_group GetHash rest regular (nonRegular @ [info_ID leader]))
   }"

definition NewInteractionsWithLeaderCheck ::
  "(u8 list \<Rightarrow> Hash) \<Rightarrow> bool \<Rightarrow> Interaction list \<Rightarrow> Interactions option" where
  "NewInteractionsWithLeaderCheck GetHash checkForLeader l =
     (if \<not> checkForLeader then Some \<lparr>ixns = l, ixns_leaderCandidateID = Nil_id\<rparr>
      else do {
        r \<leftarrow> scan_group GetHash l [] [];
        Some \<lparr>ixns = l, ixns_leaderCandidateID =
          (case r of
             ScanSystem ident \<Rightarrow> ident
           | ScanDone regular nonRegular \<Rightarrow>
               if length nonRegular > 0 then sort nonRegular ! 0
               else if length regular > 0 then sort regular ! 0
               else Nil_id
           | ScanInvalid \<Rightarrow> Nil_id)\<rparr>
      })"

definition UniqueIdsWithoutNoLocks :: "Interactions \<Rightarrow> Identifier list" where
  "UniqueIdsWithoutNoLocks g = sort (fold (\<lambda>ixn. fold (\<lambda>(ident, info) ids.
     if info_LockType info = NoLock \<or> ident \<in> set ids then ids else ids @ [ident]) (ix_ps ixn)) (ixns g) [])"

text \<open>The zero value of a participant info that is not in the map yet has the strongest lock.\<close>

definition merge_participant :: "Identifier \<Rightarrow> ParticipantInfo \<Rightarrow> ParticipantMap \<Rightarrow> ParticipantMap" where
  "merge_participant ident info ps =
     (case map_of ps ident of
        None \<Rightarrow> ps_put ident info ps
      | Some oldInfo \<Rightarrow> if info_LockType oldInfo < info_LockType info then ps else ps_put ident info ps)"

definition Interactions_Participants :: "Interactions \<Rightarrow> ParticipantMap" where
  "Interactions_Participants g =
     fold (\<lambda>ixn. fold (\<lambda>(ident, info). merge_participant ident info) (ix_ps ixn)) (ixns g) []"

definition Interactions_Locks :: "Interactions \<Rightarrow> (Identifier \<times> LockType) list" where
  "Interactions_Locks g = map (\<lambda>(ident, info). (ident, info_LockType info)) (Interactions_Participants g)"

definition Interactions_FuelLimit :: "Interactions \<Rightarrow> u64" where
  "Interactions_FuelLimit g = fold (\<lambda>ix limit. limit + ix_FuelLimit ix) (ixns g) 0"

definition Interactions_Size :: "Interactions \<Rightarrow> u64" where
  "Interactions_Size g = fold (\<lambda>ix size. size + ix_size ix) (ixns g) 0"

definition Interactions_Hashes :: "Interactions \<Rightarrow> Hash list" where
  "Interactions_Hashes g = map ix_hash (ixns g)"

section \<open>The participants of an interaction\<close>

text \<open>The keys of the map are distinct and every entry carries its key as its identifier.\<close>

definition ps_ok :: "ParticipantMap \<Rightarrow> bool" where
  "ps_ok ps \<longleftrightarrow> distinct (map fst ps) \<and> (\<forall>(k, info) \<in> set ps. info_ID info = k)"

lemma keys_ps_put [simp]: "fst ` set (ps_put i v ps) = insert i (fst ` set ps)"
  by (force simp: ps_put_def split: prod.splits if_splits)

lemma map_fst_ps_put: "map fst (ps_put i v ps) = (if i \<in> fst ` set ps then map fst ps else map fst ps @ [i])"
  by (auto simp: ps_put_def)

lemma distinct_ps_put [simp]: "distinct (map fst (ps_put i v ps)) \<longleftrightarrow> distinct (map fst ps)"
  by (auto simp: map_fst_ps_put)

lemma map_of_ps_put [simp]: "map_of (ps_put i v ps) k = (if k = i then Some v else map_of ps k)"
proof (cases "i \<in> fst ` set ps")
  case True
  have "map_of (map (\<lambda>(k, w). if k = i then (k, v) else (k, w)) ps) k
      = (if k = i \<and> i \<in> fst ` set ps then Some v else map_of ps k)"
  proof (induction ps)
    case (Cons x ps)
    then show ?case by (cases x; cases "fst x = k"; cases "k = i"; cases "i \<in> fst ` set ps") simp_all
  qed simp
  with True show ?thesis by (simp add: ps_put_def)
next
  case False
  then have "map_of ps i = None" by (simp add: map_of_eq_None_iff)
  with False show ?thesis by (auto simp: ps_put_def map_add_def split: option.splits)
qed

lemma ps_ok_put: "ps_ok ps \<Longrightarrow> info_ID v = i \<Longrightarrow> ps_ok (ps_put i v ps)"
  by (auto simp: ps_ok_def map_fst_ps_put) (auto simp: ps_put_def split: if_splits)

lemma ps_okD:
  assumes "ps_ok ps"
  shows "(k, info) \<in> set ps \<longleftrightarrow> map_of ps k = Some info" and "map_of ps k = Some info \<Longrightarrow> info_ID info = k"
  using assms by (auto simp: ps_ok_def dest: map_of_SomeD)

lemma keys_add_missing [simp]: "fst ` set (add_missing i g ps) = insert i (fst ` set ps)"
  by (auto simp: add_missing_def)

lemma ps_ok_add_missing [inv_intros]: "ps_ok ps \<Longrightarrow> ps_ok (add_missing i g ps)"
  by (auto simp: add_missing_def ps_ok_put)

lemma ps_ok_ParticipantsInfo:
  "ps_ok (ParticipantsInfo d)" "fst ` set (ParticipantsInfo d) = ip_ID ` set (ixd_Participants d)"
proof -
  let ?f = "\<lambda>ps. ps_put (ip_ID ps) \<lparr>info_ID = ip_ID ps, info_IsSigner = (ip_ID ps = sender_ID (ixd_Sender d)),
       info_LockType = ip_LockType ps, info_IsGenesis = False\<rparr>"
  have "ps_ok acc \<Longrightarrow> ps_ok (fold ?f l acc) \<and> fst ` set (fold ?f l acc) = fst ` set acc \<union> ip_ID ` set l" for l acc
    by (induction l arbitrary: acc) (auto simp: ps_ok_put)
  from this [of "[]" "ixd_Participants d"]
  show "ps_ok (ParticipantsInfo d)" "fst ` set (ParticipantsInfo d) = ip_ID ` set (ixd_Participants d)"
    by (simp_all add: ParticipantsInfo_def ps_ok_def)
qed

lemma foreign_logics_ok:
  "foreign_logics l ps = Inr ps' \<Longrightarrow> ps_ok ps \<Longrightarrow>
    ps_ok ps' \<and> fst ` set ps' = fst ` set ps \<and> snd ` set l \<subseteq> fst ` set ps"
proof (induction l arbitrary: ps)
  case Nil
  then show ?case by simp
next
  case (Cons x l)
  obtain s i where x: "x = (s, i)" by (cases x)
  from Cons.prems(1) obtain a where a: "map_of ps i = Some a"
      "foreign_logics l (ps_put i (a\<lparr>info_IsSigner := False\<rparr>) ps) = Inr ps'"
    by (auto simp: x split: option.splits)
  have "info_ID a = i" using ps_okD(2) [OF Cons.prems(2) a(1)] .
  then have "ps_ok (ps_put i (a\<lparr>info_IsSigner := False\<rparr>) ps)" using Cons.prems(2) by (intro ps_ok_put) simp_all
  moreover have "i \<in> fst ` set ps" using map_of_SomeD [OF a(1)] by force
  ultimately show ?case using Cons.IH [OF a(2)] by (auto simp: x insert_absorb)
qed

text \<open>What the decoding of an operation keeps: the participants stay well-formed and only grow, and
  the target of the operation is a participant.\<close>

definition op_keeps :: "IxOpRaw \<Rightarrow> ParticipantMap \<Rightarrow> IxOp \<times> ParticipantMap \<Rightarrow> bool" where
  "op_keeps raw ps r \<longleftrightarrow> ps_ok (snd r) \<and> fst ` set ps \<subseteq> fst ` set (snd r) \<and> op_OpType (fst r) = raw_Type raw
    \<and> (op_target (fst r) = Nil_id \<or> op_target (fst r) \<in> fst ` set (snd r))"

lemma op_keepsI:
  assumes "ps_ok ps'" and "fst ` set ps' = K \<union> fst ` set ps" and "t = Nil_id \<or> t \<in> K \<union> fst ` set ps"
  shows "op_keeps raw ps (new_op t (raw_Type raw) p, ps')"
  using assms by (auto simp: op_keeps_def new_op_def)

lemma op_keeps_missing:
  assumes "ps_ok ps"
  shows "t \<in> {Nil_id, i} \<Longrightarrow> op_keeps raw ps (new_op t (raw_Type raw) p, add_missing i g ps)"
    and "t \<in> {i, j} \<Longrightarrow> op_keeps raw ps (new_op t (raw_Type raw) p, add_missing i g (add_missing j h ps))"
    and "t = Nil_id \<or> t \<in> fst ` set ps \<Longrightarrow> op_keeps raw ps (new_op t (raw_Type raw) p, ps)"
  using assms by (auto simp: op_keeps_def new_op_def intro!: inv_intros simp del: imageE)

lemma op_keeps_ParticipantCreate:
  assumes "ps_ok ps" and "op_ParticipantCreate cd raw ps = Inr r"
  shows "op_keeps raw ps r"
proof -
  obtain p v where "cd_ParticipantCreate cd (raw_Payload raw) = Some p" "pc_Value p = Some v"
    using assms(2) by (auto simp: op_ParticipantCreate_def Let_def split: option.splits)
  with assms(2) show ?thesis
    by (auto simp: op_ParticipantCreate_def Let_def split: if_splits intro: op_keeps_missing(2) [OF assms(1)])
qed

lemma op_keeps_AccountInherit:
  assumes "ps_ok ps" and "op_AccountInherit cd sender raw ps = Inr r"
  shows "op_keeps raw ps r"
proof -
  obtain p v where p: "cd_AccountInherit cd (raw_Payload raw) = Some p" "ai_Value p = Some v"
    using assms(2) by (auto simp: op_AccountInherit_def split: option.splits)
  then obtain i where "DeriveVariant (sender_ID sender) (ai_SubAccountIndex p) [] [] = Inr i"
    using assms(2) by (auto simp: op_AccountInherit_def split: sum.splits)
  with p assms(2) show ?thesis
    by (auto simp: op_AccountInherit_def Let_def split: if_splits intro: op_keeps_missing(2) [OF assms(1)])
qed

lemma op_keeps_AccountConfigure:
  assumes "ps_ok ps" and "op_AccountConfigure cd raw ps = Inr r"
  shows "op_keeps raw ps r"
  using assms(2) op_keeps_missing(3) [OF assms(1), of Nil_id]
  by (auto simp: op_AccountConfigure_def split: option.splits)

lemmas op_keeps_participant = op_keeps_ParticipantCreate op_keeps_AccountConfigure op_keeps_AccountInherit

lemma op_keeps_asset:
  assumes "ps_ok ps"
  shows "op_AssetCreate cd sender raw ps = Inr r \<Longrightarrow> op_keeps raw ps r"
    and "op_AssetAction cd raw ps = Inr r \<Longrightarrow> op_keeps raw ps r"
proof -
  show "op_keeps raw ps r" if "op_AssetCreate cd sender raw ps = Inr r"
    using that by (auto simp: op_AssetCreate_def split: option.splits sum.splits
        intro: op_keeps_missing(2) [OF assms])
  show "op_keeps raw ps r" if op: "op_AssetAction cd raw ps = Inr r"
  proof -
    obtain p where p: "cd_AssetAction cd (raw_Payload raw) = Some p"
      using op by (auto simp: op_AssetAction_def split: option.splits)
    show ?thesis
    proof (cases "aa_AssetID p \<in> fst ` set ps")
      case True
      with op p have "r = (new_op (aa_AssetID p) (raw_Type raw)
          (no_payload\<lparr>pl_asset := Some \<lparr>ap_Create = None, ap_Action = Some p\<rparr>\<rparr>), ps)"
        by (simp add: op_AssetAction_def)
      with True show ?thesis using op_keeps_missing(3) [OF assms, of "aa_AssetID p"] by simp
    qed (use op p in \<open>simp add: op_AssetAction_def\<close>)
  qed
qed

lemma op_keeps_logic:
  assumes "ps_ok ps"
  shows "op_Logic cd sender raw ps = Inr r \<Longrightarrow> op_keeps raw ps r"
proof -
  assume op: "op_Logic cd sender raw ps = Inr r"
  then obtain l where l: "cd_Logic cd (raw_Payload raw) = Some l" by (auto simp: op_Logic_def split: option.splits)
  show ?thesis
  proof (cases "raw_Type raw = IxLogicDeploy")
    case True
    then show ?thesis using op l op_keeps_missing(2) [OF assms, where raw = raw] by (auto simp: op_Logic_def Let_def)
  next
    case False
    with op l have "lp_LogicID l \<in> fst ` set ps" by (auto simp: op_Logic_def Let_def split: if_splits)
    moreover from False op l obtain q p where q: "foreign_logics (lp_Interfaces l) ps = Inr q"
        "r = (new_op (lp_LogicID l) (raw_Type raw) p, q)"
      by (auto simp: op_Logic_def Let_def split: if_splits sum.splits)
    ultimately show ?thesis
      using op_keepsI [of q "{}" ps "lp_LogicID l" raw p] foreign_logics_ok [OF q(1) assms] by simp
  qed
qed

lemma op_keeps_guardian:
  assumes "ps_ok ps"
  shows "op_GuardianRegister cd raw ps = Inr r \<Longrightarrow> op_keeps raw ps r"
    and "op_GuardianAction cd raw ps = Inr r \<Longrightarrow> op_keeps raw ps r"
  by (auto simp: op_GuardianRegister_def op_GuardianAction_def split: option.splits
      intro: op_keeps_missing(1) [OF assms])

lemma decode_op_keeps:
  assumes "decode_op cd sender raw ps = Inr r" and "ps_ok ps"
  shows "op_keeps raw ps r"
proof -
  have "\<exists>f \<in> {op_ParticipantCreate cd, op_AccountConfigure cd, op_AccountInherit cd sender, op_AssetCreate cd sender,
      op_AssetAction cd, op_Logic cd sender, op_GuardianRegister cd, op_GuardianAction cd}. f raw ps = Inr r"
    using assms(1) by (simp add: decode_op_def Let_def split: if_split_asm)
  then show ?thesis
    using op_keeps_participant [OF assms(2)] op_keeps_asset [OF assms(2)] op_keeps_logic [OF assms(2)]
      op_keeps_guardian [OF assms(2)] by (cases r) auto
qed

lemma decode_ops_keeps:
  "decode_ops cd sender raws ps = Inr (os, ps') \<Longrightarrow> ps_ok ps \<Longrightarrow>
    ps_ok ps' \<and> fst ` set ps \<subseteq> fst ` set ps' \<and> map op_OpType os = map raw_Type raws
    \<and> (\<forall>o' \<in> set os. op_target o' = Nil_id \<or> op_target o' \<in> fst ` set ps')"
proof (induction raws arbitrary: ps os)
  case Nil
  then show ?case by simp
next
  case (Cons raw raws)
  from Cons.prems(1) obtain o1 ps1 os1 where d: "decode_op cd sender raw ps = Inr (o1, ps1)"
      "decode_ops cd sender raws ps1 = Inr (os1, ps')" "os = o1 # os1"
    by (auto split: sum.splits)
  have k: "op_keeps raw ps (o1, ps1)" by (rule decode_op_keeps [OF d(1) Cons.prems(2)])
  then have "ps_ok ps1" by (simp add: op_keeps_def)
  from Cons.IH [OF d(2) this] k d(3) show ?case by (simp add: op_keeps_def) blast
qed

section \<open>The choice of the leader\<close>

text \<open>What the choice depends on: the system accounts among the participants, and the least
  non-regular and regular account that the interaction mutates and does not create.\<close>

definition leader_pool :: "(u8 list \<Rightarrow> Hash) \<Rightarrow> bool \<Rightarrow> ParticipantMap \<Rightarrow> Identifier set" where
  "leader_pool GetHash regular ps =
     {i. \<exists>info. (i, info) \<in> set ps \<and> \<not> info_IsGenesis info \<and> info_LockType info = MutateLock
       \<and> (AccountTypeFromID GetHash (info_ID info) = RegularAccount \<longleftrightarrow> regular)}"

definition expected_leader :: "(u8 list \<Rightarrow> Hash) \<Rightarrow> ParticipantMap \<Rightarrow> Identifier option" where
  "expected_leader GetHash ps =
     (if SargaAccountID GetHash \<in> fst ` set ps then Some (SargaAccountID GetHash)
      else if SystemAccountID GetHash \<in> fst ` set ps then Some (SystemAccountID GetHash)
      else if leader_pool GetHash False ps \<noteq> {} then Some (Min (leader_pool GetHash False ps))
      else if leader_pool GetHash True ps \<noteq> {} then Some (Min (leader_pool GetHash True ps))
      else None)"

lemma sort_first: "xs \<noteq> [] \<Longrightarrow> sort xs ! 0 = Min (set (xs :: 'a::linorder list))"
proof -
  assume "xs \<noteq> []"
  then obtain y ys where y: "sort xs = y # ys" by (metis length_sort list.exhaust list.size(3) length_0_conv)
  then have "set xs = insert y (set ys)" by (metis list.simps(15) set_sort)
  moreover have "\<forall>z \<in> set ys. y \<le> z" using sorted_sort [of xs] by (simp add: y)
  ultimately show ?thesis using y by (simp add: Min_insert2)
qed

lemma scan_leader_done:
  assumes "\<forall>(i, info) \<in> set ps. AccountTypeFromID H (info_ID info) \<noteq> InvalidAccount
      \<and> i \<noteq> SargaAccountID H \<and> i \<noteq> SystemAccountID H"
  shows "\<exists>r n. scan_leader H ps regular nonRegular = ScanDone (regular @ r) (nonRegular @ n)
    \<and> set r = leader_pool H True ps \<and> set n = leader_pool H False ps"
  using assms
proof (induction ps arbitrary: regular nonRegular)
  case Nil
  then show ?case by (simp add: leader_pool_def)
next
  case (Cons x ps)
  obtain i info where x: "x = (i, info)" by (cases x)
  have lock: "info_LockType info < ReadLock \<longleftrightarrow> info_LockType info = MutateLock"
    by (cases "info_LockType info") (simp_all add: less_LockType_def)
  have pool: "leader_pool H b (x # ps) = (if \<not> info_IsGenesis info \<and> info_LockType info = MutateLock
      \<and> (AccountTypeFromID H (info_ID info) = RegularAccount \<longleftrightarrow> b) then insert i (leader_pool H b ps)
      else leader_pool H b ps)" for b
    by (auto simp: leader_pool_def x)
  have here: "AccountTypeFromID H (info_ID info) \<noteq> InvalidAccount" "i \<noteq> SargaAccountID H" "i \<noteq> SystemAccountID H"
    and rest: "\<forall>(i, info) \<in> set ps. AccountTypeFromID H (info_ID info) \<noteq> InvalidAccount
      \<and> i \<noteq> SargaAccountID H \<and> i \<noteq> SystemAccountID H"
    using Cons.prems by (auto simp: x)
  note pool' = pool [unfolded x]
  show ?case
  proof (cases "\<not> info_IsGenesis info \<and> info_LockType info = MutateLock")
    case False
    then have "scan_leader H (x # ps) regular nonRegular = scan_leader H ps regular nonRegular"
      using here by (auto simp: x lock)
    with Cons.IH [OF rest, of regular nonRegular] False show ?thesis by (auto simp: x pool')
  next
    case mut: True
    show ?thesis
    proof (cases "AccountTypeFromID H (info_ID info) = RegularAccount")
      case True
      then have "scan_leader H (x # ps) regular nonRegular = scan_leader H ps (regular @ [i]) nonRegular"
        using here mut by (simp add: x)
      moreover obtain r n where "scan_leader H ps (regular @ [i]) nonRegular = ScanDone ((regular @ [i]) @ r) (nonRegular @ n)"
          "set r = leader_pool H True ps" "set n = leader_pool H False ps"
        using Cons.IH [OF rest, of "regular @ [i]" nonRegular] by auto
      ultimately show ?thesis using mut True by (intro exI [of _ "i # r"] exI [of _ n]) (simp add: x pool')
    next
      case False
      then have "scan_leader H (x # ps) regular nonRegular = scan_leader H ps regular (nonRegular @ [i])"
        using here mut by (simp add: x less_LockType_def)
      moreover obtain r n where "scan_leader H ps regular (nonRegular @ [i]) = ScanDone (regular @ r) ((nonRegular @ [i]) @ n)"
          "set r = leader_pool H True ps" "set n = leader_pool H False ps"
        using Cons.IH [OF rest, of regular "nonRegular @ [i]"] by auto
      ultimately show ?thesis using mut False by (intro exI [of _ r] exI [of _ "i # n"]) (simp add: x pool')
    qed
  qed
qed

lemma scan_leader_system:
  assumes "\<forall>(i, info) \<in> set ps. AccountTypeFromID H (info_ID info) \<noteq> InvalidAccount"
    and "s \<in> fst ` set ps" and "s = SargaAccountID H \<or> s = SystemAccountID H"
    and "\<not> (SargaAccountID H \<in> fst ` set ps \<and> SystemAccountID H \<in> fst ` set ps)"
  shows "scan_leader H ps regular nonRegular = ScanSystem s"
  using assms
proof (induction ps arbitrary: regular nonRegular)
  case Nil
  then show ?case by simp
next
  case (Cons x ps)
  obtain i info where x: "x = (i, info)" by (cases x)
  have valid: "AccountTypeFromID H (info_ID info) \<noteq> InvalidAccount"
    and rest: "\<forall>(i, info) \<in> set ps. AccountTypeFromID H (info_ID info) \<noteq> InvalidAccount"
    using Cons.prems(1) by (auto simp: x)
  show ?case
  proof (cases "i = s")
    case True
    with valid Cons.prems(3) show ?thesis by (auto simp: x)
  next
    case False
    then have s: "s \<in> fst ` set ps" using Cons.prems(2) by (simp add: x)
    have keys: "fst ` set (x # ps) = insert i (fst ` set ps)" by (simp add: x)
    have i: "i \<noteq> SargaAccountID H \<and> i \<noteq> SystemAccountID H"
      using s False Cons.prems(3,4) unfolding keys by (metis insertCI)
    have "\<not> (SargaAccountID H \<in> fst ` set ps \<and> SystemAccountID H \<in> fst ` set ps)"
      using Cons.prems(4) unfolding keys by blast
    note IH = Cons.IH [OF rest s Cons.prems(3) this]
    show ?thesis using valid i by (simp add: x IH)
  qed
qed

lemma leader_pool_finite: "finite (leader_pool H b ps)"
  by (rule finite_subset [of _ "fst ` set ps"]) (force simp: leader_pool_def)+

lemma UpdateLeader_eq:
  assumes "ix_ps ix \<noteq> []" and "\<forall>(i, info) \<in> set (ix_ps ix). AccountTypeFromID H (info_ID info) \<noteq> InvalidAccount"
    and "\<not> (SargaAccountID H \<in> fst ` set (ix_ps ix) \<and> SystemAccountID H \<in> fst ` set (ix_ps ix))"
  shows "UpdateLeaderCandidateID H ix =
    (case expected_leader H (ix_ps ix) of
       None \<Rightarrow> None
     | Some l \<Rightarrow> Some (ix\<lparr>ix_leaderCandidateAcc := map_of (ix_ps ix) l\<rparr>, None))"
proof (cases "\<exists>s \<in> fst ` set (ix_ps ix). s = SargaAccountID H \<or> s = SystemAccountID H")
  case True
  then obtain s where s: "s \<in> fst ` set (ix_ps ix)" "s = SargaAccountID H \<or> s = SystemAccountID H" by blast
  have "expected_leader H (ix_ps ix) = Some s" using s assms(3) unfolding expected_leader_def by (elim disjE) simp_all
  then show ?thesis
    using scan_leader_system [OF assms(2) s assms(3), of "[]" "[]"] assms(1) by (simp add: UpdateLeaderCandidateID_def)
next
  case False
  have "\<forall>(i, info) \<in> set (ix_ps ix). AccountTypeFromID H (info_ID info) \<noteq> InvalidAccount
      \<and> i \<noteq> SargaAccountID H \<and> i \<noteq> SystemAccountID H"
    using assms(2) False by force
  from scan_leader_done [OF this, of "[]" "[]"] obtain r n where rn:
      "scan_leader H (ix_ps ix) [] [] = ScanDone r n" "set r = leader_pool H True (ix_ps ix)"
      "set n = leader_pool H False (ix_ps ix)" by auto
  have sys: "SargaAccountID H \<notin> fst ` set (ix_ps ix)" "SystemAccountID H \<notin> fst ` set (ix_ps ix)"
    using False by blast+
  show ?thesis
  proof (cases "n = []")
    case False
    then show ?thesis
      using rn sys assms(1) sort_first [of n] by (auto simp: UpdateLeaderCandidateID_def expected_leader_def)
  next
    case n: True
    show ?thesis
    proof (cases "r = []")
      case True
      then show ?thesis
        using rn sys assms(1) n by (auto simp: UpdateLeaderCandidateID_def expected_leader_def go_index_def)
    next
      case False
      then have "go_index (sort r) 0 = Some (Min (set r))" by (simp add: go_index_def sort_first)
      then show ?thesis
        using rn sys assms(1) n False by (auto simp: UpdateLeaderCandidateID_def expected_leader_def)
    qed
  qed
qed

lemma UpdateLeader_frame:
  assumes "UpdateLeaderCandidateID H ix = Some (ix', err)"
  shows "ix' = ix\<lparr>ix_leaderCandidateAcc := ix_leaderCandidateAcc ix'\<rparr>"
  using assms
  by (auto simp: UpdateLeaderCandidateID_def split: if_splits leader_scan.splits Option.bind_splits)

lemma scan_leader_sound:
  "scan_leader H ps r n = ScanSystem s \<Longrightarrow> s \<in> fst ` set ps"
  "scan_leader H ps r n = ScanDone r' n' \<Longrightarrow> set r' \<union> set n' \<subseteq> set r \<union> set n \<union> fst ` set ps"
  by (induction H ps r n rule: scan_leader.induct) (auto split: if_splits simp del: imageE)

text \<open>A leader candidate that was chosen without an error is one of the participants.\<close>

lemma UpdateLeader_member:
  assumes "UpdateLeaderCandidateID H ix = Some (ix', None)"
  shows "\<exists>l \<in> fst ` set (ix_ps ix). ix_leaderCandidateAcc ix' = map_of (ix_ps ix) l"
proof (cases "scan_leader H (ix_ps ix) [] []")
  case ScanInvalid
  with assms show ?thesis by (simp add: UpdateLeaderCandidateID_def split: if_splits)
next
  case (ScanSystem s)
  with assms have "ix_leaderCandidateAcc ix' = map_of (ix_ps ix) s"
    by (auto simp: UpdateLeaderCandidateID_def split: if_splits)
  with scan_leader_sound(1) [OF ScanSystem] show ?thesis by blast
next
  case (ScanDone r n)
  note mem = scan_leader_sound(2) [OF ScanDone]
  show ?thesis
  proof (cases "n = []")
    case False
    then have "sort n ! 0 \<in> set n" using sort_first [of n] by simp
    moreover from assms ScanDone False have "ix_leaderCandidateAcc ix' = map_of (ix_ps ix) (sort n ! 0)"
      by (auto simp: UpdateLeaderCandidateID_def split: if_splits)
    moreover have "set n \<subseteq> fst ` set (ix_ps ix)" using mem by simp
    ultimately show ?thesis by blast
  next
    case True
    with assms ScanDone have r: "r \<noteq> []" "ix_leaderCandidateAcc ix' = map_of (ix_ps ix) (sort r ! 0)"
      by (auto simp: UpdateLeaderCandidateID_def go_index_def split: if_splits Option.bind_splits)
    then have "sort r ! 0 \<in> set r" using sort_first [of r] by simp
    moreover have "set r \<subseteq> fst ` set (ix_ps ix)" using mem by simp
    ultimately show ?thesis using r(2) by blast
  qed
qed

section \<open>The merged participants of a group\<close>

lemma map_of_merge:
  "map_of (merge_participant i info ps) k =
     (if k = i then Some (case map_of ps i of
          None \<Rightarrow> info
        | Some old \<Rightarrow> if info_LockType old < info_LockType info then old else info)
      else map_of ps k)"
  by (auto simp: merge_participant_def split: option.splits)

text \<open>The entries of a group in the order in which the loops see them.\<close>

definition group_entries :: "Interactions \<Rightarrow> (Identifier \<times> ParticipantInfo) list" where
  "group_entries g = concat (map ix_ps (ixns g))"

lemma Participants_entries:
  "Interactions_Participants g = fold (\<lambda>(i, info). merge_participant i info) (group_entries g) []"
proof -
  have "fold (\<lambda>ixn. fold (\<lambda>(i, info). merge_participant i info) (ix_ps ixn)) l acc
      = fold (\<lambda>(i, info). merge_participant i info) (concat (map ix_ps l)) acc" for l acc
    by (induction l arbitrary: acc) simp_all
  then show ?thesis by (simp add: Interactions_Participants_def group_entries_def)
qed

definition entries_for :: "Identifier \<Rightarrow> (Identifier \<times> ParticipantInfo) list \<Rightarrow> ParticipantMap \<Rightarrow> ParticipantInfo set" where
  "entries_for k es acc = {info. (k, info) \<in> set es} \<union> set_option (map_of acc k)"

lemma fold_merge:
  "case map_of (fold (\<lambda>(i, info). merge_participant i info) es acc) k of
     None \<Rightarrow> entries_for k es acc = {}
   | Some v \<Rightarrow> v \<in> entries_for k es acc \<and> (\<forall>w \<in> entries_for k es acc. info_LockType v \<le> info_LockType w)"
proof (induction es arbitrary: acc)
  case Nil
  then show ?case by (auto simp: entries_for_def split: option.splits)
next
  case (Cons e es)
  obtain i info where e: "e = (i, info)" by (cases e)
  let ?acc = "merge_participant i info acc"
  let ?r = "map_of (fold (\<lambda>(i, info). merge_participant i info) es ?acc) k"
  note IH = Cons.IH [of ?acc]
  show ?case
  proof (cases "k = i")
    case False
    then have "entries_for k (e # es) acc = entries_for k es ?acc"
      by (auto simp: entries_for_def e map_of_merge)
    with IH show ?thesis unfolding e by (simp split: option.splits)
  next
    case True
    obtain win where win: "map_of ?acc i = Some win" "win \<in> insert info (set_option (map_of acc i))"
        "\<forall>w \<in> insert info (set_option (map_of acc i)). info_LockType win \<le> info_LockType w"
      by (cases "map_of acc i"; cases "info_LockType (the (map_of acc i)) < info_LockType info")
        (auto simp: map_of_merge)
    have S: "entries_for k es ?acc = insert win {info. (k, info) \<in> set es}"
        "entries_for k (e # es) acc = {info. (k, info) \<in> set es} \<union> insert info (set_option (map_of acc i))"
      using True win(1) by (auto simp: entries_for_def e)
    then obtain v where v: "?r = Some v" "v \<in> entries_for k es ?acc"
        "\<forall>w \<in> entries_for k es ?acc. info_LockType v \<le> info_LockType w"
      using IH by (auto split: option.splits)
    have "info_LockType v \<le> info_LockType w" if "w \<in> entries_for k (e # es) acc" for w
    proof (cases "(k, w) \<in> set es")
      case True
      with v(3) S(1) show ?thesis by simp
    next
      case False
      with that S(2) win(3) have "info_LockType win \<le> info_LockType w" by auto
      moreover have "info_LockType v \<le> info_LockType win" using v(3) S(1) by simp
      ultimately show ?thesis by (rule order_trans [rotated])
    qed
    moreover have "v \<in> entries_for k (e # es) acc" using v(2) S win(2) by auto
    ultimately show ?thesis using v(1) unfolding e by simp
  qed
qed

lemma distinct_Participants: "distinct (map fst (Interactions_Participants g))"
proof -
  have "distinct (map fst acc) \<Longrightarrow> distinct (map fst (fold (\<lambda>(i, info). merge_participant i info) es acc))" for es acc
    by (induction es arbitrary: acc) (auto simp: merge_participant_def split: option.splits)
  then show ?thesis by (simp add: Participants_entries)
qed

section \<open>Properties\<close>

text \<open>C28: An interaction that \<^verbatim>\<open>NewInteraction\<close> builds is well-formed: the sender and the payer
  participate, the operations are those of the raw data in their order, the target of every
  operation participates, the entries of the participants carry their own identifiers, and a
  leader candidate that is chosen is a participant.\<close>

theorem NewInteraction_well_formed:
  assumes "NewInteraction cd ixData sigs = Some (Some ix, err)"
  shows "ps_ok (ix_ps ix) \<and> ix_SenderID ix \<in> set (ix_IDs ix)
    \<and> (id_IsNil (ixd_Payer ixData) \<or> ixd_Payer ixData \<in> set (ix_IDs ix))
    \<and> map op_OpType (ix_ops ix) = map raw_Type (ixd_IxOps ixData)
    \<and> (\<forall>o' \<in> set (ix_ops ix). op_target o' = Nil_id \<or> op_target o' \<in> set (ix_IDs ix))
    \<and> (err = None \<longrightarrow> (\<exists>l. LeaderCandidateAcc ix = Some l \<and> l \<in> set (ix_IDs ix)))"
proof -
  let ?ps = "ParticipantsInfo ixData"
  note new = assms [unfolded NewInteraction_def Let_def]
  obtain raw where raw: "cd_IxData cd ixData = Some raw" using new by (auto split: option.splits)
  have s: "sender_ID (ixd_Sender ixData) \<in> fst ` set ?ps"
      "id_IsNil (ixd_Payer ixData) \<or> ixd_Payer ixData \<in> fst ` set ?ps"
    using new raw by (simp_all split: if_split_asm)
  obtain ops ps' where d: "decode_ops cd (ixd_Sender ixData) (ixd_IxOps ixData) ?ps = Inr (ops, ps')"
    using new raw s by (auto split: sum.splits if_splits simp del: imageE)
  obtain sb where sb: "cd_Signatures cd sigs = Some sb"
    using new raw s d by (auto split: option.splits if_splits simp del: imageE)
  define ix0 where "ix0 = \<lparr>ix_inner = ixData, ix_ops = ops, ix_ps = ps', ix_leaderCandidateAcc = None,
    ix_hash = cd_GetHash cd raw, ix_size = of_nat (length raw + length sb), ix_signatures = sigs\<rparr>"
  have f0: "ix_inner ix0 = ixData" "ix_ops ix0 = ops" "ix_ps ix0 = ps'" by (simp_all add: ix0_def)
  have payer: "(\<not> id_IsNil (ixd_Payer ixData) \<and> ixd_Payer ixData \<notin> fst ` set ?ps) = False" using s(2) by blast
  have u: "UpdateLeaderCandidateID (cd_GetHash cd) ix0 = Some (ix, err)"
    using new by (simp only: raw s(1) payer d sb option.case sum.case prod.case not_True_eq_False if_False flip: ix0_def)
      (auto split: Option.bind_splits)
  note k = decode_ops_keeps [OF d ps_ok_ParticipantsInfo(1)]
  have f: "ix_inner ix = ixData" "ix_ops ix = ops" "ix_ps ix = ps'"
    using f0 arg_cong [OF UpdateLeader_frame [OF u], of ix_inner] arg_cong [OF UpdateLeader_frame [OF u], of ix_ops]
      arg_cong [OF UpdateLeader_frame [OF u], of ix_ps] by simp_all
  have "\<exists>l. LeaderCandidateAcc ix = Some l \<and> l \<in> set (ix_IDs ix)" if "err = None"
  proof -
    from UpdateLeader_member [OF u [unfolded that]] obtain l where l: "l \<in> fst ` set ps'"
        "ix_leaderCandidateAcc ix = map_of ps' l" unfolding f0(3) by blast
    then obtain info where info: "map_of ps' l = Some info" by (metis map_of_eq_None_iff not_None_eq)
    with l ps_okD(2) [of ps' l info] k show ?thesis by (auto simp: LeaderCandidateAcc_def ix_IDs_def f(3))
  qed
  with k s show ?thesis by (auto simp: ix_SenderID_def ix_IDs_def f simp del: imageE)
qed

text \<open>A codec without payloads: an example of the third-party parameters.\<close>

definition example_codec :: Codec where
  "example_codec = \<lparr>cd_IxData = (\<lambda>_. Some []), cd_Signatures = (\<lambda>_. Some []),
     cd_ParticipantCreate = (\<lambda>_. None), cd_AccountConfigure = (\<lambda>_. Some \<lparr>cf_Add = [], cf_Revoke = [0]\<rparr>),
     cd_AccountInherit = (\<lambda>_. None),
     cd_AssetCreate = (\<lambda>_. Some \<lparr>ac_Symbol = ''A'', ac_Dimension = 0, ac_Decimals = 0, ac_Standard = 0,
       ac_EnableEvents = False, ac_Manager = Nil_id, ac_MaxSupply = None, ac_Logic = None\<rparr>),
     cd_AssetAction = (\<lambda>_. None), cd_Logic = (\<lambda>_. None),
     cd_GuardianRegister = (\<lambda>_. Some \<lparr>gr_KramaID = '''', gr_WalletID = [], gr_ConsensusKey = None,
       gr_KYCProof = None, gr_Amount = None\<rparr>),
     cd_GuardianAction = (\<lambda>_. None), cd_GetHash = (\<lambda>_. replicate 32 0)\<rparr>"

definition example_data :: "LockType \<Rightarrow> IxOpType list \<Rightarrow> IxData" where
  "example_data lock ops = \<lparr>ixd_Sender = \<lparr>sender_ID = 0 # replicate 31 1, sender_SequenceID = 0, sender_KeyID = 0\<rparr>,
     ixd_Payer = Nil_id, ixd_FuelPrice = Some 1, ixd_FuelLimit = 1,
     ixd_IxOps = map (\<lambda>t. \<lparr>raw_Type = t, raw_Payload = []\<rparr>) ops,
     ixd_Participants = [\<lparr>ip_ID = 0 # replicate 31 1, ip_LockType = lock, ip_Notary = False\<rparr>]\<rparr>"

theorem NewInteraction_well_formed_witness:
  "\<exists>ix. NewInteraction example_codec (example_data MutateLock [IxAccountConfigure]) [] = Some (Some ix, None)
    \<and> ps_ok (ix_ps ix) \<and> (\<exists>l. LeaderCandidateAcc ix = Some l \<and> l \<in> set (ix_IDs ix))"
proof -
  have "map_option (\<lambda>(ix, err). (ix = None, err)) (NewInteraction example_codec (example_data MutateLock [IxAccountConfigure]) [])
      = Some (False, None)"
    by code_simp
  then obtain ix where ix: "NewInteraction example_codec (example_data MutateLock [IxAccountConfigure]) [] = Some (Some ix, None)"
    by auto
  with NewInteraction_well_formed [OF ix] show ?thesis by simp
qed


definition example_ix :: "ParticipantMap \<Rightarrow> Interaction" where
  "example_ix ps = \<lparr>ix_inner = example_data MutateLock [], ix_ops = [], ix_ps = ps, ix_leaderCandidateAcc = None,
     ix_hash = [], ix_size = 0, ix_signatures = []\<rparr>"

definition example_info :: "Identifier \<Rightarrow> Identifier \<times> ParticipantInfo" where
  "example_info i = (i, \<lparr>info_ID = i, info_IsSigner = False, info_LockType = MutateLock, info_IsGenesis = False\<rparr>)"


text \<open>C30: The participants of a group of interactions are those of its interactions, each once,
  with the strongest lock that any of the interactions asks for.\<close>

theorem Interactions_Participants_strongest_lock:
  "distinct (map fst (Interactions_Participants g))
    \<and> (case map_of (Interactions_Participants g) k of
         None \<Rightarrow> \<forall>ix \<in> set (ixns g). \<forall>info. (k, info) \<notin> set (ix_ps ix)
       | Some v \<Rightarrow> (\<exists>ix \<in> set (ixns g). (k, v) \<in> set (ix_ps ix))
           \<and> (\<forall>ix \<in> set (ixns g). \<forall>w. (k, w) \<in> set (ix_ps ix) \<longrightarrow> info_LockType v \<le> info_LockType w))"
proof -
  have "entries_for k (group_entries g) [] = {info. \<exists>ix \<in> set (ixns g). (k, info) \<in> set (ix_ps ix)}"
    by (auto simp: entries_for_def group_entries_def)
  with fold_merge [where es = "group_entries g" and acc = "[]" and k = k]
  have "case map_of (Interactions_Participants g) k of
      None \<Rightarrow> {info. \<exists>ix \<in> set (ixns g). (k, info) \<in> set (ix_ps ix)} = {}
    | Some v \<Rightarrow> v \<in> {info. \<exists>ix \<in> set (ixns g). (k, info) \<in> set (ix_ps ix)}
        \<and> (\<forall>w \<in> {info. \<exists>ix \<in> set (ixns g). (k, info) \<in> set (ix_ps ix)}. info_LockType v \<le> info_LockType w)"
    by (simp only: Participants_entries)
  then show ?thesis
    using distinct_Participants [of g] by (cases "map_of (Interactions_Participants g) k") (simp, auto)
qed

theorem Interactions_Participants_strongest_lock_witness:
  "map_of (Interactions_Participants \<lparr>ixns = [example_ix [example_info [1]]], ixns_leaderCandidateID = []\<rparr>) [1]
    = Some (snd (example_info [1]))"
proof -
  let ?g = "\<lparr>ixns = [example_ix [example_info [1]]], ixns_leaderCandidateID = []\<rparr>"
  have "map_of (Interactions_Participants ?g) [1] \<noteq> None" by code_simp
  with Interactions_Participants_strongest_lock [of ?g "[1]"] show ?thesis
    by (auto simp: example_ix_def example_info_def split: option.splits)
qed

section \<open>Findings\<close>

text \<open>An interaction whose only participant is its sender, without a mutate lock, has no leader
  candidate: building it reads the first element of an empty list and panics.\<close>

theorem NewInteraction_without_mutation_panics:
  "NewInteraction example_codec (example_data NoLock []) [] = None"
  by code_simp

text \<open>With both system accounts among the participants, the leader candidate is the one the
  iteration meets first: two iteration orders of the same map give different leaders.\<close>

theorem leader_depends_on_iteration_order:
  "\<exists>ps ps'. mset ps = mset ps' \<and> ps_ok ps
    \<and> map_option (LeaderCandidateAcc \<circ> fst) (UpdateLeaderCandidateID (\<lambda>_. replicate 32 0) (example_ix ps))
      \<noteq> map_option (LeaderCandidateAcc \<circ> fst) (UpdateLeaderCandidateID (\<lambda>_. replicate 32 0) (example_ix ps'))"
proof -
  let ?H = "\<lambda>_ :: u8 list. replicate 32 (0 :: u8)"
  let ?a = "example_info (SargaAccountID ?H)" and ?b = "example_info (SystemAccountID ?H)"
  have "ps_ok [?a, ?b]" by code_simp
  moreover have "map_option (LeaderCandidateAcc \<circ> fst) (UpdateLeaderCandidateID ?H (example_ix [?a, ?b]))
      \<noteq> map_option (LeaderCandidateAcc \<circ> fst) (UpdateLeaderCandidateID ?H (example_ix [?b, ?a]))" by code_simp
  moreover have "mset [?a, ?b] = mset [?b, ?a]" by simp
  ultimately show ?thesis by blast
qed

text \<open>\<^verbatim>\<open>IsUnderpriced\<close> also holds for an interaction that pays more than the limit.\<close>

theorem IsUnderpriced_above_the_limit:
  "ix_FuelPrice ix > limit \<Longrightarrow> IsUnderpriced ix limit"
  by (simp add: IsUnderpriced_def)

end
