(* ===== verification/Go_Heap.thy ===== *)
theory Go_Heap
  imports Go_Prelude
begin

text \<open>
  The binary heap of Go's standard library package \<^verbatim>\<open>container/heap\<close>, as the queues of the
  repository use it: the heap is a slice, ordered by a \<^verbatim>\<open>Less\<close> method that compares two
  elements. The locale \<open>heap_order\<close> states what a \<^verbatim>\<open>Less\<close> method has to satisfy; the queues
  interpret it with their own comparisons and inherit the heap laws.
\<close>

section \<open>Definitions\<close>

definition parent :: "nat \<Rightarrow> nat" where
  "parent j = (j - 1) div 2"

definition go_swap :: "'a list \<Rightarrow> nat \<Rightarrow> nat \<Rightarrow> 'a list" where
  "go_swap xs i j = xs[i := xs ! j, j := xs ! i]"

function heap_up :: "('a \<Rightarrow> 'a \<Rightarrow> bool) \<Rightarrow> 'a list \<Rightarrow> nat \<Rightarrow> 'a list" where
  "heap_up lt xs j =
     (let i = parent j
      in if i = j \<or> \<not> lt (xs ! j) (xs ! i) then xs
         else heap_up lt (go_swap xs i j) i)"
  by pat_completeness auto
termination
  by (relation "measure (\<lambda>(lt, xs, j). j)") (auto simp: parent_def)

text \<open>The loop of \<^verbatim>\<open>down\<close>; the second result is the index at which it stops.\<close>

function heap_down :: "('a \<Rightarrow> 'a \<Rightarrow> bool) \<Rightarrow> nat \<Rightarrow> 'a list \<Rightarrow> nat \<Rightarrow> 'a list \<times> nat" where
  "heap_down lt n xs i =
     (let j1 = 2 * i + 1
      in if j1 \<ge> n then (xs, i)
         else
           (let j2 = j1 + 1;
                j = (if j2 < n \<and> lt (xs ! j2) (xs ! j1) then j2 else j1)
            in if \<not> lt (xs ! j) (xs ! i) then (xs, i)
               else heap_down lt n (go_swap xs i j) j))"
  by pat_completeness auto
termination
  by (relation "measure (\<lambda>(lt, n, xs, i). n - i)") (auto simp: Let_def split: if_splits)

declare heap_up.simps [simp del] heap_down.simps [simp del]

definition heap_Push :: "('a \<Rightarrow> 'a \<Rightarrow> bool) \<Rightarrow> 'a \<Rightarrow> 'a list \<Rightarrow> 'a list" where
  "heap_Push lt x xs = heap_up lt (xs @ [x]) (length xs)"

text \<open>\<^verbatim>\<open>heap.Pop\<close>: the root is swapped to the end, the new root sinks, the last element is
  removed and returned. On an empty heap the swap panics.\<close>

definition heap_Pop :: "('a \<Rightarrow> 'a \<Rightarrow> bool) \<Rightarrow> 'a list \<Rightarrow> ('a \<times> 'a list) option" where
  "heap_Pop lt xs =
     (if xs = [] then None
      else
        (let n = length xs - 1;
             ys = fst (heap_down lt n (go_swap xs 0 n) 0)
         in Some (last ys, butlast ys)))"

section \<open>Permutation and frame\<close>

lemma parent_lt: "0 < j \<Longrightarrow> parent j < j"
  by (simp add: parent_def)

lemma parent_0 [simp]: "parent 0 = 0"
  by (simp add: parent_def)

lemma parent_child: "0 < k \<Longrightarrow> parent k = i \<longleftrightarrow> k = 2 * i + 1 \<or> k = 2 * i + 2"
  unfolding parent_def by (cases k) auto

lemma length_go_swap [simp]: "length (go_swap xs i j) = length xs"
  by (simp add: go_swap_def)

lemma mset_go_swap: "i < length xs \<Longrightarrow> j < length xs \<Longrightarrow> mset (go_swap xs i j) = mset xs"
  by (simp add: go_swap_def mset_swap)

lemma nth_go_swap:
  "i < length xs \<Longrightarrow> j < length xs \<Longrightarrow>
    go_swap xs i j ! k = (if k = i then xs ! j else if k = j then xs ! i else xs ! k)"
  by (auto simp: go_swap_def nth_list_update)

lemma length_heap_up [simp]: "length (heap_up lt xs j) = length xs"
  by (induction lt xs j rule: heap_up.induct) (subst heap_up.simps, auto simp: Let_def)

lemma mset_heap_up: "j < length xs \<Longrightarrow> mset (heap_up lt xs j) = mset xs"
proof (induction lt xs j rule: heap_up.induct)
  case (1 lt xs j)
  have "parent j < length xs" using 1(2) parent_lt [of j] by (cases "j = 0") auto
  with 1 show ?case
    by (subst heap_up.simps) (auto simp: Let_def mset_go_swap)
qed

lemma heap_down_frame:
  assumes "n \<le> length xs" and "i < n"
  shows "length (fst (heap_down lt n xs i)) = length xs
    \<and> mset (fst (heap_down lt n xs i)) = mset xs
    \<and> drop n (fst (heap_down lt n xs i)) = drop n xs"
  using assms
proof (induction lt n xs i rule: heap_down.induct)
  case (1 lt n xs i)
  have "drop n (go_swap xs i j) = drop n xs" if "j < n" for j
    using that 1(3) by (simp add: go_swap_def)
  with 1 show ?case
    by (subst (1 2 3) heap_down.simps) (auto simp: Let_def mset_go_swap)
qed

section \<open>The heap order\<close>

text \<open>A \<^verbatim>\<open>Less\<close> method is a strict weak order: its complement, read backwards, is a total preorder.\<close>

locale heap_order =
  fixes lt :: "'a \<Rightarrow> 'a \<Rightarrow> bool"
  assumes asym: "lt a b \<Longrightarrow> \<not> lt b a"
    and le_trans: "\<not> lt b a \<Longrightarrow> \<not> lt c b \<Longrightarrow> \<not> lt c a"
begin

definition heap_on :: "nat \<Rightarrow> 'a list \<Rightarrow> bool" where
  "heap_on n xs \<longleftrightarrow> n \<le> length xs \<and> (\<forall>k. 0 < k \<and> k < n \<longrightarrow> \<not> lt (xs ! k) (xs ! parent k))"

text \<open>The order holds everywhere but between index \<open>i\<close> and its children, or its parent.\<close>

definition hole_down :: "nat \<Rightarrow> 'a list \<Rightarrow> nat \<Rightarrow> bool" where
  "hole_down n xs i \<longleftrightarrow> n \<le> length xs \<and> (\<forall>k. 0 < k \<and> k < n \<longrightarrow>
      (parent k \<noteq> i \<longrightarrow> \<not> lt (xs ! k) (xs ! parent k))
    \<and> (parent k = i \<and> 0 < i \<longrightarrow> \<not> lt (xs ! k) (xs ! parent i)))"

definition hole_up :: "'a list \<Rightarrow> nat \<Rightarrow> bool" where
  "hole_up xs j \<longleftrightarrow> (\<forall>k. 0 < k \<and> k < length xs \<longrightarrow>
      (k \<noteq> j \<longrightarrow> \<not> lt (xs ! k) (xs ! parent k))
    \<and> (parent k = j \<and> 0 < j \<longrightarrow> \<not> lt (xs ! k) (xs ! parent j)))"

lemma irrefl: "\<not> lt a a"
  using asym by blast

lemma heap_root_least:
  assumes "heap_on n xs" and "k < n"
  shows "\<not> lt (xs ! k) (xs ! 0)"
  using assms(2)
proof (induction k rule: less_induct)
  case (less k)
  show ?case
  proof (cases "k = 0")
    case True
    then show ?thesis by (simp add: irrefl)
  next
    case False
    then have "\<not> lt (xs ! parent k) (xs ! 0)"
      using less parent_lt [of k] by simp
    moreover have "\<not> lt (xs ! k) (xs ! parent k)"
      using assms(1) less.prems False by (simp add: heap_on_def)
    ultimately show ?thesis using le_trans by blast
  qed
qed

lemma heap_up_step:
  assumes "hole_up xs j" and "j < length xs" and "0 < j" and "lt (xs ! j) (xs ! parent j)"
  shows "hole_up (go_swap xs (parent j) j) (parent j)"
proof -
  let ?i = "parent j" and ?ys = "go_swap xs (parent j) j"
  have i: "?i < j" using assms(3) by (rule parent_lt)
  have nth: "?ys ! k = (if k = ?i then xs ! j else if k = j then xs ! ?i else xs ! k)" for k
    using i assms(2) by (simp add: nth_go_swap)
  have ok: "\<not> lt (xs ! k) (xs ! parent k)" if "0 < k" "k < length xs" "k \<noteq> j" for k
    using assms(1) that by (simp add: hole_up_def)
  have skip: "\<not> lt (xs ! k) (xs ! ?i)" if "0 < k" "k < length xs" "parent k = j" for k
    using assms(1,3) that by (simp add: hole_up_def)
  have ord: "\<not> lt (?ys ! k) (?ys ! parent k)" if k: "0 < k" "k < length xs" "k \<noteq> ?i" for k
  proof (cases "k = j")
    case True
    then show ?thesis using assms(4) asym i by (auto simp: nth)
  next
    case False
    have "\<not> lt (xs ! k) (xs ! j)" if "parent k = ?i"
      using ok [OF k(1,2) False] that assms(4) asym le_trans by metis
    then show ?thesis using False ok [OF k(1,2)] skip [OF k(1,2)] k(3) by (auto simp: nth)
  qed
  have "\<not> lt (?ys ! k) (?ys ! parent ?i)" if k: "0 < k" "k < length xs" "parent k = ?i" "0 < ?i" for k
  proof -
    have i': "\<not> lt (xs ! ?i) (xs ! parent ?i)"
      using ok [of ?i] k(4) i assms(2) by simp
    have pp: "parent ?i \<noteq> ?i" "parent ?i \<noteq> j" "k \<noteq> ?i"
      using parent_lt [OF k(4)] i parent_lt [OF k(1)] k(3) by auto
    show ?thesis
    proof (cases "k = j")
      case True
      with i' pp i show ?thesis by (simp add: nth)
    next
      case False
      with ok [OF k(1,2)] k(3) i' have "\<not> lt (xs ! k) (xs ! parent ?i)"
        using le_trans by metis
      with pp False show ?thesis by (simp add: nth)
    qed
  qed
  with ord show ?thesis by (simp add: hole_up_def)
qed

lemma heap_up_heap:
  assumes "hole_up xs j" and "j < length xs"
  shows "heap_on (length xs) (heap_up lt xs j)"
  using assms
proof (induction j arbitrary: xs rule: less_induct)
  case (less j)
  show ?case
  proof (cases "parent j = j \<or> \<not> lt (xs ! j) (xs ! parent j)")
    case True
    then have "0 < j \<Longrightarrow> \<not> lt (xs ! j) (xs ! parent j)" using parent_lt [of j] by auto
    with less.prems have "heap_on (length xs) xs" by (auto simp: heap_on_def hole_up_def)
    with True show ?thesis by (subst heap_up.simps) (auto simp: Let_def)
  next
    case False
    then have j: "0 < j" by (cases j) auto
    have "hole_up (go_swap xs (parent j) j) (parent j)"
      using False less.prems j by (intro heap_up_step) auto
    with less.IH [OF parent_lt [OF j], of "go_swap xs (parent j) j"] less.prems(2) parent_lt [OF j]
    have "heap_on (length xs) (heap_up lt (go_swap xs (parent j) j) (parent j))" by simp
    with False show ?thesis by (subst heap_up.simps) (simp add: Let_def)
  qed
qed

lemma heap_down_step:
  assumes "hole_down n xs i" and "j < n" and "0 < j" and "parent j = i"
    and least: "\<And>k. 0 < k \<Longrightarrow> k < n \<Longrightarrow> parent k = i \<Longrightarrow> \<not> lt (xs ! k) (xs ! j)"
    and "lt (xs ! j) (xs ! i)"
  shows "hole_down n (go_swap xs i j) j"
proof -
  let ?ys = "go_swap xs i j"
  have ij: "i < j" using parent_lt [OF assms(3)] assms(4) by simp
  have n: "n \<le> length xs" using assms(1) by (simp add: hole_down_def)
  have nth: "?ys ! k = (if k = i then xs ! j else if k = j then xs ! i else xs ! k)" for k
    using ij assms(2) n by (simp add: nth_go_swap)
  have ok: "\<not> lt (xs ! k) (xs ! parent k)" if "0 < k" "k < n" "parent k \<noteq> i" for k
    using assms(1) that by (simp add: hole_down_def)
  have "\<not> lt (?ys ! k) (?ys ! parent k)" if k: "0 < k" "k < n" "parent k \<noteq> j" for k
  proof (cases "parent k = i")
    case True
    then have "k \<noteq> i" using parent_lt [OF k(1)] by simp
    with True least [OF k(1,2) True] assms(6) asym ij show ?thesis by (auto simp: nth)
  next
    case False
    show ?thesis
    proof (cases "k = i")
      case True
      have "\<not> lt (xs ! j) (xs ! parent i)"
        using assms(1-4) True k(1) by (simp add: hole_down_def)
      moreover have "parent i \<noteq> i" "parent i \<noteq> j" using True False k by auto
      ultimately show ?thesis using True by (simp add: nth)
    next
      case neq: False
      have "k \<noteq> j" using False assms(4) by auto
      with neq False k ok [OF k(1,2) False] show ?thesis by (simp add: nth)
    qed
  qed
  moreover have "\<not> lt (?ys ! k) (?ys ! parent j)" if k: "0 < k" "k < n" "parent k = j" for k
  proof -
    have "k \<noteq> j" "k \<noteq> i" using parent_lt [OF k(1)] k(3) ij by auto
    with ok [OF k(1,2)] k(3) ij assms(4) show ?thesis by (simp add: nth)
  qed
  ultimately show ?thesis using n by (simp add: hole_down_def)
qed

lemma heap_down_heap:
  assumes "hole_down n xs i" and "i < n"
  shows "heap_on n (fst (heap_down lt n xs i))"
  using assms
proof (induction "n - i" arbitrary: xs i rule: less_induct)
  case less
  let ?j = "if 2 * i + 1 + 1 < n \<and> lt (xs ! (2 * i + 1 + 1)) (xs ! (2 * i + 1)) then 2 * i + 1 + 1 else 2 * i + 1"
  show ?case
  proof (cases "2 * i + 1 \<ge> n")
    case True
    have "parent k \<noteq> i" if "0 < k" "k < n" for k
      using True that by (auto simp: parent_child)
    with less.prems(1) have "heap_on n xs" by (auto simp: heap_on_def hole_down_def)
    with True show ?thesis by (subst heap_down.simps) simp
  next
    case False
    have j: "?j < n" "0 < ?j" "parent ?j = i" "i < ?j" using False by (auto simp: parent_def)
    have least: "\<not> lt (xs ! k) (xs ! ?j)" if "0 < k" "k < n" "parent k = i" for k
      using that asym irrefl by (auto simp: parent_child)
    have unf: "heap_down lt n xs i
        = (if \<not> lt (xs ! ?j) (xs ! i) then (xs, i) else heap_down lt n (go_swap xs i ?j) ?j)"
      unfolding heap_down.simps [of lt n xs i] Let_def using False by (rule if_not_P)
    show ?thesis
    proof (cases "lt (xs ! ?j) (xs ! i)")
      case True
      have "hole_down n (go_swap xs i ?j) ?j"
        by (rule heap_down_step [OF less.prems(1) j(1-3) least True])
      then have "heap_on n (fst (heap_down lt n (go_swap xs i ?j) ?j))"
        using j less.prems(2) by (intro less.hyps) auto
      then show ?thesis unfolding unf using True by simp
    next
      case nlt: False
      have "\<not> lt (xs ! k) (xs ! i)" if "0 < k" "k < n" "parent k = i" for k
        using least [OF that] nlt le_trans by blast
      with less.prems(1) have "heap_on n xs" by (auto simp: heap_on_def hole_down_def)
      then show ?thesis unfolding unf using nlt by simp
    qed
  qed
qed

section \<open>The heap laws\<close>

abbreviation heap :: "'a list \<Rightarrow> bool" where
  "heap xs \<equiv> heap_on (length xs) xs"

lemma heap_Nil: "heap []"
  by (simp add: heap_on_def)

lemma length_heap_Push [simp]: "length (heap_Push lt x xs) = Suc (length xs)"
  by (simp add: heap_Push_def)

lemma heap_heap_Push: "heap xs \<Longrightarrow> heap (heap_Push lt x xs)"
proof -
  assume h: "heap xs"
  have "hole_up (xs @ [x]) (length xs)"
    unfolding hole_up_def
  proof (intro allI impI conjI)
    fix k assume k: "0 < k \<and> k < length (xs @ [x])"
    then have p: "parent k < k" by (simp add: parent_lt)
    { assume "k \<noteq> length xs"
      with k p h show "\<not> lt ((xs @ [x]) ! k) ((xs @ [x]) ! parent k)"
        by (simp add: heap_on_def nth_append) }
    { assume "parent k = length xs \<and> 0 < length xs"
      with k p show "\<not> lt ((xs @ [x]) ! k) ((xs @ [x]) ! parent (length xs))" by simp }
  qed
  then have "heap_on (length (xs @ [x])) (heap_up lt (xs @ [x]) (length xs))"
    by (rule heap_up_heap) simp
  then show ?thesis by (simp add: heap_Push_def)
qed

lemma mset_heap_Push: "mset (heap_Push lt x xs) = add_mset x (mset xs)"
  by (simp add: heap_Push_def mset_heap_up)

lemma heap_Pop_Nil: "heap_Pop lt [] = None"
  by (simp add: heap_Pop_def)

text \<open>Popping a non-empty heap returns its first element, which no element is less than, and
  leaves a heap of the others.\<close>

lemma heap_Pop_spec:
  assumes "heap xs" and "xs \<noteq> []"
  obtains ys where "heap_Pop lt xs = Some (xs ! 0, ys)" and "heap ys"
    and "mset xs = add_mset (xs ! 0) (mset ys)" and "\<And>y. y \<in> set xs \<Longrightarrow> \<not> lt y (xs ! 0)"
proof -
  let ?n = "length xs - 1" and ?sw = "go_swap xs 0 (length xs - 1)"
  define zs where "zs = fst (heap_down lt ?n ?sw 0)"
  have n: "?n < length xs" "0 < length xs" using assms(2) by auto
  have zs: "length zs = length xs \<and> mset zs = mset xs \<and> drop ?n zs = drop ?n ?sw \<and> heap_on ?n zs"
  proof (cases "?n = 0")
    case True
    then show ?thesis
      using n heap_down.simps [of lt ?n ?sw 0] by (simp add: zs_def mset_go_swap heap_on_def)
  next
    case False
    have "hole_down ?n ?sw 0"
      using assms(1) n by (auto simp: hole_down_def heap_on_def nth_go_swap parent_def)
    then have "heap_on ?n zs" using False unfolding zs_def by (intro heap_down_heap) auto
    moreover have "length zs = length ?sw \<and> mset zs = mset ?sw \<and> drop ?n zs = drop ?n ?sw"
      using False n unfolding zs_def by (intro heap_down_frame) auto
    ultimately show ?thesis using n by (simp add: mset_go_swap)
  qed
  have "last zs = last (drop ?n zs)" using zs n by (intro last_drop [symmetric]) simp
  also have "\<dots> = last (drop ?n ?sw)" using zs by simp
  also have "\<dots> = last ?sw" using n by (intro last_drop) simp
  also have "\<dots> = xs ! 0" using n by (simp add: last_conv_nth nth_go_swap flip: length_greater_0_conv)
  finally have last: "last zs = xs ! 0" .
  have ne: "zs \<noteq> []" using zs n by (metis length_greater_0_conv)
  then have "mset zs = add_mset (last zs) (mset (butlast zs))"
    by (subst append_butlast_last_id [symmetric]) (auto simp del: append_butlast_last_id)
  with zs last have "mset xs = add_mset (xs ! 0) (mset (butlast zs))" by simp
  moreover have "heap (butlast zs)"
    unfolding heap_on_def
  proof (intro conjI allI impI)
    fix k assume k: "0 < k \<and> k < length (butlast zs)"
    then have "parent k < length (butlast zs)" using parent_lt [of k] by simp
    with k zs show "\<not> lt (butlast zs ! k) (butlast zs ! parent k)"
      by (simp add: heap_on_def nth_butlast)
  qed simp
  moreover have "heap_Pop lt xs = Some (xs ! 0, butlast zs)"
    using assms(2) last by (simp add: heap_Pop_def Let_def zs_def)
  moreover have "\<not> lt y (xs ! 0)" if "y \<in> set xs" for y
    using that heap_root_least [OF assms(1)] by (auto simp: in_set_conv_nth)
  ultimately show ?thesis using that by blast
qed

end

end
