(* ===== verification/Ix_Queues.thy ===== *)
theory Ix_Queues
  imports Go_Heap Interactions "HOL-Library.Char_ord"
begin

text \<open>
  The queues of the interaction pool: src/ixpool/queue.go, account.go, lookup_map.go and slot.go.
  A queue is the slice that the heap of the standard library orders. The account queues of a sender
  hold the interactions that wait for an earlier sequence identifier (enqueued) and those that can
  be proposed (promoted). The table of accounts is a Go map that the code ranges over, an
  association list; the third-party tree of the sorted participants is a list that is sorted by the
  text of the identifiers. The current time is an argument.
\<close>

section \<open>Queues\<close>

text \<open>The three orders: \<^verbatim>\<open>Less\<close> of \<^verbatim>\<open>minSequenceIDQueue\<close>, \<^verbatim>\<open>maxPriceQueue\<close> and
  \<^verbatim>\<open>maxWaitQueue\<close>. \<^verbatim>\<open>Uint64\<close> of a big integer keeps its lowest 64 bits.\<close>

definition seq_less :: "Interaction \<Rightarrow> Interaction \<Rightarrow> bool" where
  "seq_less a b \<longleftrightarrow> ix_SequenceID a < ix_SequenceID b"

definition price_key :: "Interaction \<Rightarrow> u64" where
  "price_key ix = of_int (abs (ix_FuelPrice ix))"

definition price_less :: "Interaction \<Rightarrow> Interaction \<Rightarrow> bool" where
  "price_less a b \<longleftrightarrow> price_key a > price_key b"

record WaitInteractions =
  waitCounter :: int
  wait_ix :: Interaction

definition wait_less :: "WaitInteractions \<Rightarrow> WaitInteractions \<Rightarrow> bool" where
  "wait_less a b \<longleftrightarrow> waitCounter a > waitCounter b"

type_synonym ixQueue = "Interaction list"

definition q_length :: "ixQueue \<Rightarrow> u64" where
  "q_length q = of_nat (length q)"

definition q_peek :: "'a list \<Rightarrow> 'a option" where
  "q_peek q = (if length q = 0 then None else Some (q ! 0))"

definition q_list :: "ixQueue \<Rightarrow> Interaction list" where
  "q_list q = q"

definition q_push :: "Interaction \<Rightarrow> ixQueue \<Rightarrow> ixQueue" where
  "q_push ix q = heap_Push seq_less ix q"

definition q_pop :: "ixQueue \<Rightarrow> Interaction option \<times> ixQueue" where
  "q_pop q = (case heap_Pop seq_less q of None \<Rightarrow> (None, q) | Some (ix, q') \<Rightarrow> (Some ix, q'))"

definition q_clear :: "ixQueue \<Rightarrow> Interaction list \<times> ixQueue" where
  "q_clear q = (q, [])"

lemma heap_Pop_length: "heap_Pop lt xs = Some (x, ys) \<Longrightarrow> xs \<noteq> [] \<and> length ys < length xs"
proof -
  assume pop: "heap_Pop lt xs = Some (x, ys)"
  then have ne: "xs \<noteq> []" by (auto simp: heap_Pop_def)
  let ?n = "length xs - 1"
  have "length (fst (heap_down lt ?n (go_swap xs 0 ?n) 0)) = length xs"
  proof (cases "?n = 0")
    case True
    then show ?thesis by (subst heap_down.simps) simp
  next
    case False
    then show ?thesis using heap_down_frame [of ?n "go_swap xs 0 ?n" 0 lt] by simp
  qed
  with pop ne show ?thesis by (auto simp: heap_Pop_def Let_def)
qed

function q_prune :: "u64 \<Rightarrow> ixQueue \<Rightarrow> Interaction list \<times> ixQueue" where
  "q_prune sequenceID q =
     (case q_peek q of
        None \<Rightarrow> ([], q)
      | Some ix \<Rightarrow>
          if ix_SequenceID ix \<ge> sequenceID then ([], q)
          else (case q_pop q of
                  (None, q') \<Rightarrow> ([], q')
                | (Some ix', q') \<Rightarrow> (let (pruned, q'') = q_prune sequenceID q' in (ix' # pruned, q''))))"
  by pat_completeness auto
termination
  by (relation "measure (\<lambda>(s, q). length q)") (auto simp: q_pop_def dest: heap_Pop_length split: option.splits)

declare q_prune.simps [simp del]

definition price_Push :: "Interaction \<Rightarrow> Interaction list \<Rightarrow> Interaction list" where
  "price_Push ix q = heap_Push price_less ix q"

definition price_Pop :: "Interaction list \<Rightarrow> Interaction option \<times> Interaction list" where
  "price_Pop q = (case heap_Pop price_less q of None \<Rightarrow> (None, q) | Some (ix, q') \<Rightarrow> (Some ix, q'))"

definition wait_Push :: "WaitInteractions \<Rightarrow> WaitInteractions list \<Rightarrow> WaitInteractions list" where
  "wait_Push w q = heap_Push wait_less w q"

definition wait_Pop :: "WaitInteractions list \<Rightarrow> Interaction option \<times> WaitInteractions list" where
  "wait_Pop q = (case heap_Pop wait_less q of None \<Rightarrow> (None, q) | Some (w, q') \<Rightarrow> (Some (wait_ix w), q'))"

definition wait_Peek :: "WaitInteractions list \<Rightarrow> Interaction option" where
  "wait_Peek q = map_option wait_ix (q_peek q)"

section \<open>Account queues\<close>

record accountQueue =
  aq_keyID :: u64
  aq_enqueued :: ixQueue
  aq_promoted :: ixQueue
  aq_sequenceIDToIX :: "u64 \<rightharpoonup> Interaction"
  aq_nextSequenceID :: u64

definition getSequenceID :: "accountQueue \<Rightarrow> u64" where
  "getSequenceID a = aq_nextSequenceID a"

definition setSequenceID :: "u64 \<Rightarrow> accountQueue \<Rightarrow> accountQueue" where
  "setSequenceID sequenceID a = a\<lparr>aq_nextSequenceID := sequenceID\<rparr>"

definition seqmap_set :: "Interaction \<Rightarrow> (u64 \<rightharpoonup> Interaction) \<Rightarrow> (u64 \<rightharpoonup> Interaction)" where
  "seqmap_set ix m = m(ix_SequenceID ix \<mapsto> ix)"

definition seqmap_remove :: "Interaction list \<Rightarrow> (u64 \<rightharpoonup> Interaction) \<Rightarrow> (u64 \<rightharpoonup> Interaction)" where
  "seqmap_remove l m = fold (\<lambda>ix m. m(ix_SequenceID ix := None)) l m"

text \<open>The closure \<^verbatim>\<open>replaceInQueue\<close>: the first interaction with the same sequence identifier is
  overwritten.\<close>

fun replaceInQueue :: "Interaction \<Rightarrow> ixQueue \<Rightarrow> bool \<times> ixQueue" where
  "replaceInQueue ix [] = (False, [])"
| "replaceInQueue ix (x # queue) =
     (if ix_SequenceID x = ix_SequenceID ix then (True, ix # queue)
      else (let (r, queue') = replaceInQueue ix queue in (r, x # queue')))"

definition aq_enqueue :: "Interaction \<Rightarrow> bool \<Rightarrow> accountQueue \<Rightarrow> bool \<times> accountQueue" where
  "aq_enqueue ix replace a =
     (let a1 = a\<lparr>aq_sequenceIDToIX := seqmap_set ix (aq_sequenceIDToIX a)\<rparr>
      in if \<not> replace then (False, a1\<lparr>aq_enqueued := q_push ix (aq_enqueued a1)\<rparr>)
         else
           (let (r, e) = replaceInQueue ix (aq_enqueued a1)
            in if r then (False, a1\<lparr>aq_enqueued := e\<rparr>)
               else
                 (let (r', p) = replaceInQueue ix (aq_promoted a1)
                  in (r', a1\<lparr>aq_promoted := p\<rparr>))))"

text \<open>The loop of \<^verbatim>\<open>promote\<close>: the enqueued queue, the promoted queue, the promoted interactions and
  the next sequence identifier.\<close>

function promote_loop ::
  "ixQueue \<Rightarrow> ixQueue \<Rightarrow> u64 \<Rightarrow> (ixQueue \<times> ixQueue \<times> Interaction list \<times> u64)" where
  "promote_loop enqueued promoted nextSequenceID =
     (case q_peek enqueued of
        None \<Rightarrow> (enqueued, promoted, [], nextSequenceID)
      | Some ix \<Rightarrow>
          if ix_SequenceID ix \<noteq> nextSequenceID then (enqueued, promoted, [], nextSequenceID)
          else (case q_pop enqueued of
                  (None, enqueued') \<Rightarrow> (enqueued', promoted, [], nextSequenceID)
                | (Some ix', enqueued') \<Rightarrow>
                    (let (e, p, rest, n) = promote_loop enqueued' (q_push ix' promoted) (nextSequenceID + 1)
                     in (e, p, ix' # rest, n))))"
  by pat_completeness auto
termination
  by (relation "measure (\<lambda>(e, p, n). length e)") (auto simp: q_pop_def dest: heap_Pop_length split: option.splits)

declare promote_loop.simps [simp del]

text \<open>The first result is the number of promoted interactions.\<close>

definition aq_promote :: "accountQueue \<Rightarrow> (u64 \<times> Interaction list) \<times> accountQueue" where
  "aq_promote a =
     (case q_peek (aq_enqueued a) of
        None \<Rightarrow> ((0, []), a)
      | Some first \<Rightarrow>
          if ix_SequenceID first > getSequenceID a then ((0, []), a)
          else
            (let (e, p, promotedIxns, n) = promote_loop (aq_enqueued a) (aq_promoted a) (ix_SequenceID first);
                 a1 = a\<lparr>aq_enqueued := e, aq_promoted := p\<rparr>
             in ((of_nat (length promotedIxns), promotedIxns), if n > getSequenceID a then setSequenceID n a1 else a1)))"

section \<open>Accounts\<close>

record account =
  acc_accountQueues :: "accountQueue list"
  acc_requestTime :: int
  acc_waitTime :: int
  acc_delayCounter :: int

definition acc_get :: "account \<Rightarrow> u64 \<Rightarrow> accountQueue option" where
  "acc_get a keyID = find (\<lambda>q. aq_keyID q = keyID) (acc_accountQueues a)"

definition sortAccountQueues :: "account \<Rightarrow> account" where
  "sortAccountQueues a = a\<lparr>acc_accountQueues := sort_key aq_keyID (acc_accountQueues a)\<rparr>"

text \<open>The randomised timeout of \<^verbatim>\<open>ExponentialTimeout\<close> is a parameter.\<close>

definition incrementCounter :: "int \<Rightarrow> (int \<Rightarrow> int) \<Rightarrow> account \<Rightarrow> account" where
  "incrementCounter now timeout a =
     (let c = int32 (acc_delayCounter a + 1)
      in a\<lparr>acc_delayCounter := c, acc_waitTime := now + timeout c\<rparr>)"

definition resetWaitTimeAndCounter :: "int \<Rightarrow> account \<Rightarrow> account" where
  "resetWaitTimeAndCounter now a = a\<lparr>acc_delayCounter := 0, acc_waitTime := now\<rparr>"

definition acc_promoted :: "account \<Rightarrow> u64" where
  "acc_promoted a = fold (\<lambda>q total. total + q_length (aq_promoted q)) (acc_accountQueues a) 0"

record accountsManager =
  am_accounts :: "(Identifier \<times> account) list"
  am_sortedParticipants :: "Identifier list"

definition newAccountsMap :: accountsManager where
  "newAccountsMap = \<lparr>am_accounts = [], am_sortedParticipants = []\<rparr>"

definition am_exists :: "accountsManager \<Rightarrow> Identifier \<Rightarrow> bool" where
  "am_exists m ident \<longleftrightarrow> map_of (am_accounts m) ident \<noteq> None"

definition getAccount :: "accountsManager \<Rightarrow> Identifier \<Rightarrow> account option" where
  "getAccount m ident = map_of (am_accounts m) ident"

definition getAccountQueue :: "accountsManager \<Rightarrow> Identifier \<Rightarrow> u64 \<Rightarrow> accountQueue option" where
  "getAccountQueue m ident keyID = Option.bind (getAccount m ident) (\<lambda>a. acc_get a keyID)"

text \<open>The loops over the account queues stop at the first queue of an account that has to wait.\<close>

definition wait_head :: "account \<Rightarrow> WaitInteractions list \<Rightarrow> accountQueue \<Rightarrow> WaitInteractions list" where
  "wait_head a w q =
     (case q_peek (aq_promoted q) of
        None \<Rightarrow> w
      | Some ix \<Rightarrow> wait_Push \<lparr>waitCounter = acc_delayCounter a, wait_ix = ix\<rparr> w)"

definition getWaitPrimaries :: "int \<Rightarrow> accountsManager \<Rightarrow> WaitInteractions list" where
  "getWaitPrimaries now m = fold (\<lambda>(ident, a) w.
     if \<not> now > acc_waitTime a then w else foldl (wait_head a) w (acc_accountQueues a)) (am_accounts m) []"

definition cost_head :: "Interaction list \<Rightarrow> accountQueue \<Rightarrow> Interaction list" where
  "cost_head w q = (case q_peek (aq_promoted q) of None \<Rightarrow> w | Some ix \<Rightarrow> price_Push ix w)"

definition getCostPrimaries :: "int \<Rightarrow> accountsManager \<Rightarrow> Interaction list" where
  "getCostPrimaries now m = fold (\<lambda>(ident, a) w.
     if \<not> now > acc_waitTime a then w else foldl cost_head w (acc_accountQueues a)) (am_accounts m) []"

text \<open>The lists of the last account queue that is not empty overwrite the earlier ones.\<close>

definition getIxs :: "accountsManager \<Rightarrow> Identifier \<Rightarrow> bool \<Rightarrow> Interaction list \<times> Interaction list" where
  "getIxs m ident includeEnqueued =
     (case getAccount m ident of
        None \<Rightarrow> ([], [])
      | Some a \<Rightarrow> fold (\<lambda>q (promoted, enqueued).
          (if q_length (aq_promoted q) \<noteq> 0 then aq_promoted q else promoted,
           if includeEnqueued \<and> q_length (aq_enqueued q) \<noteq> 0 then aq_enqueued q else enqueued))
          (acc_accountQueues a) ([], []))"

definition allIxs_of ::
  "accountsManager \<Rightarrow> bool \<Rightarrow> (Identifier \<rightharpoonup> Interaction list) \<times> (Identifier \<rightharpoonup> Interaction list)" where
  "allIxs_of m includeEnqueued = fold (\<lambda>(ident, a) acc. fold (\<lambda>q (allPromoted, allEnqueued).
     (if q_length (aq_promoted q) \<noteq> 0 then allPromoted(ident \<mapsto> aq_promoted q) else allPromoted,
      if includeEnqueued \<and> q_length (aq_enqueued q) \<noteq> 0 then allEnqueued(ident \<mapsto> aq_enqueued q) else allEnqueued))
     (acc_accountQueues a) acc) (am_accounts m) (Map.empty, Map.empty)"

definition addToSortedAccounts :: "Identifier \<Rightarrow> accountsManager \<Rightarrow> accountsManager" where
  "addToSortedAccounts ident m =
     m\<lparr>am_sortedParticipants := (if ident \<in> set (am_sortedParticipants m) then am_sortedParticipants m
       else insort_key id_Hex ident (am_sortedParticipants m))\<rparr>"

definition deleteInSortedAccounts :: "Identifier \<Rightarrow> accountsManager \<Rightarrow> accountsManager" where
  "deleteInSortedAccounts ident m =
     m\<lparr>am_sortedParticipants := filter (\<lambda>i. i \<noteq> ident) (am_sortedParticipants m)\<rparr>"

section \<open>The lookup map and the gauge\<close>

type_synonym lookupMap = "Hash \<rightharpoonup> Interaction"

definition lookup_add :: "Interaction \<Rightarrow> lookupMap \<Rightarrow> bool \<times> lookupMap" where
  "lookup_add ix m = (if m (ix_hash ix) \<noteq> None then (False, m) else (True, m(ix_hash ix \<mapsto> ix)))"

definition lookup_remove :: "Interaction list \<Rightarrow> lookupMap \<Rightarrow> lookupMap" where
  "lookup_remove l m = fold (\<lambda>ix m. m(ix_hash ix := None)) l m"

definition lookup_get :: "Hash \<Rightarrow> lookupMap \<Rightarrow> Interaction option" where
  "lookup_get h m = m h"

record slotGauge =
  gauge_total :: u64
  gauge_max :: u64

abbreviation (input) highPressureMark :: u64 where "highPressureMark \<equiv> 80"
abbreviation (input) IxSlotSize :: u64 where "IxSlotSize \<equiv> 1024"

definition gauge_increase :: "u64 \<Rightarrow> slotGauge \<Rightarrow> slotGauge" where
  "gauge_increase slots g = g\<lparr>gauge_total := gauge_total g + slots\<rparr>"

definition gauge_decrease :: "u64 \<Rightarrow> slotGauge \<Rightarrow> slotGauge" where
  "gauge_decrease slots g = g\<lparr>gauge_total := gauge_total g + NOT (slots - 1)\<rparr>"

definition highPressure :: "slotGauge \<Rightarrow> bool" where
  "highPressure g \<longleftrightarrow> gauge_total g > highPressureMark * gauge_max g div 100"

definition increaseWithinLimit :: "u64 \<Rightarrow> slotGauge \<Rightarrow> bool \<times> slotGauge" where
  "increaseWithinLimit slots g =
     (let newHeight = gauge_total g + slots
      in if newHeight > gauge_max g then (False, g) else (True, g\<lparr>gauge_total := newHeight\<rparr>))"

definition slotsRequired :: "Interaction list \<Rightarrow> u64" where
  "slotsRequired l = fold (\<lambda>ix slots. slots + (ix_size ix + IxSlotSize - 1) div IxSlotSize) l 0"

section \<open>The orders are heap orders\<close>

interpretation sq: heap_order seq_less
  by unfold_locales (auto simp: seq_less_def)

interpretation pq: heap_order price_less
  by unfold_locales (auto simp: price_less_def)

interpretation wq: heap_order wait_less
  by unfold_locales (auto simp: wait_less_def)

lemma mset_insert_set: "mset q = add_mset x (mset r) \<Longrightarrow> set q = insert x (set r)"
  by (metis set_mset_add_mset_insert set_mset_mset)

lemma mset_plus_set: "mset q = mset a + mset b \<Longrightarrow> set q = set a \<union> set b"
  by (metis set_mset_mset set_mset_union)

abbreviation seqs :: "Interaction list \<Rightarrow> u64 set" where
  "seqs q \<equiv> ix_SequenceID ` set q"

lemma heap_seq_cong:
  assumes "map ix_SequenceID q = map ix_SequenceID q'"
  shows "sq.heap q \<longleftrightarrow> sq.heap q'"
proof -
  have len: "length q = length q'" using assms by (metis length_map)
  have nth: "ix_SequenceID (q ! k) = ix_SequenceID (q' ! k)" if "k < length q'" for k
    using assms that len by (metis nth_map)
  have "seq_less (q ! k) (q ! parent k) \<longleftrightarrow> seq_less (q' ! k) (q' ! parent k)" if "0 < k" "k < length q'" for k
    using that nth [of k] nth [of "parent k"] parent_lt [OF that(1)] by (simp add: seq_less_def)
  then show ?thesis by (auto simp: sq.heap_on_def len)
qed

lemma heap_on_0 [simp]: "sq.heap_on 0 q"
  by (simp add: sq.heap_on_def)

lemma q_push_heap [inv_intros]: "sq.heap q \<Longrightarrow> sq.heap (q_push ix q)"
  unfolding q_push_def by (rule sq.heap_heap_Push)

lemma mset_q_push [simp]: "mset (q_push ix q) = add_mset ix (mset q)"
  by (simp add: q_push_def sq.mset_heap_Push)

lemma set_q_push [simp]: "set (q_push ix q) = insert ix (set q)"
  by (metis mset_q_push set_mset_add_mset_insert set_mset_mset)

lemma q_pop_Nil [simp]: "q_pop [] = (None, [])"
  by (simp add: q_pop_def sq.heap_Pop_Nil)

lemma q_peek_None: "q_peek q = None \<longleftrightarrow> q = []"
  by (simp add: q_peek_def)

lemma q_pop_peek:
  assumes "sq.heap q" and "q_peek q = Some x"
  obtains q' where "q_pop q = (Some x, q')" and "sq.heap q'" and "mset q = add_mset x (mset q')"
    and "\<And>y. y \<in> set q \<Longrightarrow> ix_SequenceID x \<le> ix_SequenceID y"
proof -
  have ne: "q \<noteq> []" and x: "x = q ! 0" using assms(2) by (auto simp: q_peek_def split: if_splits)
  show ?thesis
  proof (rule sq.heap_Pop_spec [OF assms(1) ne])
    fix ys assume ys: "heap_Pop seq_less q = Some (q ! 0, ys)" "sq.heap ys"
        "mset q = add_mset (q ! 0) (mset ys)" "\<And>y. y \<in> set q \<Longrightarrow> \<not> seq_less y (q ! 0)"
    show thesis
    proof (rule that)
      show "q_pop q = (Some x, ys)" using ys(1) by (simp add: q_pop_def x)
      show "sq.heap ys" by (rule ys(2))
      show "mset q = add_mset x (mset ys)" using ys(3) by (simp add: x)
      show "ix_SequenceID x \<le> ix_SequenceID y" if "y \<in> set q" for y
        using ys(4) [OF that] by (simp add: seq_less_def x)
    qed
  qed
qed

text \<open>\<^verbatim>\<open>prune\<close> removes exactly the interactions below the bound, in increasing order.\<close>

lemma q_prune_spec:
  assumes "sq.heap q" and "q_prune s q = (pruned, q')"
  shows "sq.heap q' \<and> mset q = mset pruned + mset q' \<and> (\<forall>x \<in> set pruned. ix_SequenceID x < s)
    \<and> (\<forall>x \<in> set q'. s \<le> ix_SequenceID x) \<and> sorted (map ix_SequenceID pruned)"
  using assms
proof (induction "length q" arbitrary: q pruned rule: less_induct)
  case less
  note unf = less.prems(2) [unfolded q_prune.simps [of s q]]
  show ?case
  proof (cases "q_peek q")
    case None
    with unf less.prems(1) show ?thesis by (auto simp: q_peek_None)
  next
    case (Some x)
    show ?thesis
    proof (rule q_pop_peek [OF less.prems(1) Some])
      fix r assume r: "q_pop q = (Some x, r)" "sq.heap r" "mset q = add_mset x (mset r)"
          "\<And>y. y \<in> set q \<Longrightarrow> ix_SequenceID x \<le> ix_SequenceID y"
      show ?thesis
      proof (cases "s \<le> ix_SequenceID x")
        case True
        with unf Some have "pruned = []" "q' = q" by simp_all
        with less.prems(1) True r(4) show ?thesis by (auto intro: order_trans)
      next
        case False
        obtain p1 where p1: "q_prune s r = (p1, q')" "pruned = x # p1"
          using unf Some False r(1) by (auto simp: Let_def split: prod.splits)
        have len: "length r < length q" using r(3) by (metis size_add_mset size_mset lessI)
        note IH = less.hyps [OF len r(2) p1(1)]
        have "set q = insert x (set r)" "set r = set p1 \<union> set q'"
          using mset_insert_set [OF r(3)] mset_plus_set [of r p1 q'] IH by simp_all
        then have "\<forall>y \<in> set p1. ix_SequenceID x \<le> ix_SequenceID y" using r(4) by blast
        with IH r(3) False show ?thesis by (simp add: p1(2))
      qed
    qed
  qed
qed

text \<open>The loop of \<^verbatim>\<open>promote\<close> moves the interactions whose sequence identifiers follow each other,
  starting with the first, and stops at the first gap.\<close>

lemma unat_Suc: "(n :: u64) \<noteq> -1 \<Longrightarrow> unat (n + 1) = Suc (unat n)"
proof -
  assume "n \<noteq> -1"
  then have "1 + n \<noteq> 0" by (simp add: eq_neg_iff_add_eq_0 add.commute)
  from unatSuc [OF this] show ?thesis by (simp add: add.commute)
qed

lemma promote_loop_spec:
  assumes "sq.heap e" and "sq.heap p" and "\<forall>x \<in> set e. n \<le> ix_SequenceID x" and "distinct (map ix_SequenceID e)"
    and "\<forall>x \<in> set e. ix_SequenceID x \<noteq> -1" and "promote_loop e p n = (e', p', l, n')"
  shows "sq.heap e' \<and> sq.heap p' \<and> mset e = mset l + mset e' \<and> mset p' = mset p + mset l
    \<and> map (unat \<circ> ix_SequenceID) l = [unat n..<unat n'] \<and> n \<le> n' \<and> (\<forall>x \<in> set e'. n' < ix_SequenceID x)"
  using assms
proof (induction "length e" arbitrary: e p n l rule: less_induct)
  case less
  note unf = less.prems(6) [unfolded promote_loop.simps [of e p n]]
  show ?case
  proof (cases "q_peek e")
    case None
    with unf have "e' = e" "p' = p" "l = []" "n' = n" "e = []" by (auto simp: q_peek_None)
    with less.prems show ?thesis by simp
  next
    case (Some x)
    show ?thesis
    proof (rule q_pop_peek [OF less.prems(1) Some])
      fix r assume r: "q_pop e = (Some x, r)" "sq.heap r" "mset e = add_mset x (mset r)"
          "\<And>y. y \<in> set e \<Longrightarrow> ix_SequenceID x \<le> ix_SequenceID y"
      have set: "set e = insert x (set r)" by (rule mset_insert_set [OF r(3)])
      show ?thesis
      proof (cases "ix_SequenceID x = n")
        case False
        with unf Some have eq: "e' = e" "p' = p" "l = []" "n' = n" by auto
        have "n < ix_SequenceID y" if "y \<in> set e" for y
          using False less.prems(3) r(4) [OF that] set by (metis insertI1 order.strict_trans2 order_le_neq_trans)
        with eq less.prems show ?thesis by simp
      next
        case True
        obtain l1 where l1: "promote_loop r (q_push x p) (n + 1) = (e', p', l1, n')" "l = x # l1"
          using unf Some True r(1) by (auto simp: Let_def split: prod.splits)
        have len: "length r < length e" using r(3) by (metis size_add_mset size_mset lessI)
        have "mset (map ix_SequenceID e) = add_mset n (mset (map ix_SequenceID r))" using r(3) True by simp
        then have dist: "n \<notin> seqs r" "distinct (map ix_SequenceID r)"
          using less.prems(4) by (metis distinct.simps(2) mset.simps(2) mset_eq_imp_distinct_iff set_map)+
        have nm: "n \<noteq> -1" using less.prems(5) set True by auto
        have gt: "\<forall>y \<in> set r. n + 1 \<le> ix_SequenceID y"
        proof
          fix y assume y: "y \<in> set r"
          then have "n \<le> ix_SequenceID y" "n \<noteq> ix_SequenceID y" using less.prems(3) set dist(1) by auto
          then show "n + 1 \<le> ix_SequenceID y" by (simp add: inc_le order_le_neq_trans)
        qed
        have IH: "sq.heap e' \<and> sq.heap p' \<and> mset r = mset l1 + mset e' \<and> mset p' = mset (q_push x p) + mset l1
            \<and> map (unat \<circ> ix_SequenceID) l1 = [unat (n + 1)..<unat n'] \<and> n + 1 \<le> n'
            \<and> (\<forall>y \<in> set e'. n' < ix_SequenceID y)"
          by (rule less.hyps [OF len r(2) q_push_heap [OF less.prems(2)] gt dist(2) _ l1(1)])
            (use less.prems(5) set in auto)
        have un: "unat (n + 1) = Suc (unat n)" by (rule unat_Suc [OF nm])
        then have lt: "unat n < unat n'" using IH by (metis Suc_le_lessD word_le_nat_alt)
        then have "[unat n..<unat n'] = unat n # [Suc (unat n)..<unat n']" by (simp add: upt_conv_Cons)
        with IH r(3) True un lt show ?thesis by (simp add: l1(2) word_le_nat_alt)
      qed
    qed
  qed
qed

section \<open>The invariant of an account queue\<close>

text \<open>Both queues are heaps, no sequence identifier occurs twice, the map holds exactly the queued
  interactions, and the next sequence identifier separates the promoted interactions from the
  enqueued ones.\<close>

definition aq_inv :: "accountQueue \<Rightarrow> bool" where
  "aq_inv a \<longleftrightarrow> sq.heap (aq_enqueued a) \<and> sq.heap (aq_promoted a)
    \<and> distinct (map ix_SequenceID (aq_enqueued a @ aq_promoted a))
    \<and> (\<forall>s ix. aq_sequenceIDToIX a s = Some ix \<longleftrightarrow>
        ix \<in> set (aq_enqueued a) \<union> set (aq_promoted a) \<and> ix_SequenceID ix = s)
    \<and> (\<forall>x \<in> set (aq_promoted a). ix_SequenceID x < aq_nextSequenceID a)
    \<and> (\<forall>x \<in> set (aq_enqueued a). aq_nextSequenceID a \<le> ix_SequenceID x)"

lemma aq_invD:
  assumes "aq_inv a"
  shows "sq.heap (aq_enqueued a)" and "sq.heap (aq_promoted a)"
    and "distinct (map ix_SequenceID (aq_enqueued a @ aq_promoted a))"
    and "aq_sequenceIDToIX a s = Some ix \<longleftrightarrow>
      ix \<in> set (aq_enqueued a) \<union> set (aq_promoted a) \<and> ix_SequenceID ix = s"
    and "x \<in> set (aq_promoted a) \<Longrightarrow> ix_SequenceID x < aq_nextSequenceID a"
    and "x \<in> set (aq_enqueued a) \<Longrightarrow> aq_nextSequenceID a \<le> ix_SequenceID x"
  using assms by (auto simp: aq_inv_def)

lemma distinct_mset_seq:
  "mset a = mset b \<Longrightarrow> distinct (map ix_SequenceID a) \<longleftrightarrow> distinct (map ix_SequenceID b)"
  by (metis mset_eq_imp_distinct_iff mset_map)

text \<open>The invariant depends on the queues only through their contents.\<close>

lemma aq_inv_mset:
  assumes "aq_inv a" and "sq.heap e" and "sq.heap p"
    and "mset e + mset p = mset (aq_enqueued a) + mset (aq_promoted a)"
    and "\<forall>x \<in> set p. ix_SequenceID x < n" and "\<forall>x \<in> set e. n \<le> ix_SequenceID x"
  shows "aq_inv (a\<lparr>aq_enqueued := e, aq_promoted := p, aq_nextSequenceID := n\<rparr>)"
proof -
  have "set e \<union> set p = set (aq_enqueued a) \<union> set (aq_promoted a)"
    using assms(4) by (metis set_mset_mset set_mset_union)
  moreover have "distinct (map ix_SequenceID (e @ p))"
    using distinct_mset_seq [of "e @ p" "aq_enqueued a @ aq_promoted a"] assms(4) aq_invD(3) [OF assms(1)] by simp
  ultimately show ?thesis using assms(1-3,5,6) by (simp add: aq_inv_def)
qed

lemma aq_promote_frame:
  "aq_keyID (snd (aq_promote a)) = aq_keyID a" "aq_sequenceIDToIX (snd (aq_promote a)) = aq_sequenceIDToIX a"
  by (auto simp: aq_promote_def setSequenceID_def Let_def split: option.splits prod.splits)

lemma aq_promote_spec:
  assumes "aq_inv a" and "\<forall>x \<in> set (aq_enqueued a). ix_SequenceID x \<noteq> -1" and "aq_promote a = ((c, l), a')"
  shows "aq_inv a' \<and> c = of_nat (length l)
    \<and> map (unat \<circ> ix_SequenceID) l = [unat (aq_nextSequenceID a)..<unat (aq_nextSequenceID a')]
    \<and> aq_nextSequenceID a \<le> aq_nextSequenceID a'
    \<and> mset (aq_enqueued a) = mset l + mset (aq_enqueued a')
    \<and> mset (aq_promoted a') = mset (aq_promoted a) + mset l
    \<and> (\<forall>x \<in> set (aq_enqueued a'). aq_nextSequenceID a' < ix_SequenceID x)"
proof (cases "q_peek (aq_enqueued a)")
  case None
  with assms show ?thesis by (auto simp: aq_promote_def q_peek_None)
next
  case (Some x)
  note inv = aq_invD [OF assms(1)]
  have x: "x \<in> set (aq_enqueued a)" and least: "\<forall>y \<in> set (aq_enqueued a). ix_SequenceID x \<le> ix_SequenceID y"
  proof -
    show "x \<in> set (aq_enqueued a)" using Some by (auto simp: q_peek_def split: if_splits)
    show "\<forall>y \<in> set (aq_enqueued a). ix_SequenceID x \<le> ix_SequenceID y"
      by (rule q_pop_peek [OF inv(1) Some]) blast
  qed
  show ?thesis
  proof (cases "ix_SequenceID x > getSequenceID a")
    case True
    with assms(3) Some have "l = []" "a' = a" "c = 0" by (simp_all add: aq_promote_def)
    moreover have "\<forall>y \<in> set (aq_enqueued a). aq_nextSequenceID a < ix_SequenceID y"
      using True least by (auto simp: getSequenceID_def)
    ultimately show ?thesis using assms(1) by simp
  next
    case False
    then have n: "ix_SequenceID x = aq_nextSequenceID a"
      using inv(6) [OF x] by (simp add: getSequenceID_def)
    obtain e p n' where loop: "promote_loop (aq_enqueued a) (aq_promoted a) (aq_nextSequenceID a) = (e, p, l, n')"
        "a' = (let a1 = a\<lparr>aq_enqueued := e, aq_promoted := p\<rparr> in
          if n' > getSequenceID a then setSequenceID n' a1 else a1)" "c = of_nat (length l)"
      using assms(3) Some False n by (auto simp: aq_promote_def Let_def split: prod.splits)
    have dist: "distinct (map ix_SequenceID (aq_enqueued a))" using inv(3) by simp
    note S = promote_loop_spec [OF inv(1,2) _ dist assms(2) loop(1)]
    have S': "sq.heap e \<and> sq.heap p \<and> mset (aq_enqueued a) = mset l + mset e \<and> mset p = mset (aq_promoted a) + mset l
        \<and> map (unat \<circ> ix_SequenceID) l = [unat (aq_nextSequenceID a)..<unat n'] \<and> aq_nextSequenceID a \<le> n'
        \<and> (\<forall>x \<in> set e. n' < ix_SequenceID x)"
      using S inv(6) by blast
    then have a': "a' = a\<lparr>aq_enqueued := e, aq_promoted := p, aq_nextSequenceID := n'\<rparr>"
      using loop(2) by (auto simp: Let_def setSequenceID_def getSequenceID_def)
    have "ix_SequenceID y < n'" if "y \<in> set p" for y
    proof -
      have "y \<in> set (aq_promoted a) \<or> y \<in> set l" using S' that mset_plus_set [of p "aq_promoted a" l] by auto
      then show ?thesis
      proof
        assume "y \<in> set (aq_promoted a)"
        then have "ix_SequenceID y < aq_nextSequenceID a" by (rule inv(5))
        with S' show ?thesis by (simp add: order.strict_trans2)
      next
        assume "y \<in> set l"
        then have "unat (ix_SequenceID y) \<in> set (map (unat \<circ> ix_SequenceID) l)" by auto
        with S' show ?thesis by (simp add: word_less_nat_alt)
      qed
    qed
    then have "aq_inv a'" unfolding a'
      using S' by (intro aq_inv_mset [OF assms(1)]) (auto simp: add_ac)
    with S' loop(3) show ?thesis by (simp add: a')
  qed
qed

lemma replaceInQueue_spec:
  "replaceInQueue ix q = (r, q') \<Longrightarrow>
    (r \<longleftrightarrow> ix_SequenceID ix \<in> seqs q) \<and> map ix_SequenceID q' = map ix_SequenceID q
    \<and> (\<not> r \<longrightarrow> q' = q)
    \<and> (\<forall>old \<in> set q. distinct (map ix_SequenceID q) \<and> ix_SequenceID old = ix_SequenceID ix \<longrightarrow>
        add_mset old (mset q') = add_mset ix (mset q))"
proof (induction q arbitrary: r q')
  case Nil
  then show ?case by simp
next
  case (Cons x q)
  show ?case
  proof (cases "ix_SequenceID x = ix_SequenceID ix")
    case True
    with Cons.prems have "r" "q' = ix # q" by auto
    moreover have "old = x" if "old \<in> set (x # q)" "distinct (map ix_SequenceID (x # q))"
        "ix_SequenceID old = ix_SequenceID ix" for old
    proof (rule ccontr)
      assume "old \<noteq> x"
      with that have "old \<in> set q" by simp
      then have "ix_SequenceID old \<in> seqs q" by (rule imageI)
      with that True show False by simp
    qed
    ultimately show ?thesis using True by (auto simp: add_mset_commute)
  next
    case False
    with Cons.prems obtain q1 where q1: "replaceInQueue ix q = (r, q1)" "q' = x # q1"
      by (auto simp: Let_def split: prod.splits)
    from Cons.IH [OF q1(1)] False show ?thesis by (auto simp: q1(2) add_mset_commute)
  qed
qed

lemma aq_enqueue_frame:
  "aq_keyID (snd (aq_enqueue ix b a)) = aq_keyID a" "aq_nextSequenceID (snd (aq_enqueue ix b a)) = aq_nextSequenceID a"
  "aq_sequenceIDToIX (snd (aq_enqueue ix b a)) = (aq_sequenceIDToIX a)(ix_SequenceID ix \<mapsto> ix)"
  by (auto simp: aq_enqueue_def seqmap_set_def Let_def split: prod.splits)

lemma aq_enqueue_new:
  assumes "aq_inv a" and "aq_sequenceIDToIX a (ix_SequenceID ix) = None" and "aq_nextSequenceID a \<le> ix_SequenceID ix"
    and "aq_enqueue ix False a = (r, a')"
  shows "aq_inv a' \<and> \<not> r \<and> mset (aq_enqueued a') = add_mset ix (mset (aq_enqueued a))
    \<and> aq_promoted a' = aq_promoted a"
proof -
  note inv = aq_invD [OF assms(1)]
  have a': "\<not> r" "a' = a\<lparr>aq_sequenceIDToIX := (aq_sequenceIDToIX a)(ix_SequenceID ix \<mapsto> ix),
      aq_enqueued := q_push ix (aq_enqueued a)\<rparr>"
    using assms(4) by (auto simp: aq_enqueue_def seqmap_set_def)
  have fresh: "ix_SequenceID ix \<notin> seqs (aq_enqueued a) \<union> seqs (aq_promoted a)"
  proof
    assume "ix_SequenceID ix \<in> seqs (aq_enqueued a) \<union> seqs (aq_promoted a)"
    then obtain y where "y \<in> set (aq_enqueued a) \<union> set (aq_promoted a)" "ix_SequenceID y = ix_SequenceID ix"
      by (metis Un_iff imageE)
    with inv(4) [of "ix_SequenceID ix" y] assms(2) show False by simp
  qed
  have d: "mset (q_push ix (aq_enqueued a) @ aq_promoted a) = mset (ix # aq_enqueued a @ aq_promoted a)" by simp
  have "distinct (map ix_SequenceID (q_push ix (aq_enqueued a) @ aq_promoted a))"
    unfolding distinct_mset_seq [OF d] using inv(3) fresh by auto
  moreover have "(if s = ix_SequenceID ix then Some ix else aq_sequenceIDToIX a s) = Some y
      \<longleftrightarrow> (y = ix \<or> y \<in> set (aq_enqueued a) \<union> set (aq_promoted a)) \<and> ix_SequenceID y = s" for s y
    using inv(4) [of s y] fresh assms(2) by auto
  ultimately have "aq_inv a'"
    using inv(1,2,5,6) assms(3) q_push_heap [OF inv(1)] by (auto simp: aq_inv_def a'(2) simp del: map_append)
  then show ?thesis using a' by simp
qed

lemma ball_map_cong:
  assumes "map f l = map f l'"
  shows "(\<forall>x \<in> set l. P (f x)) \<longleftrightarrow> (\<forall>x \<in> set l'. P (f x))"
proof -
  have "list_all P (map f l) \<longleftrightarrow> list_all P (map f l')" using assms by simp
  then show ?thesis by (simp add: list_all_iff)
qed

lemma aq_enqueue_replace:
  assumes "aq_inv a" and "aq_sequenceIDToIX a (ix_SequenceID ix) = Some old" and "aq_enqueue ix True a = (r, a')"
  shows "aq_inv a' \<and> (r \<longleftrightarrow> old \<in> set (aq_promoted a))
    \<and> add_mset old (mset (aq_enqueued a') + mset (aq_promoted a'))
      = add_mset ix (mset (aq_enqueued a) + mset (aq_promoted a))"
proof -
  note inv = aq_invD [OF assms(1)]
  let ?m = "(aq_sequenceIDToIX a)(ix_SequenceID ix \<mapsto> ix)"
  have old: "old \<in> set (aq_enqueued a) \<union> set (aq_promoted a)" "ix_SequenceID old = ix_SequenceID ix"
    using inv(4) [of "ix_SequenceID ix" old] assms(2) by simp_all
  obtain re e where e: "replaceInQueue ix (aq_enqueued a) = (re, e)" by fastforce
  obtain rp p where p: "replaceInQueue ix (aq_promoted a) = (rp, p)" by fastforce
  note E = replaceInQueue_spec [OF e] and P = replaceInQueue_spec [OF p]
  define e' where "e' = (if re then e else aq_enqueued a)"
  define p' where "p' = (if re then aq_promoted a else p)"
  have a': "r = (\<not> re \<and> rp)" "a' = a\<lparr>aq_sequenceIDToIX := ?m, aq_enqueued := e', aq_promoted := p'\<rparr>"
    using assms(3) e p by (auto simp: aq_enqueue_def seqmap_set_def Let_def e'_def p'_def split: if_splits)
  have dist: "distinct (map ix_SequenceID (aq_enqueued a))" "distinct (map ix_SequenceID (aq_promoted a))"
      "seqs (aq_enqueued a) \<inter> seqs (aq_promoted a) = {}"
    using inv(3) by auto
  have re: "re \<longleftrightarrow> old \<in> set (aq_enqueued a)"
  proof
    assume re
    then have "ix_SequenceID old \<in> seqs (aq_enqueued a)" using E old(2) by simp
    then have "old \<notin> set (aq_promoted a)" using dist(3) by blast
    then show "old \<in> set (aq_enqueued a)" using old(1) by blast
  next
    assume "old \<in> set (aq_enqueued a)"
    then show re using E old(2) by (metis image_eqI)
  qed
  have rp: "\<not> re \<Longrightarrow> rp" using P old re by (metis UnE image_eqI)
  have seqs: "map ix_SequenceID e' = map ix_SequenceID (aq_enqueued a)" "map ix_SequenceID p' = map ix_SequenceID (aq_promoted a)"
    using E P by (simp_all add: e'_def p'_def)
  have ms: "add_mset old (mset e' + mset p') = add_mset ix (mset (aq_enqueued a) + mset (aq_promoted a))"
  proof (cases re)
    case True
    with re E old(2) dist(1) have "add_mset old (mset e) = add_mset ix (mset (aq_enqueued a))" by blast
    with True show ?thesis by (simp add: e'_def p'_def)
  next
    case False
    with re old have "old \<in> set (aq_promoted a)" by blast
    with P old(2) dist(2) have "add_mset old (mset p) = add_mset ix (mset (aq_promoted a))" by blast
    with False show ?thesis by (simp add: e'_def p'_def)
  qed
  have new: "insert old (set e' \<union> set p') = insert ix (set (aq_enqueued a) \<union> set (aq_promoted a))"
    using arg_cong [OF ms, of set_mset] by simp
  have mem: "ix \<in> set e' \<union> set p'"
  proof (cases "ix = old")
    case True
    with ms have "mset e' + mset p' = mset (aq_enqueued a) + mset (aq_promoted a)" by simp
    then have "set e' \<union> set p' = set (aq_enqueued a) \<union> set (aq_promoted a)" by (metis set_mset_mset set_mset_union)
    with True old(1) show ?thesis by simp
  qed (use new in blast)
  have dist': "distinct (map ix_SequenceID (e' @ p'))" using inv(3) by (simp only: map_append seqs)
  have same: "y = ix" if "y \<in> set e' \<union> set p'" "ix_SequenceID y = ix_SequenceID ix" for y
    using dist' that mem unfolding distinct_map inj_on_def by auto
  have iff: "?m s = Some y \<longleftrightarrow> y \<in> set e' \<union> set p' \<and> ix_SequenceID y = s" for s y
  proof (cases "s = ix_SequenceID ix")
    case True
    then show ?thesis using same mem by auto
  next
    case False
    have "y \<in> set e' \<union> set p' \<longleftrightarrow> y \<in> set (aq_enqueued a) \<union> set (aq_promoted a)" if "ix_SequenceID y = s"
    proof -
      have "y \<noteq> old" "y \<noteq> ix" using that False old(2) by auto
      with new show ?thesis by blast
    qed
    with False inv(4) [of s y] show ?thesis by auto
  qed
  have heaps: "sq.heap e'" "sq.heap p'" using heap_seq_cong [OF seqs(1)] heap_seq_cong [OF seqs(2)] inv(1,2) by simp_all
  have bounds: "\<forall>x \<in> set p'. ix_SequenceID x < aq_nextSequenceID a" "\<forall>x \<in> set e'. aq_nextSequenceID a \<le> ix_SequenceID x"
    using inv(5,6) ball_map_cong [OF seqs(1), of "\<lambda>s. aq_nextSequenceID a \<le> s"]
      ball_map_cong [OF seqs(2), of "\<lambda>s. s < aq_nextSequenceID a"] by simp_all
  have "aq_inv a'" using heaps dist' iff bounds by (simp add: aq_inv_def a'(2) del: map_append fun_upd_apply)
  then show ?thesis using ms a' re rp old dist(3) by auto
qed

section \<open>Slots\<close>

definition ix_slots :: "Interaction \<Rightarrow> u64" where
  "ix_slots ix = (ix_size ix + IxSlotSize - 1) div IxSlotSize"

lemma slotsRequired_sum: "slotsRequired l = sum_list (map ix_slots l)"
proof -
  have "fold (\<lambda>ix slots. slots + (ix_size ix + IxSlotSize - 1) div IxSlotSize) l acc = acc + sum_list (map ix_slots l)" for acc
    by (induction l arbitrary: acc) (simp_all add: ix_slots_def add_ac)
  then show ?thesis by (simp add: slotsRequired_def)
qed

lemma gauge_decrease_eq: "gauge_decrease s g = g\<lparr>gauge_total := gauge_total g - s\<rparr>"
  by (simp add: gauge_decrease_def not_eq_complement)

text \<open>The slots of a queue depend only on its contents.\<close>

definition mset_slots :: "Interaction multiset \<Rightarrow> u64" where
  "mset_slots M = (\<Sum>ix \<in># M. ix_slots ix)"

lemma mset_slots_simps [simp]:
  "mset_slots {#} = 0" "mset_slots (add_mset ix M) = ix_slots ix + mset_slots M"
  "mset_slots (M + N) = mset_slots M + mset_slots N"
  by (simp_all add: mset_slots_def)

lemma slotsRequired_mset: "slotsRequired l = mset_slots (mset l)"
  by (simp add: slotsRequired_sum mset_slots_def flip: sum_mset_sum_list)

section \<open>Properties\<close>

definition example_at :: "u64 \<Rightarrow> Interaction" where
  "example_at n = (example_ix [])\<lparr>ix_inner := (example_data MutateLock [])
     \<lparr>ixd_Sender := \<lparr>sender_ID = 0 # replicate 31 1, sender_SequenceID = n, sender_KeyID = 0\<rparr>\<rparr>, ix_hash := [ucast n]\<rparr>"

definition example_queue :: "u64 \<Rightarrow> accountQueue" where
  "example_queue n = \<lparr>aq_keyID = 0, aq_enqueued = [], aq_promoted = [], aq_sequenceIDToIX = Map.empty, aq_nextSequenceID = n\<rparr>"

lemma example_at_seq [simp]: "ix_SequenceID (example_at n) = n"
  by (simp add: example_at_def ix_SequenceID_def)

lemma example_queue_sel [simp]:
  "aq_sequenceIDToIX (example_queue n) = Map.empty" "aq_nextSequenceID (example_queue n) = n"
  "aq_enqueued (example_queue n) = []" "aq_promoted (example_queue n) = []"
  by (simp_all add: example_queue_def)

lemma aq_inv_empty [simp]: "aq_inv (example_queue n)"
  by (simp add: example_queue_def aq_inv_def)

text \<open>C27: Pruning a queue at a sequence identifier removes exactly the interactions below it, in
  increasing order, keeps all others and keeps the heap order.\<close>

theorem q_prune_correct:
  assumes "sq.heap q"
  shows "case q_prune s q of (pruned, q') \<Rightarrow>
     mset pruned = filter_mset (\<lambda>x. ix_SequenceID x < s) (mset q) \<and> sorted (map ix_SequenceID pruned)
     \<and> mset q' = filter_mset (\<lambda>x. s \<le> ix_SequenceID x) (mset q) \<and> sq.heap q'"
proof (cases "q_prune s q")
  case (Pair pruned q')
  note S = q_prune_spec [OF assms Pair]
  then have "mset q = mset pruned + mset q'" by blast
  moreover have "filter_mset (\<lambda>x. ix_SequenceID x < s) (mset pruned) = mset pruned"
      "filter_mset (\<lambda>x. ix_SequenceID x < s) (mset q') = {#}"
      "filter_mset (\<lambda>x. s \<le> ix_SequenceID x) (mset pruned) = {#}"
      "filter_mset (\<lambda>x. s \<le> ix_SequenceID x) (mset q') = mset q'"
    using S by (auto simp: filter_mset_eq_conv not_less not_le intro: filter_mset_False)
  ultimately show ?thesis using S Pair by simp
qed

theorem q_prune_correct_witness:
  "mset (snd (q_prune 5 (q_push (example_at 3) (q_push (example_at 7) [])))) = {#example_at 7#}"
proof -
  have "sq.heap (q_push (example_at 3) (q_push (example_at 7) []))"
    by (intro q_push_heap sq.heap_Nil)
  from q_prune_correct [OF this, of 5] show ?thesis by (simp split: prod.splits)
qed

text \<open>C25: Promoting an account queue moves the interactions with the sequence identifiers from the
  next expected one up to the first gap, in order, counts them, makes the first missing identifier
  the next expected one, keeps everything else and keeps the queue invariant: promoted interactions
  lie below the next identifier, enqueued ones above it, and the table finds each by its identifier.\<close>

theorem aq_promote_correct:
  assumes "aq_inv a" and "\<forall>x \<in> set (aq_enqueued a). ix_SequenceID x \<noteq> -1"
  shows "case aq_promote a of ((c, l), a') \<Rightarrow>
     aq_inv a' \<and> c = of_nat (length l)
     \<and> map (unat \<circ> ix_SequenceID) l = [unat (aq_nextSequenceID a)..<unat (aq_nextSequenceID a')]
     \<and> mset (aq_enqueued a) = mset l + mset (aq_enqueued a')
     \<and> mset (aq_promoted a') = mset (aq_promoted a) + mset l
     \<and> (\<forall>x \<in> set (aq_enqueued a'). aq_nextSequenceID a' < ix_SequenceID x)"
proof -
  obtain c l a' where "aq_promote a = ((c, l), a')" by (metis surj_pair)
  with aq_promote_spec [OF assms this] show ?thesis by simp
qed

theorem aq_promote_correct_witness:
  "fst (aq_promote (snd (aq_enqueue (example_at 4) False (example_queue 4)))) = (1, [example_at 4])
    \<and> aq_inv (snd (aq_promote (snd (aq_enqueue (example_at 4) False (example_queue 4)))))"
proof -
  let ?e = "aq_enqueue (example_at 4) False (example_queue 4)"
  have new: "aq_sequenceIDToIX (example_queue 4) (ix_SequenceID (example_at 4)) = None"
      "aq_nextSequenceID (example_queue 4) \<le> ix_SequenceID (example_at 4)" "aq_enqueued (example_queue 4) = []"
    by (simp_all add: example_queue_def)
  have E: "aq_inv (snd ?e)" "set (aq_enqueued (snd ?e)) = {example_at 4}"
    using aq_enqueue_new [OF aq_inv_empty new(1,2) prod.collapse [symmetric]] new(3)
    by (simp_all add: mset_insert_set)
  then have "\<forall>x \<in> set (aq_enqueued (snd ?e)). ix_SequenceID x \<noteq> -1" by simp
  from aq_promote_correct [OF E(1) this] have "aq_inv (snd (aq_promote (snd ?e)))" by (auto split: prod.splits)
  moreover have "fst (aq_promote (snd ?e)) = (1, [example_at 4])" by code_simp
  ultimately show ?thesis by simp
qed

text \<open>C26: Enqueueing an interaction, with the replacement flag set when its sequence identifier is
  taken, keeps the queue invariant, makes the table return the interaction for its identifier, and
  leaves in the two queues what they held plus the interaction minus the one it replaces; the
  result says whether the replacement happened among the promoted interactions.\<close>

theorem aq_enqueue_correct:
  assumes "aq_inv a" and "aq_sequenceIDToIX a (ix_SequenceID ix) = None \<Longrightarrow> aq_nextSequenceID a \<le> ix_SequenceID ix"
  shows "case aq_enqueue ix (aq_sequenceIDToIX a (ix_SequenceID ix) \<noteq> None) a of (r, a') \<Rightarrow>
     aq_inv a' \<and> aq_sequenceIDToIX a' = (aq_sequenceIDToIX a)(ix_SequenceID ix \<mapsto> ix)
     \<and> (case aq_sequenceIDToIX a (ix_SequenceID ix) of
           None \<Rightarrow> \<not> r \<and> mset (aq_enqueued a') + mset (aq_promoted a')
                     = add_mset ix (mset (aq_enqueued a) + mset (aq_promoted a))
         | Some old \<Rightarrow> (r \<longleftrightarrow> old \<in> set (aq_promoted a))
             \<and> add_mset old (mset (aq_enqueued a') + mset (aq_promoted a'))
                 = add_mset ix (mset (aq_enqueued a) + mset (aq_promoted a)))"
proof (cases "aq_sequenceIDToIX a (ix_SequenceID ix)")
  case None
  obtain r a' where e: "aq_enqueue ix False a = (r, a')" by fastforce
  from aq_enqueue_new [OF assms(1) None assms(2) [OF None] e] aq_enqueue_frame(3) [of ix False a]
  show ?thesis by (simp add: None e)
next
  case (Some old)
  obtain r a' where e: "aq_enqueue ix True a = (r, a')" by fastforce
  from aq_enqueue_replace [OF assms(1) Some e] aq_enqueue_frame(3) [of ix True a]
  show ?thesis by (simp add: Some e)
qed

theorem aq_enqueue_correct_witness:
  "aq_inv (snd (aq_enqueue (example_at 4) False (example_queue 4)))"
  using aq_enqueue_correct [of "example_queue 4" "example_at 4"] by (simp split: prod.splits)

section \<open>Findings\<close>

text \<open>An account with promoted interactions under two keys: \<^verbatim>\<open>getIxs\<close> returns those of the last
  key only.\<close>

theorem getIxs_keeps_the_last_key:
  "getIxs \<lparr>am_accounts = [([], \<lparr>acc_accountQueues =
       [(example_queue 2)\<lparr>aq_promoted := [example_at 1]\<rparr>, (example_queue 3)\<lparr>aq_keyID := 1, aq_promoted := [example_at 2]\<rparr>],
       acc_requestTime = 0, acc_waitTime = 0, acc_delayCounter = 0\<rparr>)], am_sortedParticipants = []\<rparr> [] True
   = ([example_at 2], [])"
  by code_simp

end
