(* ===== verification/Ix_Batches.thy ===== *)
theory Ix_Batches
  imports Interactions
begin

text \<open>
  The batches of interactions that a node proposes: src/common/ix_batch.go and
  src/ixpool/ix_batch_registry.go. The set of consensus nodes hashes of a batch is a Go map that
  \<^verbatim>\<open>Flush\<close> sets to nil: a set in an option, and writing to the nil map panics. The order that
  \<^verbatim>\<open>sort.Slice\<close> gives to equal batches is unspecified, so the sorting function is an argument.
\<close>

section \<open>Batches\<close>

record IxBatch =
  ib_ixs :: "Interaction list"
  ib_consensusNodesHash :: "Hash set option"

definition NewIxnBatch :: IxBatch where
  "NewIxnBatch = \<lparr>ib_ixs = [], ib_consensusNodesHash = Some {}\<rparr>"

definition ib_Flush :: "IxBatch \<Rightarrow> IxBatch" where
  "ib_Flush ib = ib\<lparr>ib_ixs := [], ib_consensusNodesHash := None\<rparr>"

definition IxCount :: "IxBatch \<Rightarrow> nat" where
  "IxCount ib = length (ib_ixs ib)"

definition ConsensusNodesHashCount :: "IxBatch \<Rightarrow> nat" where
  "ConsensusNodesHashCount ib = (case ib_consensusNodesHash ib of None \<Rightarrow> 0 | Some hs \<Rightarrow> card hs)"

definition AppendIxns :: "Interaction list \<Rightarrow> IxBatch \<Rightarrow> IxBatch" where
  "AppendIxns l ib = ib\<lparr>ib_ixs := ib_ixs ib @ l\<rparr>"

definition ib_Interactions :: "(u8 list \<Rightarrow> Hash) \<Rightarrow> IxBatch \<Rightarrow> Interactions option" where
  "ib_Interactions GetHash ib = NewInteractionsWithLeaderCheck GetHash True (ib_ixs ib)"

text \<open>The participants that both loops skip: those the interaction creates or does not lock.\<close>

definition not_locked :: "ParticipantInfo \<Rightarrow> bool" where
  "not_locked info \<longleftrightarrow> info_IsGenesis info \<or> info_LockType info = NoLock"

definition ib_put :: "Hash \<Rightarrow> IxBatch \<Rightarrow> IxBatch option" where
  "ib_put h ib = map_option (\<lambda>hs. ib\<lparr>ib_consensusNodesHash := Some (insert h hs)\<rparr>) (ib_consensusNodesHash ib)"

definition ib_Add :: "Interaction \<Rightarrow> (Identifier \<rightharpoonup> Hash) \<Rightarrow> IxBatch \<Rightarrow> (bool \<times> IxBatch) option" where
  "ib_Add ixn consensusNodesHashes ib =
     (if IxCount ib > 100 then Some (False, ib)
      else do {
        ib' \<leftarrow> foldM (\<lambda>(ident, info) ib. if not_locked info then Some ib
                        else ib_put (map_default NilHash consensusNodesHashes ident) ib)
               (ix_ps ixn) (ib\<lparr>ib_ixs := ib_ixs ib @ [ixn]\<rparr>);
        Some (True, ib')
      })"

section \<open>The registry\<close>

abbreviation (input) BatchIDNotFound :: int where "BatchIDNotFound \<equiv> -1"
abbreviation (input) conflictBatchID :: int where "conflictBatchID \<equiv> -2"
abbreviation (input) maxBatches :: nat where "maxBatches \<equiv> 20"

record IxBatchRegistry =
  br_participantBatchLookup :: "Identifier \<rightharpoonup> int"
  br_batches :: "IxBatch list"
  br_consensusNodesHash :: "Identifier \<rightharpoonup> Hash"

definition newBatchRegistry :: IxBatchRegistry where
  "newBatchRegistry = \<lparr>br_participantBatchLookup = Map.empty, br_batches = [], br_consensusNodesHash = Map.empty\<rparr>"

definition addConsensusNodesHash :: "Identifier \<Rightarrow> Hash \<Rightarrow> IxBatchRegistry \<Rightarrow> IxBatchRegistry" where
  "addConsensusNodesHash ident hash r = r\<lparr>br_consensusNodesHash := (br_consensusNodesHash r)(ident \<mapsto> hash)\<rparr>"

definition batchID :: "IxBatchRegistry \<Rightarrow> Identifier \<Rightarrow> int option" where
  "batchID r ident = br_participantBatchLookup r ident"

definition appendEmptyBatch :: "IxBatchRegistry \<Rightarrow> IxBatchRegistry" where
  "appendEmptyBatch r = r\<lparr>br_batches := br_batches r @ [NewIxnBatch]\<rparr>"

definition addIxToBatch :: "int \<Rightarrow> Interaction \<Rightarrow> IxBatchRegistry \<Rightarrow> (bool \<times> IxBatchRegistry) option" where
  "addIxToBatch bid ixn r = do {
     b \<leftarrow> go_index (br_batches r) bid;
     (ok, b') \<leftarrow> ib_Add ixn (br_consensusNodesHash r) b;
     let r1 = r\<lparr>br_batches := (br_batches r)[nat bid := b']\<rparr>;
     if \<not> ok then Some (False, r1)
     else Some (True, fold (\<lambda>(ident, info) r. if not_locked info then r
       else r\<lparr>br_participantBatchLookup := (br_participantBatchLookup r)(ident \<mapsto> bid)\<rparr>) (ix_ps ixn) r1)
   }"

definition findBatchID :: "IxBatchRegistry \<Rightarrow> ParticipantMap \<Rightarrow> int" where
  "findBatchID r ps =
     (case find (\<lambda>(ident, info). batchID r ident \<noteq> None) ps of
        None \<Rightarrow> BatchIDNotFound
      | Some (ident, info) \<Rightarrow>
          (let psBatchID = the (batchID r ident)
           in if (\<exists>(i, info) \<in> set ps. batchID r i \<noteq> None \<and> batchID r i \<noteq> Some psBatchID) then conflictBatchID
              else psBatchID))"

definition br_addIx :: "Interaction \<Rightarrow> IxBatchRegistry \<Rightarrow> (bool \<times> IxBatchRegistry) option" where
  "br_addIx ixn r =
     (let bid = findBatchID r (ix_ps ixn)
      in if bid = conflictBatchID then Some (False, r)
         else if bid = BatchIDNotFound then
           (let r1 = appendEmptyBatch r in addIxToBatch (int (length (br_batches r1)) - 1) ixn r1)
         else if bid \<ge> 0 then addIxToBatch bid ixn r
         else Some (False, r))"

definition batch_less :: "IxBatch \<Rightarrow> IxBatch \<Rightarrow> bool" where
  "batch_less a b \<longleftrightarrow>
     (if IxCount a = IxCount b then ConsensusNodesHashCount a < ConsensusNodesHashCount b
      else IxCount a > IxCount b)"

text \<open>The loop of \<^verbatim>\<open>mergeBatches\<close> over the indices of the batches, whose number does not change: the
  merge count and the batches. The results of \<^verbatim>\<open>Add\<close> are dropped, as the code drops them.\<close>

definition merge_into :: "(Identifier \<rightharpoonup> Hash) \<Rightarrow> Interaction list \<Rightarrow> IxBatch \<Rightarrow> IxBatch option" where
  "merge_into hashes = foldM (\<lambda>ix b. map_option snd (ib_Add ix hashes b))"

fun merge_loop ::
  "(Identifier \<rightharpoonup> Hash) \<Rightarrow> nat \<Rightarrow> nat list \<Rightarrow> nat \<Rightarrow> IxBatch list \<Rightarrow> (nat \<times> IxBatch list) option" where
  "merge_loop hashes c [] mergeCount bs = Some (mergeCount, bs)"
| "merge_loop hashes c (batchIdx # rest) mergeCount bs =
     (if ConsensusNodesHashCount (bs ! batchIdx) = c then
        (case find (\<lambda>j. ConsensusNodesHashCount (bs ! j) = c) [Suc batchIdx..<length bs] of
           None \<Rightarrow> Some (mergeCount, bs)
         | Some nextBatchIdx \<Rightarrow> do {
             b \<leftarrow> merge_into hashes (ib_ixs (bs ! nextBatchIdx)) (bs ! batchIdx);
             let bs' = bs[batchIdx := b, nextBatchIdx := ib_Flush (bs ! nextBatchIdx)];
             if Suc mergeCount = maxBatches then Some (Suc mergeCount, bs')
             else merge_loop hashes c rest (Suc mergeCount) bs'
           })
      else merge_loop hashes c rest mergeCount bs)"

definition mergeBatches :: "nat \<Rightarrow> IxBatchRegistry \<Rightarrow> (bool \<times> IxBatchRegistry) option" where
  "mergeBatches c r = do {
     (mergeCount, bs) \<leftarrow> merge_loop (br_consensusNodesHash r) c [0..<length (br_batches r)] 0 (br_batches r);
     Some (mergeCount \<noteq> 0, r\<lparr>br_batches := bs\<rparr>)
   }"

type_synonym sorter = "(IxBatch \<Rightarrow> IxBatch \<Rightarrow> bool) \<Rightarrow> IxBatch list \<Rightarrow> IxBatch list"

definition br_sort :: "sorter \<Rightarrow> IxBatchRegistry \<Rightarrow> IxBatchRegistry" where
  "br_sort srt r = r\<lparr>br_batches := srt batch_less (br_batches r)\<rparr>"

definition selectOptimalBatches :: "sorter \<Rightarrow> IxBatchRegistry \<Rightarrow> (IxBatch list \<times> IxBatchRegistry) option" where
  "selectOptimalBatches srt r = do {
     (merge1, r1) \<leftarrow> mergeBatches 1 (br_sort srt r);
     (merge2, r2) \<leftarrow> mergeBatches 2 r1;
     let r3 = (if merge1 \<or> merge2 then br_sort srt r2 else r2);
     Some (take maxBatches (filter (\<lambda>b. IxCount b > 0) (br_batches r3)), r3)
   }"

section \<open>Adding to a batch\<close>

text \<open>The participants that the interactions of a batch lock.\<close>

definition ix_locked :: "Interaction \<Rightarrow> Identifier set" where
  "ix_locked ixn = {ident. \<exists>info. (ident, info) \<in> set (ix_ps ixn) \<and> \<not> not_locked info}"

definition batch_locked :: "IxBatch \<Rightarrow> Identifier set" where
  "batch_locked b = (\<Union>ixn \<in> set (ib_ixs b). ix_locked ixn)"

definition batch_ok :: "IxBatch \<Rightarrow> bool" where
  "batch_ok b \<longleftrightarrow> IxCount b \<le> 101 \<and> (ib_ixs b = [] \<or> ib_consensusNodesHash b \<noteq> None)"

lemma batch_locked_simps [simp]:
  "batch_locked NewIxnBatch = {}" "batch_locked (ib_Flush b) = {}"
  "batch_locked (b\<lparr>ib_consensusNodesHash := h\<rparr>) = batch_locked b"
  "batch_locked (b\<lparr>ib_ixs := ib_ixs b @ [ixn]\<rparr>) = batch_locked b \<union> ix_locked ixn"
  by (auto simp: batch_locked_def NewIxnBatch_def ib_Flush_def)

lemma ib_puts:
  assumes "ib_consensusNodesHash b = Some hs"
  shows "\<exists>hs'. foldM (\<lambda>(ident, info) ib. if not_locked info then Some ib else ib_put (f ident) ib) ps b
    = Some (b\<lparr>ib_consensusNodesHash := Some hs'\<rparr>)"
  using assms
proof (induction ps arbitrary: b hs)
  case Nil
  then show ?case by (cases b) simp
next
  case (Cons p ps)
  obtain ident info where p: "p = (ident, info)" by fastforce
  show ?case
  proof (cases "not_locked info")
    case True
    with Cons show ?thesis by (simp add: p)
  next
    case False
    let ?b = "b\<lparr>ib_consensusNodesHash := Some (insert (f ident) hs)\<rparr>"
    from Cons.IH [of ?b] obtain hs' where
      "foldM (\<lambda>(ident, info) ib. if not_locked info then Some ib else ib_put (f ident) ib) ps ?b
        = Some (b\<lparr>ib_consensusNodesHash := Some hs'\<rparr>)" by auto
    with False Cons.prems show ?thesis by (auto simp: p ib_put_def)
  qed
qed

text \<open>A batch that is not full takes the interaction; a full one is left as it is.\<close>

lemma ib_Add_cases:
  assumes "ib_consensusNodesHash b \<noteq> None" and "IxCount b \<le> 101"
  obtains (full) "IxCount b = 101" and "ib_Add ixn hashes b = Some (False, b)"
  | (added) hs where "IxCount b \<le> 100"
      and "ib_Add ixn hashes b = Some (True, b\<lparr>ib_ixs := ib_ixs b @ [ixn], ib_consensusNodesHash := Some hs\<rparr>)"
proof (cases "IxCount b > 100")
  case True
  with assms full show ?thesis by (simp add: ib_Add_def)
next
  case False
  obtain hs where "ib_consensusNodesHash (b\<lparr>ib_ixs := ib_ixs b @ [ixn]\<rparr>) = Some hs" using assms(1) by auto
  from ib_puts [OF this, of "map_default NilHash hashes" "ix_ps ixn"] False added show ?thesis
    by (auto simp: ib_Add_def)
qed

lemma merge_into_spec:
  assumes "ib_consensusNodesHash b \<noteq> None" and "IxCount b \<le> 101"
  shows "\<exists>b'. merge_into hashes l b = Some b' \<and> ib_consensusNodesHash b' \<noteq> None \<and> IxCount b' \<le> 101
    \<and> batch_locked b' \<subseteq> batch_locked b \<union> (\<Union>ixn \<in> set l. ix_locked ixn)
    \<and> mset (ib_ixs b') \<subseteq># mset (ib_ixs b) + mset l"
  using assms
proof (induction l arbitrary: b)
  case Nil
  then show ?case by (simp add: merge_into_def)
next
  case (Cons ixn l)
  from Cons.prems show ?case
  proof (cases rule: ib_Add_cases [where ixn = ixn and hashes = hashes])
    case full
    from Cons.IH [OF Cons.prems] obtain b' where b': "merge_into hashes l b = Some b'"
        "ib_consensusNodesHash b' \<noteq> None" "IxCount b' \<le> 101"
        "batch_locked b' \<subseteq> batch_locked b \<union> (\<Union>ixn \<in> set l. ix_locked ixn)"
        "mset (ib_ixs b') \<subseteq># mset (ib_ixs b) + mset l" by blast
    moreover have "mset (ib_ixs b') \<subseteq># mset (ib_ixs b) + mset (ixn # l)"
      by (rule subset_mset.order_trans [OF b'(5)]) simp
    ultimately show ?thesis using full by (auto simp: merge_into_def)
  next
    case (added hs)
    let ?b = "b\<lparr>ib_ixs := ib_ixs b @ [ixn], ib_consensusNodesHash := Some hs\<rparr>"
    have "ib_consensusNodesHash ?b \<noteq> None" "IxCount ?b \<le> 101" using added(1) by (simp_all add: IxCount_def)
    from Cons.IH [OF this] obtain b' where "merge_into hashes l ?b = Some b'"
        "ib_consensusNodesHash b' \<noteq> None" "IxCount b' \<le> 101"
        "batch_locked b' \<subseteq> batch_locked ?b \<union> (\<Union>ixn \<in> set l. ix_locked ixn)"
        "mset (ib_ixs b') \<subseteq># mset (ib_ixs ?b) + mset l" by blast
    with added(2) show ?thesis by (auto simp: merge_into_def)
  qed
qed

section \<open>Merging\<close>

text \<open>No participant is locked in two of the batches.\<close>

definition exclusive :: "IxBatch list \<Rightarrow> bool" where
  "exclusive bs \<longleftrightarrow> (\<forall>ident. length (filter (\<lambda>b. ident \<in> batch_locked b) bs) \<le> 1)"

definition batches_ok :: "IxBatch list \<Rightarrow> bool" where
  "batches_ok bs \<longleftrightarrow> exclusive bs \<and> (\<forall>b \<in> set bs. batch_ok b)"

definition all_ixns :: "IxBatch list \<Rightarrow> Interaction multiset" where
  "all_ixns bs = (\<Sum>b \<leftarrow> bs. mset (ib_ixs b))"

lemma exclusive_mset: "mset bs = mset bs' \<Longrightarrow> exclusive bs \<longleftrightarrow> exclusive bs'"
proof -
  assume "mset bs = mset bs'"
  then have "length (filter P bs) = length (filter P bs')" for P by (metis mset_filter size_mset)
  then show ?thesis by (simp add: exclusive_def)
qed

lemma all_ixns_mset: "mset bs = mset bs' \<Longrightarrow> all_ixns bs = all_ixns bs'"
  by (metis all_ixns_def mset_map sum_mset_sum_list)

lemma batches_ok_mset: "mset bs = mset bs' \<Longrightarrow> batches_ok bs \<longleftrightarrow> batches_ok bs'"
  using exclusive_mset [of bs bs'] by (auto simp: batches_ok_def dest: mset_eq_setD)

lemma all_ixns_update:
  "i < length bs \<Longrightarrow> all_ixns (bs[i := b]) + mset (ib_ixs (bs ! i)) = all_ixns bs + mset (ib_ixs b)"
proof (induction bs arbitrary: i)
  case Nil
  then show ?case by simp
next
  case (Cons x bs)
  then show ?case by (cases i) (auto simp: all_ixns_def add_ac)
qed

lemma merge_two:
  assumes "batches_ok bs" and "i < j" and "j < length bs" and "batch_ok b"
    and "batch_locked b \<subseteq> batch_locked (bs ! i) \<union> batch_locked (bs ! j)"
    and "mset (ib_ixs b) \<subseteq># mset (ib_ixs (bs ! i)) + mset (ib_ixs (bs ! j))"
  shows "batches_ok (bs[i := b, j := ib_Flush (bs ! j)]) \<and> all_ixns (bs[i := b, j := ib_Flush (bs ! j)]) \<subseteq># all_ixns bs"
proof
  let ?bs = "bs[i := b]" and ?f = "ib_Flush (bs ! j)"
  have j: "?bs ! j = bs ! j" "i < length bs" using assms(2,3) by simp_all
  have "length (filter (\<lambda>b. ident \<in> batch_locked b) (?bs[j := ?f])) \<le> 1" for ident
  proof -
    let ?P = "\<lambda>b. ident \<in> batch_locked b"
    have "length (filter ?P bs) \<le> 1" using assms(1) by (simp add: batches_ok_def exclusive_def)
    moreover have "length (filter ?P ?bs) + of_bool (?P (bs ! i)) = length (filter ?P bs) + of_bool (?P b)"
      using length_filter_update [OF j(2), of ?P b] by (simp split: if_splits)
    moreover have "length (filter ?P (?bs[j := ?f])) + of_bool (?P (bs ! j)) = length (filter ?P ?bs)"
      using length_filter_update [of j ?bs ?P ?f] assms(3) j(1) by (simp split: if_splits)
    ultimately show ?thesis using assms(5) by (auto simp: of_bool_def split: if_splits)
  qed
  moreover have "batch_ok x" if "x \<in> set (?bs[j := ?f])" for x
  proof -
    have "x = ?f \<or> x = b \<or> x \<in> set bs" using that by (metis insert_iff set_update_subset_insert subset_iff)
    then show ?thesis using assms(1,4) by (auto simp: batches_ok_def batch_ok_def ib_Flush_def IxCount_def)
  qed
  ultimately show "batches_ok (?bs[j := ?f])" by (simp add: batches_ok_def exclusive_def)
  have "all_ixns (?bs[j := ?f]) + mset (ib_ixs (bs ! j)) = all_ixns ?bs"
    using all_ixns_update [of j ?bs ?f] assms(3) j(1) by (simp add: ib_Flush_def)
  then have "all_ixns (?bs[j := ?f]) + (mset (ib_ixs (bs ! i)) + mset (ib_ixs (bs ! j))) = all_ixns bs + mset (ib_ixs b)"
    using all_ixns_update [OF j(2), of b] by (simp add: add_ac)
  also have "\<dots> \<subseteq># all_ixns bs + (mset (ib_ixs (bs ! i)) + mset (ib_ixs (bs ! j)))" using assms(6) by simp
  finally show "all_ixns (?bs[j := ?f]) \<subseteq># all_ixns bs" by simp
qed

lemma merge_loop_spec:
  assumes "batches_ok bs" and "0 < c" and "\<forall>i \<in> set idxs. i < length bs"
  shows "\<exists>n bs'. merge_loop hashes c idxs k bs = Some (n, bs') \<and> batches_ok bs' \<and> all_ixns bs' \<subseteq># all_ixns bs"
  using assms
proof (induction idxs arbitrary: bs k)
  case Nil
  then show ?case by simp
next
  case (Cons i idxs)
  show ?case
  proof (cases "ConsensusNodesHashCount (bs ! i) = c \<and>
      find (\<lambda>j. ConsensusNodesHashCount (bs ! j) = c) [Suc i..<length bs] \<noteq> None")
    case False
    with Cons show ?thesis by auto
  next
    case True
    then obtain j where find: "find (\<lambda>j. ConsensusNodesHashCount (bs ! j) = c) [Suc i..<length bs] = Some j" by auto
    then have j: "i < j" "j < length bs" "ConsensusNodesHashCount (bs ! j) = c"
      by (auto simp: find_Some_iff)
    have "batch_ok (bs ! i)" using Cons.prems by (simp add: batches_ok_def)
    then have i: "ib_consensusNodesHash (bs ! i) \<noteq> None" "IxCount (bs ! i) \<le> 101"
      using conjunct1 [OF True] Cons.prems(2)
      by (auto simp: batch_ok_def ConsensusNodesHashCount_def split: option.splits)
    from merge_into_spec [OF i, of hashes "ib_ixs (bs ! j)"] obtain b where
      b: "merge_into hashes (ib_ixs (bs ! j)) (bs ! i) = Some b" "batch_ok b"
         "batch_locked b \<subseteq> batch_locked (bs ! i) \<union> batch_locked (bs ! j)"
         "mset (ib_ixs b) \<subseteq># mset (ib_ixs (bs ! i)) + mset (ib_ixs (bs ! j))"
      by (auto simp: batch_ok_def batch_locked_def [of "bs ! j"])
    let ?bs = "bs[i := b, j := ib_Flush (bs ! j)]"
    note M = merge_two [OF Cons.prems(1) j(1,2) b(2-4)]
    then obtain n bs' where "merge_loop hashes c idxs (Suc k) ?bs = Some (n, bs')" "batches_ok bs'" "all_ixns bs' \<subseteq># all_ixns ?bs"
      using Cons.IH [of ?bs "Suc k"] Cons.prems(2,3) by auto
    with M True find b(1) show ?thesis by (auto simp: Let_def intro: subset_mset.order_trans)
  qed
qed

section \<open>The registry invariant\<close>

text \<open>The lookup table names the batch of a participant exactly when a batch locks it, so no two
  batches lock the same participant.\<close>

definition reg_inv :: "IxBatchRegistry \<Rightarrow> bool" where
  "reg_inv r \<longleftrightarrow>
     (\<forall>ident k. br_participantBatchLookup r ident = Some k
       \<longleftrightarrow> (\<exists>n < length (br_batches r). k = int n \<and> ident \<in> batch_locked (br_batches r ! n)))
     \<and> (\<forall>b \<in> set (br_batches r). ib_consensusNodesHash b \<noteq> None \<and> IxCount b \<le> 101)"

lemma reg_invD:
  assumes "reg_inv r"
  shows "br_participantBatchLookup r ident = Some k
      \<longleftrightarrow> (\<exists>n < length (br_batches r). k = int n \<and> ident \<in> batch_locked (br_batches r ! n))"
    and "b \<in> set (br_batches r) \<Longrightarrow> ib_consensusNodesHash b \<noteq> None"
    and "b \<in> set (br_batches r) \<Longrightarrow> IxCount b \<le> 101"
  using assms by (auto simp: reg_inv_def)

lemma length_filter_le_1:
  assumes "\<And>i j. i < length xs \<Longrightarrow> j < length xs \<Longrightarrow> P (xs ! i) \<Longrightarrow> P (xs ! j) \<Longrightarrow> i = j"
  shows "length (filter P xs) \<le> 1"
  unfolding length_filter_conv_card by (simp add: card_le_Suc0_iff_eq) (use assms in blast)

lemma reg_inv_batches_ok: "reg_inv r \<Longrightarrow> batches_ok (br_batches r)"
proof -
  assume inv: "reg_inv r"
  have "length (filter (\<lambda>b. ident \<in> batch_locked b) (br_batches r)) \<le> 1" for ident
  proof (rule length_filter_le_1)
    fix i j assume ij: "i < length (br_batches r)" "j < length (br_batches r)"
      "ident \<in> batch_locked (br_batches r ! i)" "ident \<in> batch_locked (br_batches r ! j)"
    then have "br_participantBatchLookup r ident = Some (int i)" "br_participantBatchLookup r ident = Some (int j)"
      using reg_invD(1) [OF inv] by blast+
    then show "i = j" by simp
  qed
  then show ?thesis using inv by (auto simp: batches_ok_def exclusive_def batch_ok_def reg_inv_def)
qed

lemma reg_inv_new [inv_intros]: "reg_inv newBatchRegistry"
  by (simp add: reg_inv_def newBatchRegistry_def)

lemma reg_inv_hash [inv_intros]: "reg_inv r \<Longrightarrow> reg_inv (addConsensusNodesHash ident h r)"
  by (simp add: reg_inv_def addConsensusNodesHash_def)

lemma reg_inv_append [inv_intros]: "reg_inv r \<Longrightarrow> reg_inv (appendEmptyBatch r)"
  by (auto simp: reg_inv_def appendEmptyBatch_def nth_append less_Suc_eq NewIxnBatch_def IxCount_def batch_locked_def)

lemma lookup_fold:
  "fold (\<lambda>(ident, info) r. if not_locked info then r
     else r\<lparr>br_participantBatchLookup := (br_participantBatchLookup r)(ident \<mapsto> bid)\<rparr>) ps r
   = r\<lparr>br_participantBatchLookup := (\<lambda>ident. if \<exists>info. (ident, info) \<in> set ps \<and> \<not> not_locked info then Some bid
       else br_participantBatchLookup r ident)\<rparr>"
proof (induction ps arbitrary: r)
  case Nil
  then show ?case by simp
next
  case (Cons p ps)
  obtain ident info where "p = (ident, info)" by fastforce
  then show ?case by (cases "not_locked info") (auto simp: Cons.IH intro!: ext arg_cong [of _ _ "\<lambda>f. r\<lparr>br_participantBatchLookup := f\<rparr>"])
qed

lemma addIxToBatch_spec:
  assumes "reg_inv r" and "k < length (br_batches r)"
    and "\<forall>(i, info) \<in> set (ix_ps ixn). batchID r i = None \<or> batchID r i = Some (int k)"
  shows "\<exists>ok r'. addIxToBatch (int k) ixn r = Some (ok, r') \<and> reg_inv r'
    \<and> all_ixns (br_batches r') = all_ixns (br_batches r) + (if ok then {#ixn#} else {#})
    \<and> (ok \<longleftrightarrow> IxCount (br_batches r ! k) \<le> 100)"
proof -
  let ?b = "br_batches r ! k"
  have b: "ib_consensusNodesHash ?b \<noteq> None" "IxCount ?b \<le> 101" using reg_invD(2,3) [OF assms(1)] assms(2) by simp_all
  then show ?thesis
  proof (cases rule: ib_Add_cases [where ixn = ixn and hashes = "br_consensusNodesHash r"])
    case full
    have "r\<lparr>br_batches := (br_batches r)[k := ?b]\<rparr> = r" by simp
    with full assms(2) have "addIxToBatch (int k) ixn r = Some (False, r)" by (simp add: addIxToBatch_def)
    with full(1) assms(1) show ?thesis by (intro exI [of _ False] exI [of _ r]) simp
  next
    case (added hs)
    let ?b' = "?b\<lparr>ib_ixs := ib_ixs ?b @ [ixn], ib_consensusNodesHash := Some hs\<rparr>"
    let ?L = "\<lambda>ident. if ident \<in> ix_locked ixn then Some (int k) else br_participantBatchLookup r ident"
    let ?r = "r\<lparr>br_batches := (br_batches r)[k := ?b'], br_participantBatchLookup := ?L\<rparr>"
    have eq: "addIxToBatch (int k) ixn r = Some (True, ?r)"
      using added(2) assms(2) by (simp add: addIxToBatch_def lookup_fold ix_locked_def Let_def cong: if_cong)
    have locked: "batch_locked ?b' = batch_locked ?b \<union> ix_locked ixn" by (auto simp: batch_locked_def)
    have other: "n = k" if "n < length (br_batches r)" "ident \<in> batch_locked (br_batches r ! n)" "ident \<in> ix_locked ixn" for ident n
    proof -
      have "br_participantBatchLookup r ident = Some (int n)" using reg_invD(1) [OF assms(1)] that by blast
      with that(3) assms(3) show ?thesis by (auto simp: batchID_def ix_locked_def)
    qed
    have "?L ident = Some m \<longleftrightarrow> (\<exists>n < length (br_batches r). m = int n
        \<and> ident \<in> batch_locked ((br_batches r)[k := ?b'] ! n))" for ident m
    proof (cases "ident \<in> ix_locked ixn")
      case True
      have "ident \<in> batch_locked ((br_batches r)[k := ?b'] ! n) \<longleftrightarrow> n = k" if "n < length (br_batches r)" for n
        using other [OF that _ True] True locked that assms(2) by (cases "n = k") auto
      with True assms(2) show ?thesis by auto
    next
      case False
      have "ident \<in> batch_locked ((br_batches r)[k := ?b'] ! n) \<longleftrightarrow> ident \<in> batch_locked (br_batches r ! n)" for n
        using False locked assms(2) by (cases "n = k") auto
      with False reg_invD(1) [OF assms(1), of ident m] show ?thesis by simp
    qed
    then have "reg_inv ?r"
      using reg_invD(2,3) [OF assms(1)] added(1)
      by (auto simp: reg_inv_def IxCount_def dest!: subsetD [OF set_update_subset_insert])
    moreover have "all_ixns ((br_batches r)[k := ?b']) = all_ixns (br_batches r) + {#ixn#}"
      using all_ixns_update [OF assms(2), of ?b'] by simp
    ultimately show ?thesis using eq added(1) by (intro exI [of _ True] exI [of _ ?r]) simp
  qed
qed

lemma is_singleton_member: "k \<in> B \<Longrightarrow> is_singleton B \<longleftrightarrow> B = {k}"
  by (auto simp: is_singleton_def)

text \<open>The result depends on the set of participants only, not on the iteration order of the map.\<close>

lemma findBatchID_order:
  assumes "set ps = set ps'"
  shows "findBatchID r ps = findBatchID r ps'"
proof -
  have reference: "findBatchID r ps =
      (let B = {b. \<exists>(i, info) \<in> set ps. batchID r i = Some b}
       in if B = {} then BatchIDNotFound else if is_singleton B then the_elem B else conflictBatchID)" for ps
  proof (cases "find (\<lambda>(ident, info). batchID r ident \<noteq> None) ps")
    case None
    then have "{b. \<exists>(i, info) \<in> set ps. batchID r i = Some b} = {}" by (auto simp: find_None_iff)
    with None show ?thesis by (simp add: findBatchID_def)
  next
    case (Some p)
    then have "p \<in> set ps \<and> batchID r (fst p) \<noteq> None" by (auto simp: find_Some_iff case_prod_unfold)
    then obtain ident info k where p: "p = (ident, info)" "(ident, info) \<in> set ps" "batchID r ident = Some k"
      by (cases p) auto
    let ?B = "{b. \<exists>(i, info) \<in> set ps. batchID r i = Some b}"
    have k: "k \<in> ?B" using p by auto
    then have "(\<exists>(i, info) \<in> set ps. batchID r i \<noteq> None \<and> batchID r i \<noteq> Some k) \<longleftrightarrow> ?B \<noteq> {k}" by force
    moreover have "is_singleton ?B \<longleftrightarrow> ?B = {k}" by (rule is_singleton_member [OF k])
    moreover have "?B \<noteq> {}" using k by blast
    moreover have "findBatchID r ps = (if \<exists>(i, info) \<in> set ps. batchID r i \<noteq> None \<and> batchID r i \<noteq> Some k
        then conflictBatchID else k)"
      using Some p by (simp add: findBatchID_def Let_def)
    ultimately show ?thesis by (cases "?B = {k}") (simp_all add: Let_def)
  qed
  show ?thesis unfolding reference assms by simp
qed

lemma findBatchID_cases:
  assumes "reg_inv r"
  obtains (none) "findBatchID r ps = BatchIDNotFound" and "\<forall>(i, info) \<in> set ps. batchID r i = None"
  | (conflict) i j a b where "findBatchID r ps = conflictBatchID" and "i \<in> fst ` set ps" and "j \<in> fst ` set ps"
      and "batchID r i = Some a" and "batchID r j = Some b" and "a \<noteq> b"
  | (found) k where "findBatchID r ps = int k" and "k < length (br_batches r)"
      and "\<forall>(i, info) \<in> set ps. batchID r i = None \<or> batchID r i = Some (int k)"
      and "\<exists>(i, info) \<in> set ps. batchID r i = Some (int k)"
proof (cases "find (\<lambda>(ident, info). batchID r ident \<noteq> None) ps")
  case None
  then have "findBatchID r ps = BatchIDNotFound" by (simp add: findBatchID_def)
  moreover have "\<forall>(i, info) \<in> set ps. batchID r i = None" using None by (auto simp: find_None_iff)
  ultimately show ?thesis by (rule none)
next
  case (Some p)
  then have "p \<in> set ps \<and> batchID r (fst p) \<noteq> None" by (auto simp: find_Some_iff case_prod_unfold)
  then obtain ident info k where p: "p = (ident, info)" "(ident, info) \<in> set ps" "batchID r ident = Some k"
    by (cases p) auto
  then obtain n where n: "k = int n" "n < length (br_batches r)" using reg_invD(1) [OF assms] by (auto simp: batchID_def)
  show ?thesis
  proof (cases "\<exists>(i, info) \<in> set ps. batchID r i \<noteq> None \<and> batchID r i \<noteq> Some k")
    case True
    then obtain i info' b where "(i, info') \<in> set ps" "batchID r i = Some b" "b \<noteq> k" by auto
    moreover have "findBatchID r ps = conflictBatchID" using Some p True by (simp add: findBatchID_def)
    ultimately show ?thesis using conflict [of ident i k b] p(2,3) by force
  next
    case False
    have "findBatchID r ps = int n" using Some p False n(1) by (simp add: findBatchID_def)
    moreover have "\<forall>(i, info) \<in> set ps. batchID r i = None \<or> batchID r i = Some (int n)" using False n(1) by auto
    ultimately show ?thesis using found [of n] n p by auto
  qed
qed

lemma br_addIx_spec:
  assumes "reg_inv r"
  shows "\<exists>ok r'. br_addIx ixn r = Some (ok, r') \<and> reg_inv r'
    \<and> all_ixns (br_batches r') = all_ixns (br_batches r) + (if ok then {#ixn#} else {#})"
  using assms
proof (cases rule: findBatchID_cases [where ps = "ix_ps ixn"])
  case none
  let ?r = "appendEmptyBatch r" and ?k = "length (br_batches r)"
  have "\<forall>(i, info) \<in> set (ix_ps ixn). batchID ?r i = None \<or> batchID ?r i = Some (int ?k)"
    using none(2) by (auto simp: batchID_def appendEmptyBatch_def)
  moreover have "?k < length (br_batches ?r)" "all_ixns (br_batches ?r) = all_ixns (br_batches r)"
    by (simp_all add: appendEmptyBatch_def all_ixns_def NewIxnBatch_def)
  moreover have "int (length (br_batches ?r)) - 1 = int ?k" by (simp add: appendEmptyBatch_def)
  ultimately show ?thesis
    using addIxToBatch_spec [OF reg_inv_append [OF assms], of ?k ixn] none(1) by (auto simp: br_addIx_def)
next
  case conflict
  then show ?thesis using assms by (intro exI [of _ False] exI [of _ r]) (simp add: br_addIx_def)
next
  case (found k)
  then show ?thesis using addIxToBatch_spec [OF assms found(2,3)] by (auto simp: br_addIx_def)
qed

text \<open>The registries that \<^verbatim>\<open>ProcessableBatches\<close> builds.\<close>

inductive registry_reachable :: "IxBatchRegistry \<Rightarrow> bool" where
  new: "registry_reachable newBatchRegistry"
| hash: "registry_reachable r \<Longrightarrow> registry_reachable (addConsensusNodesHash ident h r)"
| add: "registry_reachable r \<Longrightarrow> br_addIx ixn r = Some (ok, r') \<Longrightarrow> registry_reachable r'"

lemma registry_reachable_inv: "registry_reachable r \<Longrightarrow> reg_inv r"
proof (induction rule: registry_reachable.induct)
  case new
  show ?case by (rule reg_inv_new)
next
  case (hash r ident h)
  then show ?case by (intro reg_inv_hash)
next
  case (add r ixn ok r')
  then show ?case using br_addIx_spec [of r ixn] by auto
qed

lemma mergeBatches_spec:
  assumes "batches_ok (br_batches r)" and "0 < c"
  shows "\<exists>m r'. mergeBatches c r = Some (m, r') \<and> batches_ok (br_batches r')
    \<and> all_ixns (br_batches r') \<subseteq># all_ixns (br_batches r)"
proof -
  have "\<forall>i \<in> set [0..<length (br_batches r)]. i < length (br_batches r)" by simp
  from merge_loop_spec [OF assms this, of "br_consensusNodesHash r" 0] obtain n bs where
    "merge_loop (br_consensusNodesHash r) c [0..<length (br_batches r)] 0 (br_batches r) = Some (n, bs)"
    "batches_ok bs" "all_ixns bs \<subseteq># all_ixns (br_batches r)" by blast
  then show ?thesis by (simp add: mergeBatches_def)
qed

section \<open>Properties\<close>

lemma exclusive_filter: "exclusive bs \<Longrightarrow> exclusive (take n (filter P bs))"
proof -
  assume ex: "exclusive bs"
  have "length (filter Q (take n (filter P bs))) \<le> length (filter Q bs)" for Q
  proof -
    have "filter Q (filter P bs) = filter Q (take n (filter P bs)) @ filter Q (drop n (filter P bs))"
      by (metis append_take_drop_id filter_append)
    then have "length (filter Q (take n (filter P bs))) \<le> length (filter Q (filter P bs))" by simp
    also have "filter Q (filter P bs) = filter P (filter Q bs)" by (simp add: conj_commute)
    also have "length \<dots> \<le> length (filter Q bs)" by (rule length_filter_le)
    finally show ?thesis .
  qed
  with ex show ?thesis by (meson exclusive_def order_trans)
qed

lemma all_ixns_filter: "all_ixns (take n (filter P bs)) \<subseteq># all_ixns bs"
proof -
  have "all_ixns (filter P bs) \<subseteq># all_ixns bs"
    by (induction bs) (auto simp: all_ixns_def intro: subset_mset.add_increasing)
  moreover have "all_ixns (filter P bs) = all_ixns (take n (filter P bs)) + all_ixns (drop n (filter P bs))"
    unfolding all_ixns_def by (metis append_take_drop_id map_append sum_list_append)
  ultimately show ?thesis by (metis mset_subset_eq_add_left subset_mset.order_trans)
qed

lemma selectOptimalBatches_spec:
  assumes "registry_reachable r" and "\<forall>lt xs. mset (srt lt xs) = mset xs"
  shows "\<exists>bs r'. selectOptimalBatches srt r = Some (bs, r') \<and> length bs \<le> 20
    \<and> (\<forall>b \<in> set bs. 0 < IxCount b \<and> IxCount b \<le> 101)
    \<and> (\<forall>ident. length (filter (\<lambda>b. ident \<in> batch_locked b) bs) \<le> 1)
    \<and> all_ixns bs \<subseteq># all_ixns (br_batches r)"
proof -
  have sorted: "mset (br_batches (br_sort srt r)) = mset (br_batches r)" for r
    using assms(2) by (simp add: br_sort_def)
  have ok: "batches_ok (br_batches (br_sort srt r))"
    using reg_inv_batches_ok [OF registry_reachable_inv [OF assms(1)]] batches_ok_mset [OF sorted] by simp
  from mergeBatches_spec [OF ok, of 1] obtain m1 r1 where r1: "mergeBatches 1 (br_sort srt r) = Some (m1, r1)"
      "batches_ok (br_batches r1)" "all_ixns (br_batches r1) \<subseteq># all_ixns (br_batches r)"
    using all_ixns_mset [OF sorted [of r]] by auto
  from mergeBatches_spec [OF r1(2), of 2] obtain m2 r2 where r2: "mergeBatches 2 r1 = Some (m2, r2)"
      "batches_ok (br_batches r2)" "all_ixns (br_batches r2) \<subseteq># all_ixns (br_batches r1)" by auto
  define r3 where "r3 = (if m1 \<or> m2 then br_sort srt r2 else r2)"
  have r3: "batches_ok (br_batches r3)" "all_ixns (br_batches r3) = all_ixns (br_batches r2)"
    using r2(2) batches_ok_mset [OF sorted [of r2]] all_ixns_mset [OF sorted [of r2]] by (simp_all add: r3_def)
  define bs where "bs = take 20 (filter (\<lambda>b. IxCount b > 0) (br_batches r3))"
  have "selectOptimalBatches srt r = Some (bs, r3)"
    using r1(1) r2(1) by (simp add: selectOptimalBatches_def r3_def bs_def Let_def)
  moreover have "\<forall>b \<in> set bs. 0 < IxCount b \<and> IxCount b \<le> 101"
    using r3(1) by (auto simp: batches_ok_def batch_ok_def bs_def dest: in_set_takeD)
  moreover have "\<forall>ident. length (filter (\<lambda>b. ident \<in> batch_locked b) bs) \<le> 1"
    using exclusive_filter [of "br_batches r3" 20] r3(1) by (simp add: batches_ok_def exclusive_def bs_def)
  moreover have "all_ixns bs \<subseteq># all_ixns (br_batches r)"
    unfolding bs_def using all_ixns_filter [of 20 _ "br_batches r3"] r3(2) r2(3) r1(3) by (metis subset_mset.order_trans)
  moreover have "length bs \<le> 20" by (simp add: bs_def)
  ultimately show ?thesis by blast
qed

text \<open>C38: The batches that are selected for proposal from a registry, whatever order the sort gives
  to equal batches: at most twenty, none of them empty, none larger than 101 interactions, no
  participant is locked by interactions of two of them, and all their interactions come from the
  registry. The selection never panics.\<close>

theorem selectOptimalBatches_exclusive:
  assumes "registry_reachable r" and "\<forall>lt xs. mset (srt lt xs) = mset xs"
  shows "\<exists>bs r'. selectOptimalBatches srt r = Some (bs, r') \<and> length bs \<le> 20
    \<and> (\<forall>b \<in> set bs. 0 < IxCount b \<and> IxCount b \<le> 101)
    \<and> (\<forall>ident. length (filter (\<lambda>b. ident \<in> batch_locked b) bs) \<le> 1)
    \<and> all_ixns bs \<subseteq># all_ixns (br_batches r)"
  using assms by (rule selectOptimalBatches_spec)

theorem selectOptimalBatches_exclusive_witness:
  "\<exists>bs r'. selectOptimalBatches (\<lambda>lt xs. xs) newBatchRegistry = Some (bs, r') \<and> length bs \<le> 20"
  using selectOptimalBatches_exclusive [OF registry_reachable.new, of "\<lambda>lt xs. xs"] by auto

section \<open>Findings\<close>

text \<open>Merging into a batch that is full drops the interactions of the other batch: they are in none
  of the selected batches, as the other batch is flushed.\<close>

theorem merge_into_full_drops: "IxCount b > 100 \<Longrightarrow> merge_into hashes l b = Some b"
  by (induction l) (simp_all add: merge_into_def ib_Add_def)

end
