(* ===== verification/Dup_Cache.thy ===== *)
theory Dup_Cache
  imports Go_Prelude
begin

text \<open>
  The filter for duplicate messages: src/ixpool/ix_dup_cache.go. A cache keeps the digests of the
  messages it has seen in two pages and drops the older page when the newer one is full. The salted
  cache hashes each message with a salt that changes with every rotation; the hash function and the
  random numbers are arguments. The salted cache checks a message under a read lock and inserts it
  under a write lock: the two critical sections are two definitions, and other operations can run
  between them. Reading a nil map finds nothing, so a page is a set.
\<close>

section \<open>The digest cache\<close>

record digestCache =
  dc_cur :: "Hash set"
  dc_prev :: "Hash set"
  dc_maxSize :: int

definition newDigestCache :: "int \<Rightarrow> digestCache" where
  "newDigestCache sz = \<lparr>dc_cur = {}, dc_prev = {}, dc_maxSize = sz\<rparr>"

definition dc_has :: "Hash \<Rightarrow> digestCache \<Rightarrow> bool" where
  "dc_has d c \<longleftrightarrow> d \<in> dc_cur c \<or> d \<in> dc_prev c"

definition dc_swap :: "digestCache \<Rightarrow> digestCache" where
  "dc_swap c = c\<lparr>dc_prev := dc_cur c, dc_cur := {}\<rparr>"

definition dc_insert :: "Hash \<Rightarrow> digestCache \<Rightarrow> digestCache" where
  "dc_insert d c =
     (let c1 = (if int (card (dc_cur c)) \<ge> dc_maxSize c then dc_swap c else c)
      in c1\<lparr>dc_cur := insert d (dc_cur c1)\<rparr>)"

definition CheckAndInsert :: "Hash \<Rightarrow> digestCache \<Rightarrow> bool \<times> digestCache" where
  "CheckAndInsert d c = (if dc_has d c then (True, c) else (False, dc_insert d c))"

definition dc_Len :: "digestCache \<Rightarrow> int" where
  "dc_Len c = int (card (dc_cur c)) + int (card (dc_prev c))"

definition dc_Delete :: "Hash \<Rightarrow> digestCache \<Rightarrow> digestCache" where
  "dc_Delete d c = c\<lparr>dc_cur := dc_cur c - {d}, dc_prev := dc_prev c - {d}\<rparr>"

section \<open>The salted cache\<close>

record ixSaltedCache = digestCache +
  sc_curSalt :: "u8 list"
  sc_prevSalt :: "u8 list"

definition newSaltedCache :: "int \<Rightarrow> ixSaltedCache" where
  "newSaltedCache sz = \<lparr>dc_cur = {}, dc_prev = {}, dc_maxSize = sz,
     sc_curSalt = replicate 4 0, sc_prevSalt = replicate 4 0\<rparr>"

text \<open>\<^verbatim>\<open>binary.LittleEndian.PutUint32\<close> of a random number.\<close>

definition LittleEndian_PutUint32 :: "u32 \<Rightarrow> u8 list" where
  "LittleEndian_PutUint32 v = map (\<lambda>i. ucast (drop_bit (8 * i) v)) [0..<4]"

definition moreSalt :: "u64 \<Rightarrow> ixSaltedCache \<Rightarrow> ixSaltedCache" where
  "moreSalt rnd c = c\<lparr>sc_curSalt := LittleEndian_PutUint32 (ucast (rnd mod 4294967295))\<rparr>"

definition innerSwap :: "u64 \<Rightarrow> ixSaltedCache \<Rightarrow> ixSaltedCache" where
  "innerSwap rnd c = moreSalt rnd (c\<lparr>sc_prevSalt := sc_curSalt c, dc_prev := dc_cur c, dc_cur := {}\<rparr>)"

definition Remix :: "u64 \<Rightarrow> ixSaltedCache \<Rightarrow> ixSaltedCache" where
  "Remix rnd c = innerSwap rnd c"

definition innerCheck :: "(u8 list \<Rightarrow> Hash) \<Rightarrow> u8 list \<Rightarrow> ixSaltedCache \<Rightarrow> Hash option \<times> bool" where
  "innerCheck Sum256 msg c =
     (let d = Sum256 (msg @ sc_curSalt c)
      in if d \<in> dc_cur c then (None, True)
         else if Sum256 (msg @ sc_prevSalt c) \<in> dc_prev c then (None, True)
         else (Some d, False))"

text \<open>\<^verbatim>\<open>CheckAndPut\<close>. The section under the read lock returns the digest, whether the message was
  found, and the salt; when the message was not found the section under the write lock follows.\<close>

definition CheckAndPut_read :: "(u8 list \<Rightarrow> Hash) \<Rightarrow> u8 list \<Rightarrow> ixSaltedCache \<Rightarrow> (Hash option \<times> bool) \<times> u8 list" where
  "CheckAndPut_read Sum256 msg c = (innerCheck Sum256 msg c, sc_curSalt c)"

definition CheckAndPut_insert ::
  "(u8 list \<Rightarrow> Hash) \<Rightarrow> u64 \<Rightarrow> u8 list \<Rightarrow> Hash \<Rightarrow> ixSaltedCache \<Rightarrow> Hash \<times> ixSaltedCache" where
  "CheckAndPut_insert Sum256 rnd msg d c =
     (if int (card (dc_cur c)) \<ge> dc_maxSize c then
        (let c1 = innerSwap rnd c; dn = Sum256 (msg @ sc_curSalt c1)
         in (dn, c1\<lparr>dc_cur := insert dn (dc_cur c1)\<rparr>))
      else (d, c\<lparr>dc_cur := insert d (dc_cur c)\<rparr>))"

definition CheckAndPut_write ::
  "(u8 list \<Rightarrow> Hash) \<Rightarrow> u64 \<Rightarrow> u8 list \<Rightarrow> Hash \<Rightarrow> u8 list \<Rightarrow> ixSaltedCache
    \<Rightarrow> (Hash option \<times> bool) \<times> ixSaltedCache" where
  "CheckAndPut_write Sum256 rnd msg d salt c =
     (if salt \<noteq> sc_curSalt c then
        (case innerCheck Sum256 msg c of
           (Some d', False) \<Rightarrow>
             (let (d2, c2) = CheckAndPut_insert Sum256 rnd msg d' c in ((Some d2, False), c2))
         | (d', found) \<Rightarrow> ((d', found), c))
      else if d \<in> dc_cur c then ((Some d, True), c)
      else (let (d2, c2) = CheckAndPut_insert Sum256 rnd msg d c in ((Some d2, False), c2)))"

text \<open>The call when no other operation runs between the two sections.\<close>

definition CheckAndPut ::
  "(u8 list \<Rightarrow> Hash) \<Rightarrow> u64 \<Rightarrow> u8 list \<Rightarrow> ixSaltedCache \<Rightarrow> (Hash option \<times> bool) \<times> ixSaltedCache" where
  "CheckAndPut Sum256 rnd msg c =
     (case CheckAndPut_read Sum256 msg c of
        ((Some d, False), salt) \<Rightarrow> CheckAndPut_write Sum256 rnd msg d salt c
      | (r, salt) \<Rightarrow> (r, c))"

section \<open>Runs\<close>

text \<open>The steps of the salted cache under any interleaving: the refresh by the timer, and the write
  sections of calls whose read section ran in any earlier state with the salt \<open>salt\<close>. The last
  argument counts the rotations.\<close>

inductive cache_run :: "(u8 list \<Rightarrow> Hash) \<Rightarrow> ixSaltedCache \<Rightarrow> nat \<Rightarrow> ixSaltedCache \<Rightarrow> bool" for Sum256 where
  start: "cache_run Sum256 c 0 c"
| remix: "cache_run Sum256 c n c' \<Longrightarrow> cache_run Sum256 c (Suc n) (Remix rnd c')"
| put: "cache_run Sum256 c n c' \<Longrightarrow>
    CheckAndPut_write Sum256 rnd msg (Sum256 (msg @ salt)) salt c' = (r, c'') \<Longrightarrow>
    cache_run Sum256 c (if int (card (dc_cur c')) \<ge> dc_maxSize c' \<and> \<not> snd r then Suc n else n) c''"

lemma innerSwap_sel [simp]:
  "dc_cur (innerSwap rnd c) = {}" "dc_prev (innerSwap rnd c) = dc_cur c"
  "dc_maxSize (innerSwap rnd c) = dc_maxSize c" "sc_prevSalt (innerSwap rnd c) = sc_curSalt c"
  by (simp_all add: innerSwap_def moreSalt_def)

text \<open>A write section either finds the message or inserts its digest under the current salt, after a
  rotation when the page is full.\<close>

lemma CheckAndPut_write_cases:
  assumes "CheckAndPut_write Sum256 rnd msg (Sum256 (msg @ salt)) salt c = (r, c')"
  obtains (found) "snd r" and "c' = c" and "Sum256 (msg @ sc_curSalt c) \<in> dc_cur c \<or> Sum256 (msg @ sc_prevSalt c) \<in> dc_prev c"
  | (room) "\<not> snd r" and "int (card (dc_cur c)) < dc_maxSize c"
      and "c' = c\<lparr>dc_cur := insert (Sum256 (msg @ sc_curSalt c)) (dc_cur c)\<rparr>"
  | (full) "\<not> snd r" and "int (card (dc_cur c)) \<ge> dc_maxSize c"
      and "c' = (innerSwap rnd c)\<lparr>dc_cur := {Sum256 (msg @ sc_curSalt (innerSwap rnd c))}\<rparr>"
proof (cases "Sum256 (msg @ sc_curSalt c) \<in> dc_cur c \<or> salt \<noteq> sc_curSalt c \<and> Sum256 (msg @ sc_prevSalt c) \<in> dc_prev c")
  case True
  then have "snd r" "c' = c"
    using assms by (auto simp: CheckAndPut_write_def innerCheck_def Let_def split: if_splits)
  with True show ?thesis using found by blast
next
  case False
  let ?i = "CheckAndPut_insert Sum256 rnd msg (Sum256 (msg @ sc_curSalt c)) c"
  have "CheckAndPut_write Sum256 rnd msg (Sum256 (msg @ salt)) salt c = ((Some (fst ?i), False), snd ?i)"
    using False by (auto simp: CheckAndPut_write_def innerCheck_def Let_def case_prod_unfold)
  then have "\<not> snd r" "c' = snd ?i" using assms by auto
  then show ?thesis
    using room full by (cases "int (card (dc_cur c)) < dc_maxSize c") (simp_all add: CheckAndPut_insert_def Let_def)
qed

definition remembered :: "(u8 list \<Rightarrow> Hash) \<Rightarrow> u8 list \<Rightarrow> nat \<Rightarrow> ixSaltedCache \<Rightarrow> bool" where
  "remembered Sum256 msg n c \<longleftrightarrow>
     (n = 0 \<longrightarrow> Sum256 (msg @ sc_curSalt c) \<in> dc_cur c)
     \<and> (n = 1 \<longrightarrow> Sum256 (msg @ sc_curSalt c) \<in> dc_cur c \<or> Sum256 (msg @ sc_prevSalt c) \<in> dc_prev c)"

lemma cache_run_remembered:
  assumes "cache_run Sum256 c n c'" and "Sum256 (msg @ sc_curSalt c) \<in> dc_cur c"
  shows "remembered Sum256 msg n c'"
  using assms
proof (induction rule: cache_run.induct)
  case (start c)
  then show ?case by (simp add: remembered_def)
next
  case (remix c n c' rnd)
  then show ?case by (auto simp: remembered_def Remix_def)
next
  case (put c n c' rnd m salt r c'')
  from put.hyps(2) show ?case
  proof (cases rule: CheckAndPut_write_cases)
    case found
    with put show ?thesis by (simp add: remembered_def)
  next
    case room
    with put show ?thesis by (auto simp: remembered_def)
  next
    case full
    with put show ?thesis by (auto simp: remembered_def)
  qed
qed

section \<open>Properties\<close>



text \<open>A cache of a positive size holds at most twice that many digests, at most its size in
  each page, in every state it reaches.\<close>

theorem dup_cache_bounded:
  assumes "cache_run Sum256 (newSaltedCache sz) n c" and "0 < sz"
  shows "finite (dc_cur c) \<and> finite (dc_prev c) \<and> int (card (dc_cur c)) \<le> sz \<and> int (card (dc_prev c)) \<le> sz
    \<and> dc_maxSize c = sz"
  using assms
proof (induction "newSaltedCache sz" n c rule: cache_run.induct)
  case start
  then show ?case by (simp add: newSaltedCache_def)
next
  case (remix n c' rnd)
  then show ?case by (simp add: Remix_def)
next
  case (put n c' rnd m salt r c'')
  from put(3) show ?case
  proof (cases rule: CheckAndPut_write_cases)
    case found
    with put show ?thesis by simp
  next
    case room
    with put show ?thesis by (auto simp: card_insert_if)
  next
    case full
    with put show ?thesis by simp
  qed
qed

theorem dup_cache_bounded_witness:
  "int (card (dc_cur (Remix 5 (newSaltedCache 3)))) \<le> 3"
proof -
  have "cache_run (\<lambda>b. b) (newSaltedCache 3) (Suc 0) (Remix 5 (newSaltedCache 3))"
    by (intro cache_run.remix cache_run.start)
  from dup_cache_bounded [OF this] show ?thesis by simp
qed

end
