(* ===== verification/Ix_Validation.thy ===== *)
theory Ix_Validation
  imports Interactions
begin

text \<open>
  The validation of an interaction by the interaction pool: \<^verbatim>\<open>validateIx\<close> of src/ixpool/ixpool.go and
  the checks it calls. The interfaces the pool is built with are a record of functions: the state
  manager, the signature verifier, the serialisation of the signed data, the cache of consensus
  nodes hashes and the clock.
\<close>

section \<open>The interfaces of the pool\<close>

record AccountMetaInfo =
  ami_InheritedAccount :: Identifier
  ami_ConsensusNodesHash :: Hash
  ami_PositionInContextSet :: int

record AccountKey =
  ak_Weight :: u64
  ak_Revoked :: bool

text \<open>A getter that fails returns \<^const>\<open>None\<close>; \<^verbatim>\<open>GetSequenceID\<close> returns its value and whether it
  failed, as the code also reads the value of a failed call, and \<^verbatim>\<open>GetBalance\<close> returns a pointer.\<close>

record PoolEnv =
  sm_GetPublicKey :: "Identifier \<Rightarrow> u64 \<Rightarrow> u8 list option"
  sm_GetSequenceID :: "Identifier \<Rightarrow> u64 \<Rightarrow> u64 \<times> bool"
  sm_IsAccountRegistered :: "Identifier \<Rightarrow> bool"
  sm_IsLogicRegistered :: "Identifier \<Rightarrow> bool"
  sm_GetBalance :: "Identifier \<Rightarrow> Identifier \<Rightarrow> u64 \<Rightarrow> int option"
  sm_GetAccountMetaInfo :: "Identifier \<Rightarrow> AccountMetaInfo option"
  sm_GetAccountKeys :: "Identifier \<Rightarrow> AccountKey list option"
  env_verifier :: "u8 list \<Rightarrow> u8 list \<Rightarrow> u8 list \<Rightarrow> bool"
  env_Polorize :: "IxData \<Rightarrow> u8 list option"
  env_GetHash :: "u8 list \<Rightarrow> Hash"
  env_krama_ok :: "KramaID \<Rightarrow> bool"
  env_lru_Add :: "Identifier \<Rightarrow> Hash \<Rightarrow> (Identifier \<rightharpoonup> Hash) \<Rightarrow> (Identifier \<rightharpoonup> Hash)"
  env_now :: int

datatype pool_error =
    ErrOversizedData | PoolErrInvalidIdentifier | ErrUnderpriced | ErrSequenceIDTooLow | ErrInsufficientFunds
  | ErrInvalidSenderSignature | ErrInvalidIXSignature | ErrInvalidKeyID | PoolErrInvalidWeight | ErrStateManager
  | ErrAccountNotFound | ErrLogicNotRegistered | ErrRejectFutureIx | ErrAlreadyKnown | ErrReplacementUnderpriced
  | ErrIXPoolOverFlow | ErrOperation ix_error

section \<open>Signatures\<close>

fun signature_weight ::
  "PoolEnv \<Rightarrow> Identifier \<Rightarrow> u8 list \<Rightarrow> AccountKey list \<Rightarrow> Signature list \<Rightarrow> u64 \<Rightarrow> pool_error + u64" where
  "signature_weight env ident rawPayload accountKeys [] weight = Inr weight"
| "signature_weight env ident rawPayload accountKeys (sig # sigs) weight =
     (if sig_ID sig \<noteq> ident then signature_weight env ident rawPayload accountKeys sigs weight
      else if sig_KeyID sig \<ge> of_nat (length accountKeys) then Inl ErrInvalidKeyID
      else (case sm_GetPublicKey env ident (sig_KeyID sig) of
              None \<Rightarrow> Inl ErrStateManager
            | Some pk \<Rightarrow>
                if \<not> env_verifier env rawPayload (sig_Signature sig) pk then Inl ErrInvalidIXSignature
                else
                  (let key = accountKeys ! unat (sig_KeyID sig)
                   in signature_weight env ident rawPayload accountKeys sigs
                        (if \<not> ak_Revoked key then weight + ak_Weight key else weight))))"

definition verifyParticipantSignatures ::
  "PoolEnv \<Rightarrow> Identifier \<Rightarrow> u8 list \<Rightarrow> Signature list \<Rightarrow> pool_error option" where
  "verifyParticipantSignatures env ident rawPayload signatures =
     (case sm_GetAccountKeys env ident of
        None \<Rightarrow> Some ErrStateManager
      | Some accountKeys \<Rightarrow>
          (case signature_weight env ident rawPayload accountKeys signatures 0 of
             Inl err \<Rightarrow> Some err
           | Inr weight \<Rightarrow> if weight < MinWeight then Some PoolErrInvalidWeight else None))"

definition hasSenderKeyIDSignature :: "Interaction \<Rightarrow> bool" where
  "hasSenderKeyIDSignature ix \<longleftrightarrow>
     list_ex (\<lambda>sig. sig_ID sig = ix_SenderID ix \<and> sig_KeyID sig = ix_SenderKeyID ix) (ix_signatures ix)"

fun verify_notaries :: "PoolEnv \<Rightarrow> u8 list \<Rightarrow> Signature list \<Rightarrow> IxParticipant list \<Rightarrow> pool_error option" where
  "verify_notaries env rawPayload signatures [] = None"
| "verify_notaries env rawPayload signatures (ps # rest) =
     (if ip_Notary ps then
        (case verifyParticipantSignatures env (ip_ID ps) rawPayload signatures of
           Some err \<Rightarrow> Some err
         | None \<Rightarrow> verify_notaries env rawPayload signatures rest)
      else verify_notaries env rawPayload signatures rest)"

definition verifySignatures :: "PoolEnv \<Rightarrow> Interaction \<Rightarrow> pool_error option" where
  "verifySignatures env ix =
     (case env_Polorize env (ix_inner ix) of
        None \<Rightarrow> Some ErrStateManager
      | Some rawPayload \<Rightarrow>
          if \<not> hasSenderKeyIDSignature ix then Some ErrInvalidSenderSignature
          else (case verifyParticipantSignatures env (ix_SenderID ix) rawPayload (ix_signatures ix) of
                  Some err \<Rightarrow> Some err
                | None \<Rightarrow> verify_notaries env rawPayload (ix_signatures ix) (ixd_Participants (ix_inner ix))))"

section \<open>Operations\<close>

text \<open>The result is an option: a payload pointer that is nil panics in its \<^verbatim>\<open>Validate\<close>.\<close>

definition op_result :: "ix_error option \<Rightarrow> pool_error option" where
  "op_result e = map_option ErrOperation e"

definition validateParticipantCreate :: "PoolEnv \<Rightarrow> Interaction \<Rightarrow> IxOp \<Rightarrow> pool_error option option" where
  "validateParticipantCreate env ix op =
     (case GetParticipantCreatePayload op of
        Inl err \<Rightarrow> Some (Some (ErrOperation err))
      | Inr None \<Rightarrow> None
      | Inr (Some payload) \<Rightarrow> Some (op_result (ParticipantCreate_Validate (env_GetHash env) payload (ix_SenderID ix))))"

definition validateAccountConfigure :: "IxOp \<Rightarrow> pool_error option" where
  "validateAccountConfigure op =
     (case GetAccountConfigurePayload op of
        Inl err \<Rightarrow> Some (ErrOperation err) | Inr payload \<Rightarrow> op_result (AccountConfigure_Validate payload))"

definition validateAccountInherit :: "PoolEnv \<Rightarrow> Interaction \<Rightarrow> IxOp \<Rightarrow> pool_error option" where
  "validateAccountInherit env ix op =
     (case GetAccountInheritPayload op of
        Inl err \<Rightarrow> Some (ErrOperation err)
      | Inr payload \<Rightarrow> op_result (AccountInherit_Validate (env_GetHash env) payload (ix_SenderID ix)))"

definition validateAssetAction :: "IxOp \<Rightarrow> pool_error option" where
  "validateAssetAction op =
     (case GetAssetActionPayload op of
        Inl err \<Rightarrow> Some (ErrOperation err) | Inr payload \<Rightarrow> op_result (AssetAction_Validate payload))"

definition validateAssetCreate :: "IxOp \<Rightarrow> pool_error option" where
  "validateAssetCreate op =
     (case GetAssetCreatePayload op of
        Inl err \<Rightarrow> Some (ErrOperation err) | Inr payload \<Rightarrow> op_result (AssetCreate_Validate payload))"

definition validateGuardianRegister :: "PoolEnv \<Rightarrow> IxOp \<Rightarrow> pool_error option" where
  "validateGuardianRegister env op =
     (case GetGuardianRegisterPayload op of
        Inl err \<Rightarrow> Some (ErrOperation err)
      | Inr payload \<Rightarrow> op_result (GuardianRegister_Validate (env_krama_ok env) payload))"

definition validateGuardianAction :: "PoolEnv \<Rightarrow> IxOp \<Rightarrow> pool_error option" where
  "validateGuardianAction env op =
     (case GetGuardianActionPayload op of
        Inl err \<Rightarrow> Some (ErrOperation err)
      | Inr payload \<Rightarrow> op_result (GuardianAction_Validate (env_krama_ok env) payload))"

definition validateLogicDeployPayload :: "IxOp \<Rightarrow> pool_error option" where
  "validateLogicDeployPayload op =
     (case GetLogicPayload op of
        Inl err \<Rightarrow> Some (ErrOperation err) | Inr payload \<Rightarrow> op_result (ValidateLogicDeploy payload))"

definition validateLogicInteractPayload :: "PoolEnv \<Rightarrow> IxOp \<Rightarrow> pool_error option" where
  "validateLogicInteractPayload env op =
     (case GetLogicPayload op of
        Inl err \<Rightarrow> Some (ErrOperation err)
      | Inr payload \<Rightarrow>
          (case ValidateLogicInteract payload of
             Some err \<Rightarrow> Some (ErrOperation err)
           | None \<Rightarrow> if \<not> sm_IsLogicRegistered env (lp_LogicID payload) then Some ErrLogicNotRegistered else None))"

text \<open>Every case of the switch returns: the loop ends with the first operation.\<close>

definition validateOperation :: "PoolEnv \<Rightarrow> Interaction \<Rightarrow> IxOp \<Rightarrow> pool_error option option" where
  "validateOperation env ix op =
     (let t = op_OpType op
      in if t = IxParticipantCreate then validateParticipantCreate env ix op
         else if t = IxAccountConfigure then Some (validateAccountConfigure op)
         else if t = IxAccountInherit then Some (validateAccountInherit env ix op)
         else if t = IxAssetAction then Some (validateAssetAction op)
         else if t = IxAssetCreate then Some (validateAssetCreate op)
         else if t = IxGuardianRegister then Some (validateGuardianRegister env op)
         else if t \<in> {IxGuardianStake, IxGuardianUnstake, IxGuardianWithdraw, IxGuardianClaim}
         then Some (validateGuardianAction env op)
         else if t = IxLogicDeploy then Some (validateLogicDeployPayload op)
         else if t = IxLogicInvoke then Some (validateLogicInteractPayload env op)
         else if t = IxLogicEnlist then Some (validateLogicInteractPayload env op)
         else Some (Some (ErrOperation ErrInvalidInteractionType)))"

definition validateOperations :: "PoolEnv \<Rightarrow> Interaction \<Rightarrow> pool_error option option" where
  "validateOperations env ix = (case ix_ops ix of [] \<Rightarrow> Some None | op # ops \<Rightarrow> validateOperation env ix op)"

section \<open>Validation\<close>

fun check_participants :: "PoolEnv \<Rightarrow> ParticipantMap \<Rightarrow> pool_error option" where
  "check_participants env [] = None"
| "check_participants env ((ident, ps) # rest) =
     (if info_IsGenesis ps then check_participants env rest
      else if id_IsNil (info_ID ps) then Some PoolErrInvalidIdentifier
      else if \<not> sm_IsAccountRegistered env (info_ID ps) then Some ErrAccountNotFound
      else check_participants env rest)"

definition checkForParticipants :: "PoolEnv \<Rightarrow> Interaction \<Rightarrow> pool_error option" where
  "checkForParticipants env ix = check_participants env (ix_ps ix)"

abbreviation (input) DefaultTokenID :: u64 where "DefaultTokenID \<equiv> 0"
abbreviation (input) IxMaxSize :: u64 where "IxMaxSize \<equiv> 131072"

definition validateIx :: "PoolEnv \<Rightarrow> int \<Rightarrow> Interaction \<Rightarrow> pool_error option option" where
  "validateIx env priceLimit ix =
     (if ix_size ix > IxMaxSize then Some (Some ErrOversizedData)
      else if id_IsNil (ix_SenderID ix) then Some (Some PoolErrInvalidIdentifier)
      else if IsUnderpriced ix priceLimit then Some (Some ErrUnderpriced)
      else if fst (sm_GetSequenceID env (ix_SenderID ix) (ix_SenderKeyID ix)) > ix_SequenceID ix
      then Some (Some ErrSequenceIDTooLow)
      else do {
        moiBal \<leftarrow> sm_GetBalance env (ix_SenderID ix) (KMOITokenAssetID (env_GetHash env)) DefaultTokenID;
        if moiBal < ix_Cost ix then Some (Some ErrInsufficientFunds)
        else (case verifySignatures env ix of
                Some err \<Rightarrow> Some (Some err)
              | None \<Rightarrow>
                  (case checkForParticipants env ix of
                     Some err \<Rightarrow> Some (Some err)
                   | None \<Rightarrow> validateOperations env ix))
      })"

section \<open>What validation guarantees\<close>

text \<open>The weight that the signatures of an account add up to: every signature of the account names a
  key of the account and is verified with it.\<close>

definition weight_of :: "AccountKey list \<Rightarrow> Signature \<Rightarrow> u64" where
  "weight_of keys sig = (let key = keys ! unat (sig_KeyID sig) in if ak_Revoked key then 0 else ak_Weight key)"

definition signature_ok :: "PoolEnv \<Rightarrow> Identifier \<Rightarrow> u8 list \<Rightarrow> AccountKey list \<Rightarrow> Signature \<Rightarrow> bool" where
  "signature_ok env ident raw keys sig \<longleftrightarrow> sig_KeyID sig < of_nat (length keys)
     \<and> (\<exists>pk. sm_GetPublicKey env ident (sig_KeyID sig) = Some pk \<and> env_verifier env raw (sig_Signature sig) pk)"

lemma signature_weight_Inr:
  "signature_weight env ident raw keys sigs w = Inr w' \<longleftrightarrow>
     (\<forall>sig \<in> set (filter (\<lambda>s. sig_ID s = ident) sigs). signature_ok env ident raw keys sig)
     \<and> w' = w + (\<Sum>sig \<leftarrow> filter (\<lambda>s. sig_ID s = ident) sigs. weight_of keys sig)"
proof (induction sigs arbitrary: w)
  case Nil
  then show ?case by auto
next
  case (Cons sig sigs)
  show ?case
  proof (cases "sig_ID sig = ident \<and> signature_ok env ident raw keys sig")
    case True
    then obtain pk where "\<not> sig_KeyID sig \<ge> of_nat (length keys)" "sm_GetPublicKey env ident (sig_KeyID sig) = Some pk"
        "env_verifier env raw (sig_Signature sig) pk"
      by (auto simp: signature_ok_def not_le)
    then show ?thesis using True Cons.IH by (auto simp: weight_of_def Let_def add_ac)
  next
    case False
    then show ?thesis using Cons.IH by (auto simp: signature_ok_def not_le split: option.splits)
  qed
qed

definition signed_by :: "PoolEnv \<Rightarrow> Interaction \<Rightarrow> u8 list \<Rightarrow> Identifier \<Rightarrow> bool" where
  "signed_by env ix raw ident \<longleftrightarrow>
     (\<exists>keys. sm_GetAccountKeys env ident = Some keys
       \<and> (\<forall>sig \<in> set (ix_signatures ix). sig_ID sig = ident \<longrightarrow> signature_ok env ident raw keys sig)
       \<and> MinWeight \<le> (\<Sum>sig \<leftarrow> filter (\<lambda>s. sig_ID s = ident) (ix_signatures ix). weight_of keys sig))"

lemma verifyParticipantSignatures_None:
  "verifyParticipantSignatures env ident raw (ix_signatures ix) = None \<longleftrightarrow> signed_by env ix raw ident"
proof (cases "sm_GetAccountKeys env ident")
  case None
  then show ?thesis by (simp add: verifyParticipantSignatures_def signed_by_def)
next
  case (Some keys)
  have "verifyParticipantSignatures env ident raw (ix_signatures ix) = None
      \<longleftrightarrow> (\<exists>w. signature_weight env ident raw keys (ix_signatures ix) 0 = Inr w \<and> MinWeight \<le> w)"
    using Some by (auto simp: verifyParticipantSignatures_def not_less split: sum.splits)
  then show ?thesis unfolding signature_weight_Inr using Some by (auto simp: signed_by_def)
qed

text \<open>A check that runs after another one that can fail.\<close>

lemma case_error_None [simp]:
  "(case x of None \<Rightarrow> y | Some err \<Rightarrow> Some err) = None \<longleftrightarrow> x = None \<and> y = None"
  by (cases x) simp_all

lemma verify_notaries_None:
  "verify_notaries env raw (ix_signatures ix) l = None \<longleftrightarrow> (\<forall>ps \<in> set l. ip_Notary ps \<longrightarrow> signed_by env ix raw (ip_ID ps))"
  by (induction l) (simp_all add: verifyParticipantSignatures_None)

lemma check_participants_None:
  "check_participants env ps = None \<longleftrightarrow>
     (\<forall>(i, info) \<in> set ps. info_IsGenesis info \<or> \<not> id_IsNil (info_ID info) \<and> sm_IsAccountRegistered env (info_ID info))"
  by (induction env ps rule: check_participants.induct) auto

section \<open>Properties\<close>


definition example_env :: "u64 \<Rightarrow> PoolEnv" where
  "example_env w = \<lparr>sm_GetPublicKey = (\<lambda>_ _. Some []), sm_GetSequenceID = (\<lambda>_ _. (0, False)),
     sm_IsAccountRegistered = (\<lambda>_. True), sm_IsLogicRegistered = (\<lambda>_. True), sm_GetBalance = (\<lambda>_ _ _. Some 100),
     sm_GetAccountMetaInfo = (\<lambda>_. Some \<lparr>ami_InheritedAccount = [], ami_ConsensusNodesHash = [1], ami_PositionInContextSet = 2\<rparr>),
     sm_GetAccountKeys = (\<lambda>_. Some [\<lparr>ak_Weight = w, ak_Revoked = False\<rparr>]),
     env_verifier = (\<lambda>_ _ _. True), env_Polorize = (\<lambda>_. Some []), env_GetHash = (\<lambda>_. replicate 32 0),
     env_krama_ok = (\<lambda>_. True), env_lru_Add = (\<lambda>k v c. c(k \<mapsto> v)), env_now = 0\<rparr>"

definition example_signed :: "nat \<Rightarrow> Interaction" where
  "example_signed n = (example_ix [example_info (0 # replicate 31 1)])
     \<lparr>ix_signatures := replicate n \<lparr>sig_ID = 0 # replicate 31 1, sig_KeyID = 0, sig_Signature = []\<rparr>\<rparr>"


section \<open>Findings\<close>

text \<open>One key of half the minimal weight signs twice with the same signature and reaches the
  minimal weight.\<close>

theorem duplicate_signature_counts_twice:
  "validateIx (example_env 500) 1 (example_signed 1) = Some (Some PoolErrInvalidWeight)
    \<and> validateIx (example_env 500) 1 (example_signed 2) = Some None"
  by code_simp

text \<open>An operation of an unknown type is not noticed when it is not the first one.\<close>

definition example_configure :: IxOp where
  "example_configure = new_op [] IxAccountConfigure (participant_payload
     \<lparr>pp_Create = None, pp_Configure = Some \<lparr>cf_Add = [], cf_Revoke = [0]\<rparr>, pp_Inherit = None\<rparr>)"

theorem later_operations_unchecked:
  "validateOperation (example_env 1000) (example_ix []) (new_op [] 99 no_payload)
      = Some (Some (ErrOperation ErrInvalidInteractionType))
    \<and> validateOperations (example_env 1000) ((example_ix [])\<lparr>ix_ops := [example_configure, new_op [] 99 no_payload]\<rparr>) = Some None"
  by code_simp

end
