(* ===== verification/Ix_Pool.thy ===== *)
theory Ix_Pool
  imports Ix_Queues Ix_Validation
begin

text \<open>
  The interaction pool: the operations of src/ixpool/ixpool.go and query.go that change or read its
  state. Mutexes make each operation one step. The proposal flag and the allotted view of an
  interaction object are a table of the pool, keyed by the hash of the interaction; a new object
  starts with neither. The cache of consensus nodes hashes is a map whose insertion function is part
  of the environment. Events, metrics, logging and the broadcast are not modelled.
\<close>

section \<open>State\<close>

record IxPool =
  pool_allIxs :: lookupMap
  pool_accounts :: accountsManager
  pool_gauge :: slotGauge
  pool_view :: u64
  pool_consensusNodesHash :: "Identifier \<rightharpoonup> Hash"
  pool_allotted :: "Hash \<rightharpoonup> bool \<times> u64"

definition NewIxPool :: "u64 \<Rightarrow> IxPool" where
  "NewIxPool maxSlots = \<lparr>pool_allIxs = Map.empty, pool_accounts = newAccountsMap,
     pool_gauge = \<lparr>gauge_total = 0, gauge_max = maxSlots\<rparr>, pool_view = 0,
     pool_consensusNodesHash = Map.empty, pool_allotted = Map.empty\<rparr>"

definition ShouldPropose :: "IxPool \<Rightarrow> Interaction \<Rightarrow> bool" where
  "ShouldPropose p ix = fst (map_default (False, 0) (pool_allotted p) (ix_hash ix))"

definition AllottedView :: "IxPool \<Rightarrow> Interaction \<Rightarrow> u64" where
  "AllottedView p ix = snd (map_default (False, 0) (pool_allotted p) (ix_hash ix))"

text \<open>Writing through the pointer to an account and to the account queue of a key.\<close>

definition put_account :: "Identifier \<Rightarrow> account \<Rightarrow> IxPool \<Rightarrow> IxPool" where
  "put_account ident a p =
     p\<lparr>pool_accounts := (pool_accounts p)\<lparr>am_accounts := ps_put ident a (am_accounts (pool_accounts p))\<rparr>\<rparr>"

definition acc_put_queue :: "accountQueue \<Rightarrow> account \<Rightarrow> account" where
  "acc_put_queue q a = a\<lparr>acc_accountQueues := map (\<lambda>q'. if aq_keyID q' = aq_keyID q then q else q') (acc_accountQueues a)\<rparr>"

definition put_queue :: "Identifier \<Rightarrow> accountQueue \<Rightarrow> IxPool \<Rightarrow> IxPool" where
  "put_queue ident q p =
     (case getAccount (pool_accounts p) ident of None \<Rightarrow> p | Some a \<Rightarrow> put_account ident (acc_put_queue q a) p)"

section \<open>Consensus nodes hashes\<close>

definition getPrimaryAccountConsensusNodesHash :: "PoolEnv \<Rightarrow> Identifier \<Rightarrow> IxPool \<Rightarrow> Hash option \<times> IxPool" where
  "getPrimaryAccountConsensusNodesHash env ident p =
     (case pool_consensusNodesHash p ident of
        Some h \<Rightarrow> (Some h, p)
      | None \<Rightarrow>
          (case sm_GetAccountMetaInfo env ident of
             None \<Rightarrow> (None, p)
           | Some info \<Rightarrow> (Some (ami_ConsensusNodesHash info),
               p\<lparr>pool_consensusNodesHash := env_lru_Add env ident (ami_ConsensusNodesHash info) (pool_consensusNodesHash p)\<rparr>)))"

definition getConsensusNodesHash :: "PoolEnv \<Rightarrow> Identifier \<Rightarrow> IxPool \<Rightarrow> Hash option \<times> IxPool" where
  "getConsensusNodesHash env ident p =
     (if IsParticipantVariant ident then
        (case sm_GetAccountMetaInfo env ident of
           None \<Rightarrow> (None, p)
         | Some info \<Rightarrow> getPrimaryAccountConsensusNodesHash env (ami_InheritedAccount info) p)
      else getPrimaryAccountConsensusNodesHash env ident p)"

definition loadConsensusNodesHash :: "PoolEnv \<Rightarrow> Interaction \<Rightarrow> IxPool \<Rightarrow> IxPool" where
  "loadConsensusNodesHash env ix p = fold (\<lambda>(ident, ps) p.
     if \<not> IsParticipantVariant ident \<and> \<not> info_IsGenesis ps
     then snd (getPrimaryAccountConsensusNodesHash env ident p) else p) (ix_ps ix) p"

section \<open>Views\<close>

definition UpdateCurrentView :: "u64 \<Rightarrow> IxPool \<Rightarrow> IxPool" where
  "UpdateCurrentView view p = p\<lparr>pool_view := view\<rparr>"

abbreviation (input) ConsensusNodesSize :: u64 where "ConsensusNodesSize \<equiv> 5"
abbreviation (input) NodeNotFound :: int where "NodeNotFound \<equiv> -1"

definition getNextView :: "u64 \<Rightarrow> u64 \<Rightarrow> u64" where
  "getNextView view nodePos =
     (let diffFromStart = view mod ConsensusNodesSize; start = view - diffFromStart
      in if nodePos \<ge> diffFromStart then start + nodePos else start + ConsensusNodesSize + nodePos)"

text \<open>The meta information of the leader candidate, or of the account it inherits from; \<^const>\<open>None\<close>
  is the path that logs the error and goes on.\<close>

definition leader_position :: "PoolEnv \<Rightarrow> Identifier \<Rightarrow> int option" where
  "leader_position env leader = do {
     info \<leftarrow> sm_GetAccountMetaInfo env leader;
     info' \<leftarrow> (if IsParticipantVariant leader then sm_GetAccountMetaInfo env (ami_InheritedAccount info) else Some info);
     Some (ami_PositionInContextSet info')
   }"

definition allocate_one :: "PoolEnv \<Rightarrow> u64 \<Rightarrow> Interaction \<Rightarrow> IxPool \<Rightarrow> IxPool option" where
  "allocate_one env view ixn p = do {
     leader \<leftarrow> LeaderCandidateAcc ixn;
     (case leader_position env leader of
        None \<Rightarrow> Some p
      | Some pos \<Rightarrow>
          if pos = NodeNotFound then Some p
          else Some (p\<lparr>pool_allotted := (pool_allotted p)(ix_hash ixn \<mapsto> (True, getNextView view (of_int pos)))\<rparr>))
   }"

definition allocateView :: "PoolEnv \<Rightarrow> u64 \<Rightarrow> Interaction list \<Rightarrow> IxPool \<Rightarrow> IxPool option" where
  "allocateView env view = foldM (allocate_one env view)"

section \<open>Adding interactions\<close>

definition new_queue :: "u64 \<Rightarrow> u64 \<Rightarrow> accountQueue" where
  "new_queue keyID sequenceID = \<lparr>aq_keyID = keyID, aq_enqueued = [], aq_promoted = [],
     aq_sequenceIDToIX = Map.empty, aq_nextSequenceID = sequenceID\<rparr>"

definition getOrCreateAccountQueue :: "PoolEnv \<Rightarrow> Identifier \<Rightarrow> u64 \<Rightarrow> u64 \<Rightarrow> IxPool \<Rightarrow> IxPool" where
  "getOrCreateAccountQueue env sender keyID sequenceID p =
     (if getAccountQueue (pool_accounts p) sender keyID \<noteq> None then p
      else
        (let accQueue = new_queue keyID (case sm_GetSequenceID env sender keyID of (n, failed) \<Rightarrow> if failed then sequenceID else n)
         in case getAccount (pool_accounts p) sender of
              None \<Rightarrow> put_account sender \<lparr>acc_accountQueues = [accQueue], acc_requestTime = env_now env,
                         acc_waitTime = env_now env, acc_delayCounter = 0\<rparr> p
            | Some acc \<Rightarrow>
                put_account sender (sortAccountQueues (acc\<lparr>acc_accountQueues := acc_accountQueues acc @ [accQueue]\<rparr>)) p))"

definition handlePromoteRequest :: "PoolEnv \<Rightarrow> Identifier \<Rightarrow> accountQueue \<Rightarrow> IxPool \<Rightarrow> IxPool option" where
  "handlePromoteRequest env sender q p =
     (let ((promoted, promotedIxns), q') = aq_promote q;
          p1 = put_queue sender q' p;
          p2 = p1\<lparr>pool_accounts := fold (\<lambda>ix. addToSortedAccounts (ix_SenderID ix)) promotedIxns (pool_accounts p1)\<rparr>
      in if length promotedIxns > 0 then allocateView env (pool_view p2 + 1) promotedIxns p2 else Some p2)"

text \<open>The checks against the account queue and the interaction with the same sequence identifier.\<close>

definition check_sequence :: "slotGauge \<Rightarrow> accountQueue \<Rightarrow> Interaction \<Rightarrow> pool_error option" where
  "check_sequence gauge q ix =
     (if highPressure gauge \<and> ix_SequenceID ix > getSequenceID q then Some ErrRejectFutureIx
      else (case aq_sequenceIDToIX q (ix_SequenceID ix) of
              Some old \<Rightarrow>
                if ix_hash old = ix_hash ix then Some ErrAlreadyKnown
                else if ix_FuelPrice old > ix_FuelPrice ix then Some ErrReplacementUnderpriced
                else None
            | None \<Rightarrow> if ix_SequenceID ix < getSequenceID q then Some ErrSequenceIDTooLow else None))"

text \<open>The slots and the lookup map: an error leaves both as they were.\<close>

definition claim_slots ::
  "Interaction option \<Rightarrow> Interaction \<Rightarrow> slotGauge \<Rightarrow> lookupMap \<Rightarrow> pool_error + (slotGauge \<times> lookupMap)" where
  "claim_slots old ix gauge m =
     (let allocated = slotsRequired [ix];
          freed = (case old of None \<Rightarrow> 0 | Some o' \<Rightarrow> slotsRequired [o']);
          (ok, g1) = (if allocated > freed then increaseWithinLimit (allocated - freed) gauge else (True, gauge))
      in if \<not> ok then Inl ErrIXPoolOverFlow
         else
           (let (added, m1) = lookup_add ix m
            in if \<not> added then Inl ErrAlreadyKnown
               else Inr (if freed > allocated then gauge_decrease (freed - allocated) g1 else g1,
                         case old of None \<Rightarrow> m1 | Some o' \<Rightarrow> lookup_remove [o'] m1)))"

abbreviation (input) MaxWaitCounter :: int where "MaxWaitCounter \<equiv> 10"

text \<open>The part of \<^verbatim>\<open>validateAndEnqueueIx\<close> after the slots are claimed.\<close>

definition enqueue_claimed :: "PoolEnv \<Rightarrow> Interaction \<Rightarrow> account \<Rightarrow> accountQueue \<Rightarrow> IxPool \<Rightarrow> IxPool option" where
  "enqueue_claimed env ix acc q p = do {
     let acc1 = (if acc_delayCounter acc \<ge> MaxWaitCounter \<and> env_now env > acc_waitTime acc
                 then resetWaitTimeAndCounter (env_now env) acc else acc);
     let (replacedInPromoted, q1) = aq_enqueue ix (aq_sequenceIDToIX q (ix_SequenceID ix) \<noteq> None) q;
     let p1 = put_queue (ix_SenderID ix) q1 (put_account (ix_SenderID ix) acc1 p);
     p2 \<leftarrow> (if replacedInPromoted then allocateView env (pool_view p1 + 1) [ix] p1 else Some p1);
     let p3 = loadConsensusNodesHash env ix p2;
     if ix_SequenceID ix = getSequenceID q1 then handlePromoteRequest env (ix_SenderID ix) q1 p3 else Some p3
   }"

definition validateAndEnqueueIx :: "PoolEnv \<Rightarrow> int \<Rightarrow> Interaction \<Rightarrow> IxPool \<Rightarrow> (pool_error option \<times> IxPool) option" where
  "validateAndEnqueueIx env priceLimit ix p = do {
     invalid \<leftarrow> validateIx env priceLimit ix;
     (case invalid of
        Some err \<Rightarrow> Some (Some err, p)
      | None \<Rightarrow> do {
          let p1 = getOrCreateAccountQueue env (ix_SenderID ix) (ix_SenderKeyID ix) (ix_SequenceID ix) p;
          acc \<leftarrow> getAccount (pool_accounts p1) (ix_SenderID ix);
          q \<leftarrow> acc_get acc (ix_SenderKeyID ix);
          (case check_sequence (pool_gauge p1) q ix of
             Some err \<Rightarrow> Some (Some err, p1)
           | None \<Rightarrow>
               (case claim_slots (aq_sequenceIDToIX q (ix_SequenceID ix)) ix (pool_gauge p1) (pool_allIxs p1) of
                  Inl err \<Rightarrow> Some (Some err, p1)
                | Inr (g, m) \<Rightarrow> do {
                    p2 \<leftarrow> enqueue_claimed env ix acc q (p1\<lparr>pool_gauge := g, pool_allIxs := m,
                      pool_allotted := (pool_allotted p1)(ix_hash ix := None)\<rparr>);
                    Some (None, p2)
                  }))
        })
   }"

datatype ValidationResult = ValidationAccept | ValidationReject | ValidationIgnore

fun add_remote :: "PoolEnv \<Rightarrow> int \<Rightarrow> Interaction list \<Rightarrow> nat \<Rightarrow> IxPool \<Rightarrow> (nat option \<times> IxPool) option" where
  "add_remote env limit [] c p = Some (Some c, p)"
| "add_remote env limit (ix # ixs) c p = do {
     (err, p1) \<leftarrow> validateAndEnqueueIx env limit ix p;
     (case err of
        None \<Rightarrow> add_remote env limit ixs c p1
      | Some e \<Rightarrow>
          if e \<in> {ErrOversizedData, PoolErrInvalidIdentifier, ErrOperation ErrInvalidIdentifier, ErrInvalidIXSignature}
          then Some (None, p1)
          else add_remote env limit ixs (Suc c) p1)
   }"

definition AddRemoteInteractions :: "PoolEnv \<Rightarrow> int \<Rightarrow> Interaction list \<Rightarrow> IxPool \<Rightarrow> (ValidationResult \<times> IxPool) option" where
  "AddRemoteInteractions env limit ixs p = do {
     (r, p1) \<leftarrow> add_remote env limit ixs 0 p;
     Some (case r of
             None \<Rightarrow> ValidationReject
           | Some c \<Rightarrow> if length ixs > 10 \<and> c > length ixs div 2 then ValidationIgnore else ValidationAccept, p1)
   }"

text \<open>The errors and the interactions that were added, which are broadcast.\<close>

fun AddLocalInteractions ::
  "PoolEnv \<Rightarrow> int \<Rightarrow> Interaction list \<Rightarrow> IxPool \<Rightarrow> ((pool_error list \<times> Interaction list) \<times> IxPool) option" where
  "AddLocalInteractions env limit [] p = Some (([], []), p)"
| "AddLocalInteractions env limit (ix # ixs) p = do {
     (err, p1) \<leftarrow> validateAndEnqueueIx env limit ix p;
     ((errs, valid), p2) \<leftarrow> AddLocalInteractions env limit ixs p1;
     Some (case err of None \<Rightarrow> ((errs, ix # valid), p2) | Some e \<Rightarrow> ((e # errs, valid), p2))
   }"

section \<open>Removing interactions\<close>

text \<open>The closures \<^verbatim>\<open>cleanup\<close>: the lookup map and the gauge.\<close>

definition pool_cleanup :: "Interaction list \<Rightarrow> IxPool \<Rightarrow> IxPool" where
  "pool_cleanup l p = p\<lparr>pool_allIxs := lookup_remove l (pool_allIxs p),
     pool_gauge := gauge_decrease (slotsRequired l) (pool_gauge p)\<rparr>"

definition prune_promoted :: "PoolEnv \<Rightarrow> Identifier \<Rightarrow> u64 \<Rightarrow> account \<Rightarrow> accountQueue \<Rightarrow> IxPool \<Rightarrow> accountQueue \<times> IxPool" where
  "prune_promoted env sender latest acc q p =
     (let (pruned, promoted') = q_prune latest (aq_promoted q);
          q1 = q\<lparr>aq_promoted := promoted', aq_sequenceIDToIX := seqmap_remove pruned (aq_sequenceIDToIX q)\<rparr>
      in if length pruned > 0 then
           (let p1 = pool_cleanup pruned p;
                acc1 = resetWaitTimeAndCounter (env_now env) (acc\<lparr>acc_requestTime := env_now env\<rparr>);
                p2 = put_queue sender q1 (put_account sender acc1 p1)
            in (q1, if q_length promoted' = 0
                    then p2\<lparr>pool_accounts := deleteInSortedAccounts sender (pool_accounts p2)\<rparr> else p2))
         else (q1, put_queue sender q1 p))"

definition prune_enqueued :: "Identifier \<Rightarrow> u64 \<Rightarrow> accountQueue \<Rightarrow> IxPool \<Rightarrow> accountQueue \<times> IxPool" where
  "prune_enqueued sender latest q p =
     (let (pruned, enqueued') = q_prune latest (aq_enqueued q);
          q1 = setSequenceID latest (q\<lparr>aq_enqueued := enqueued',
                 aq_sequenceIDToIX := seqmap_remove pruned (aq_sequenceIDToIX q)\<rparr>);
          p1 = (if length pruned > 0 then pool_cleanup pruned p else p)
      in (q1, put_queue sender q1 p1))"

text \<open>The body of the loop of \<^verbatim>\<open>ResetWithHeaders\<close>, with the accounts that are already processed. An
  account without a queue for the key of the sender is a nil pointer.\<close>

definition reset_one :: "PoolEnv \<Rightarrow> Interaction \<Rightarrow> Identifier set \<times> IxPool \<Rightarrow> (Identifier set \<times> IxPool) option" where
  "reset_one env ix = (\<lambda>(processed, p).
     if ix_SenderID ix \<in> processed then Some (processed, p)
     else
       (let sender = ix_SenderID ix;
            latest = (case sm_GetSequenceID env sender (ix_SenderKeyID ix) of
                        (n, failed) \<Rightarrow> if failed then ix_SequenceID ix + 1 else n);
            processed' = insert sender processed
        in case getAccount (pool_accounts p) sender of
             None \<Rightarrow> Some (processed', p)
           | Some acc \<Rightarrow> do {
               q \<leftarrow> acc_get acc (ix_SenderKeyID ix);
               let (q1, p1) = prune_promoted env sender latest acc q p;
               if latest \<le> getSequenceID q1 then Some (processed', p1)
               else do {
                 let (q2, p2) = prune_enqueued sender latest q1 p1;
                 p3 \<leftarrow> (case q_peek (aq_enqueued q2) of
                           Some first \<Rightarrow> if ix_SequenceID first = latest then handlePromoteRequest env sender q2 p2 else Some p2
                         | None \<Rightarrow> Some p2);
                 Some (processed', p3)
               }
             }))"

text \<open>The interactions of the tesseract, and for each account of its context delta whether its
  consensus nodes change.\<close>

definition ResetWithHeaders :: "PoolEnv \<Rightarrow> Interaction list \<Rightarrow> (Identifier \<times> bool) list \<Rightarrow> IxPool \<Rightarrow> IxPool option" where
  "ResetWithHeaders env ixs contextDelta p =
     (if length ixs > 0 then do {
        let p1 = p\<lparr>pool_allIxs := lookup_remove ixs (pool_allIxs p),
          pool_consensusNodesHash := fold (\<lambda>(addr, changed) c.
            if \<not> IsParticipantVariant addr \<and> changed then c(addr := None) else c) contextDelta (pool_consensusNodesHash p)\<rparr>;
        (processed, p2) \<leftarrow> foldM (reset_one env) ixs ({}, p1);
        Some p2
      } else Some p)"

text \<open>\<^verbatim>\<open>Pop\<close> dereferences the queue and, after the pop, the interaction.\<close>

definition Pop :: "Interaction \<Rightarrow> IxPool \<Rightarrow> IxPool option" where
  "Pop ix p = do {
     q \<leftarrow> getAccountQueue (pool_accounts p) (ix_SenderID ix) (ix_SenderKeyID ix);
     let (popped, promoted') = q_pop (aq_promoted q);
     ix' \<leftarrow> popped;
     Some (put_queue (ix_SenderID ix) (q\<lparr>aq_promoted := promoted', aq_sequenceIDToIX := seqmap_remove [ix'] (aq_sequenceIDToIX q)\<rparr>)
       (p\<lparr>pool_gauge := gauge_decrease (slotsRequired [ix']) (pool_gauge p)\<rparr>))
   }"

definition Drop :: "PoolEnv \<Rightarrow> Interaction \<Rightarrow> IxPool \<Rightarrow> IxPool" where
  "Drop env ix p =
     (case getAccountQueue (pool_accounts p) (ix_SenderID ix) (ix_SenderKeyID ix) of
        None \<Rightarrow> p
      | Some q \<Rightarrow>
          if fst (sm_GetSequenceID env (ix_SenderID ix) (ix_SenderKeyID ix)) > ix_SequenceID ix then p
          else
            (let (dropped, promoted') = q_clear (aq_promoted q);
                 p1 = pool_cleanup dropped p;
                 (dropped', enqueued') = q_clear (aq_enqueued q);
                 p2 = pool_cleanup dropped' p1
             in put_queue (ix_SenderID ix) ((setSequenceID (ix_SequenceID ix) q)
                  \<lparr>aq_sequenceIDToIX := Map.empty, aq_promoted := promoted', aq_enqueued := enqueued'\<rparr>) p2))"

definition IncrementWaitTime :: "PoolEnv \<Rightarrow> (int \<Rightarrow> int) \<Rightarrow> Identifier \<Rightarrow> IxPool \<Rightarrow> pool_error option \<times> IxPool" where
  "IncrementWaitTime env timeout ident p =
     (case getAccount (pool_accounts p) ident of
        None \<Rightarrow> (Some ErrAccountNotFound, p)
      | Some acc \<Rightarrow>
          (None, put_account ident
             (if int32 (acc_delayCounter acc + 1) \<le> MaxWaitCounter then incrementCounter (env_now env) timeout acc
              else resetWaitTimeAndCounter (env_now env) acc) p))"

definition clear_hole :: "Identifier \<Rightarrow> accountQueue \<Rightarrow> IxPool \<Rightarrow> IxPool" where
  "clear_hole ident q p =
     (case q_peek (aq_enqueued q) of
        None \<Rightarrow> p
      | Some ixn \<Rightarrow>
          if ix_SequenceID ixn = getSequenceID q then p
          else
            (let (dropped, enqueued') = q_clear (aq_enqueued q)
             in put_queue ident (q\<lparr>aq_enqueued := enqueued', aq_sequenceIDToIX := seqmap_remove dropped (aq_sequenceIDToIX q)\<rparr>)
                  (pool_cleanup dropped p)))"

definition removeSequenceIDHoleAccounts :: "IxPool \<Rightarrow> IxPool" where
  "removeSequenceIDHoleAccounts p = fold (\<lambda>(ident, acc). fold (clear_hole ident) (acc_accountQueues acc))
     (am_accounts (pool_accounts p)) p"

section \<open>Queries\<close>

definition GetPendingIx :: "IxPool \<Rightarrow> Hash \<Rightarrow> Interaction option" where
  "GetPendingIx p h = lookup_get h (pool_allIxs p)"

definition GetIxnsWithMissingIxns :: "IxPool \<Rightarrow> Hash list \<Rightarrow> Interaction list \<times> Hash list" where
  "GetIxnsWithMissingIxns p hashes =
     (List.map_filter (\<lambda>h. lookup_get h (pool_allIxs p)) hashes, filter (\<lambda>h. lookup_get h (pool_allIxs p) = None) hashes)"

fun GetIxns :: "IxPool \<Rightarrow> Hash list \<Rightarrow> Interaction list option" where
  "GetIxns p [] = Some []"
| "GetIxns p (h # hs) =
     (case lookup_get h (pool_allIxs p) of
        None \<Rightarrow> None
      | Some ix \<Rightarrow> map_option (\<lambda>l. ix # l) (GetIxns p hs))"

definition pool_GetSequenceID :: "PoolEnv \<Rightarrow> IxPool \<Rightarrow> Identifier \<Rightarrow> u64 \<Rightarrow> u64 \<times> bool" where
  "pool_GetSequenceID env p ident keyID =
     (case getAccountQueue (pool_accounts p) ident keyID of
        Some q \<Rightarrow> (getSequenceID q, False)
      | None \<Rightarrow> sm_GetSequenceID env ident keyID)"

definition GetAccountWaitTime :: "PoolEnv \<Rightarrow> IxPool \<Rightarrow> Identifier \<Rightarrow> pool_error + int" where
  "GetAccountWaitTime env p ident =
     (case getAccount (pool_accounts p) ident of
        None \<Rightarrow> Inl ErrAccountNotFound | Some acc \<Rightarrow> Inr ((acc_waitTime acc - env_now env) sdiv 1000000))"

end
