(* ===== verification/Ix_Proposal.thy ===== *)
theory Ix_Proposal
  imports Ix_Pool Ix_Batches
begin

text \<open>
  The choice of the interactions a node proposes: \<^verbatim>\<open>isEligibleForProposal\<close> and \<^verbatim>\<open>ProcessableBatches\<close> of
  src/ixpool/ixpool.go. The sorted view of a promoted queue shares its array with the queue, so
  sorting it sorts the queue in place.
\<close>

text \<open>What \<^verbatim>\<open>ProcessableBatches\<close> threads through its loops: the two maps, the registry and the pool.\<close>

record BatchProposal =
  pr_participantToAcquirer :: "Identifier \<rightharpoonup> Identifier"
  pr_acquirerToConsensusNodeHashes :: "Identifier \<rightharpoonup> Hash set"
  pr_registry :: IxBatchRegistry
  pr_pool :: IxPool

text \<open>The first loop of \<^verbatim>\<open>isEligibleForProposal\<close>: the number of new hashes, or \<^const>\<open>None\<close> when the
  interaction is not eligible.\<close>

fun eligible_scan ::
  "PoolEnv \<Rightarrow> Identifier \<Rightarrow> Hash set \<Rightarrow> ParticipantMap \<Rightarrow> nat \<Rightarrow> BatchProposal \<Rightarrow> nat option \<times> BatchProposal" where
  "eligible_scan env leaderAcc existing [] n s = (Some n, s)"
| "eligible_scan env leaderAcc existing ((ident, participant) # ps) n s =
     (if not_locked participant then eligible_scan env leaderAcc existing ps n s
      else (case pr_participantToAcquirer s (info_ID participant) of
              Some acquirer \<Rightarrow>
                if leaderAcc \<noteq> acquirer then (None, s) else eligible_scan env leaderAcc existing ps n s
            | None \<Rightarrow>
                (case getConsensusNodesHash env (info_ID participant) (pr_pool s) of
                   (None, p) \<Rightarrow> (None, s\<lparr>pr_pool := p\<rparr>)
                 | (Some hash, p) \<Rightarrow>
                     eligible_scan env leaderAcc existing ps (if hash \<notin> existing then Suc n else n)
                       (s\<lparr>pr_pool := p, pr_registry := addConsensusNodesHash (info_ID participant) hash (pr_registry s)\<rparr>))))"

definition acquire :: "PoolEnv \<Rightarrow> Identifier \<Rightarrow> ParticipantInfo \<Rightarrow> BatchProposal \<Rightarrow> BatchProposal" where
  "acquire env leaderAcc participant s =
     (let (h, p) = getConsensusNodesHash env (info_ID participant) (pr_pool s);
          hash = (case h of None \<Rightarrow> NilHash | Some h' \<Rightarrow> h')
      in s\<lparr>pr_pool := p, pr_participantToAcquirer := (pr_participantToAcquirer s)(info_ID participant \<mapsto> leaderAcc),
           pr_acquirerToConsensusNodeHashes := (pr_acquirerToConsensusNodeHashes s)
             (leaderAcc \<mapsto> insert hash (map_default {} (pr_acquirerToConsensusNodeHashes s) leaderAcc))\<rparr>)"

definition isEligibleForProposal :: "PoolEnv \<Rightarrow> Interaction \<Rightarrow> BatchProposal \<Rightarrow> (bool \<times> BatchProposal) option" where
  "isEligibleForProposal env ixn s = do {
     leaderAcc \<leftarrow> LeaderCandidateAcc ixn;
     let existing = map_default {} (pr_acquirerToConsensusNodeHashes s) leaderAcc;
     (case eligible_scan env leaderAcc existing (ix_ps ixn) 0 s of
        (None, s1) \<Rightarrow> Some (False, s1)
      | (Some n, s1) \<Rightarrow>
          if card existing + n > 4 then Some (False, s1)
          else
            (let s2 = (if pr_acquirerToConsensusNodeHashes s1 leaderAcc = None
                       then s1\<lparr>pr_acquirerToConsensusNodeHashes := (pr_acquirerToConsensusNodeHashes s1)(leaderAcc \<mapsto> {})\<rparr> else s1)
             in Some (True, fold (\<lambda>(ident, participant) s.
                  if not_locked participant then s else acquire env leaderAcc participant s) (ix_ps ixn) s2)))
   }"

text \<open>The loop over the promoted interactions of one account queue; every \<^verbatim>\<open>break\<close> ends it.\<close>

fun propose_queue :: "PoolEnv \<Rightarrow> Interaction list \<Rightarrow> BatchProposal \<Rightarrow> BatchProposal option" where
  "propose_queue env [] s = Some s"
| "propose_queue env (ixn # rest) s = do {
     (eligible, s1) \<leftarrow> isEligibleForProposal env ixn s;
     if \<not> eligible then Some s1
     else if \<not> ShouldPropose (pr_pool s1) ixn then Some s1
     else do {
       p2 \<leftarrow> (if AllottedView (pr_pool s1) ixn < pool_view (pr_pool s1)
               then allocateView env (pool_view (pr_pool s1)) [ixn] (pr_pool s1) else Some (pr_pool s1));
       let s2 = s1\<lparr>pr_pool := p2\<rparr>;
       if AllottedView p2 ixn > pool_view p2 then Some s2
       else do {
         (added, r) \<leftarrow> br_addIx ixn (pr_registry s2);
         let s3 = s2\<lparr>pr_registry := r\<rparr>;
         if \<not> added then Some s3 else propose_queue env rest s3
       }
     }
   }"

definition propose_account_queue :: "PoolEnv \<Rightarrow> Identifier \<Rightarrow> accountQueue \<Rightarrow> BatchProposal \<Rightarrow> BatchProposal option" where
  "propose_account_queue env ident q s =
     (let sorted = sort_key ix_SequenceID (q_list (aq_promoted q));
          s1 = s\<lparr>pr_pool := put_queue ident (q\<lparr>aq_promoted := sorted\<rparr>) (pr_pool s)\<rparr>
      in propose_queue env sorted s1)"

definition propose_account :: "PoolEnv \<Rightarrow> Identifier \<Rightarrow> BatchProposal \<Rightarrow> BatchProposal option" where
  "propose_account env ident s = do {
     acc \<leftarrow> getAccount (pool_accounts (pr_pool s)) ident;
     foldM (propose_account_queue env ident) (acc_accountQueues acc) s
   }"

definition new_proposal :: "IxPool \<Rightarrow> BatchProposal" where
  "new_proposal p = \<lparr>pr_participantToAcquirer = Map.empty, pr_acquirerToConsensusNodeHashes = Map.empty,
     pr_registry = newBatchRegistry, pr_pool = p\<rparr>"

definition ProcessableBatches :: "PoolEnv \<Rightarrow> sorter \<Rightarrow> IxPool \<Rightarrow> (IxBatch list \<times> IxPool) option" where
  "ProcessableBatches env srt p = do {
     s \<leftarrow> foldM (propose_account env)
           (filter (\<lambda>ident. id_Hex Nil_id \<le> id_Hex ident) (am_sortedParticipants (pool_accounts p))) (new_proposal p);
     (batches, r) \<leftarrow> selectOptimalBatches srt (pr_registry s);
     Some (batches, pr_pool s)
   }"

end
