(* ===== verification/Ix_Pool_Inv.thy ===== *)
theory Ix_Pool_Inv
  imports Ix_Proposal
begin

text \<open>
  The invariant of the interaction pool and its preservation by every operation: the account queues
  are well formed, their keys are distinct, and the gauge counts the slots of the queued interactions
  exactly and within its maximum.
\<close>

section \<open>The contents of the pool\<close>

definition q_all :: "accountQueue \<Rightarrow> Interaction multiset" where
  "q_all q = mset (aq_enqueued q) + mset (aq_promoted q)"

definition acc_ixns :: "account \<Rightarrow> Interaction multiset" where
  "acc_ixns a = (\<Sum>q \<leftarrow> acc_accountQueues a. q_all q)"

definition accs_ixns :: "(Identifier \<times> account) list \<Rightarrow> Interaction multiset" where
  "accs_ixns A = (\<Sum>(i, a) \<leftarrow> A. acc_ixns a)"

abbreviation pool_accs :: "IxPool \<Rightarrow> (Identifier \<times> account) list" where
  "pool_accs p \<equiv> am_accounts (pool_accounts p)"

abbreviation pool_ixns :: "IxPool \<Rightarrow> Interaction multiset" where
  "pool_ixns p \<equiv> accs_ixns (pool_accs p)"

definition nslots :: "Interaction multiset \<Rightarrow> nat" where
  "nslots M = (\<Sum>ix \<in># M. unat (ix_slots ix))"

definition queue_ok :: "accountQueue \<Rightarrow> bool" where
  "queue_ok q \<longleftrightarrow> aq_inv q \<and> (\<forall>x \<in># q_all q. ix_SequenceID x \<noteq> -1 \<and> ix_size x \<le> IxMaxSize)"

definition account_ok :: "account \<Rightarrow> bool" where
  "account_ok a \<longleftrightarrow> distinct (map aq_keyID (acc_accountQueues a)) \<and> (\<forall>q \<in> set (acc_accountQueues a). queue_ok q)"

definition accs_ok :: "(Identifier \<times> account) list \<Rightarrow> bool" where
  "accs_ok A \<longleftrightarrow> distinct (map fst A) \<and> (\<forall>(i, a) \<in> set A. account_ok a)"

definition gauge_ok :: "slotGauge \<Rightarrow> Interaction multiset \<Rightarrow> bool" where
  "gauge_ok g M \<longleftrightarrow> unat (gauge_total g) = nslots M \<and> nslots M \<le> unat (gauge_max g) \<and> unat (gauge_max g) + 128 < 2 ^ 64"

definition pool_inv :: "IxPool \<Rightarrow> bool" where
  "pool_inv p \<longleftrightarrow> accs_ok (pool_accs p) \<and> gauge_ok (pool_gauge p) (pool_ixns p)"

lemma nslots_simps [simp]:
  "nslots {#} = 0" "nslots (add_mset x M) = unat (ix_slots x) + nslots M" "nslots (M + N) = nslots M + nslots N"
  by (simp_all add: nslots_def)

section \<open>Tables\<close>

lemma accs_ixns_put:
  assumes "distinct (map fst A)" and "map_of A i = Some a"
  shows "accs_ixns (ps_put i b A) + acc_ixns a = accs_ixns A + acc_ixns b"
proof -
  have other: "map (\<lambda>(k, w). if k = i then (k, b) else (k, w)) B = B" if "i \<notin> fst ` set B" for B
    using that by (induction B) force+
  have "accs_ixns (map (\<lambda>(k, w). if k = i then (k, b) else (k, w)) A) + acc_ixns a = accs_ixns A + acc_ixns b"
    using assms
  proof (induction A)
    case Nil
    then show ?case by simp
  next
    case (Cons x A)
    then show ?case by (cases x; cases "fst x = i") (auto simp: accs_ixns_def other add_ac)
  qed
  moreover have "i \<in> fst ` set A" using assms(2) by (force dest: map_of_SomeD)
  ultimately show ?thesis by (simp add: ps_put_def)
qed

lemma ps_put_same: "distinct (map fst A) \<Longrightarrow> map_of A i = Some a \<Longrightarrow> ps_put i a A = A"
proof -
  assume A: "distinct (map fst A)" "map_of A i = Some a"
  then have "map (\<lambda>(k, w). if k = i then (k, a) else (k, w)) A = A"
    by (intro map_idI) (auto dest: eq_key_imp_eq_value map_of_SomeD)
  moreover have "i \<in> fst ` set A" using A(2) by (force dest: map_of_SomeD)
  ultimately show ?thesis by (simp add: ps_put_def)
qed

lemma accs_ixns_new: "map_of A i = None \<Longrightarrow> accs_ixns (ps_put i b A) = accs_ixns A + acc_ixns b"
  by (simp add: ps_put_def map_of_eq_None_iff accs_ixns_def)

lemma accs_ok_put: "accs_ok A \<Longrightarrow> account_ok a \<Longrightarrow> accs_ok (ps_put i a A)"
proof -
  assume "accs_ok A" "account_ok a"
  moreover have "x = (i, a) \<or> x \<in> set A" if "x \<in> set (ps_put i a A)" for x
    using that by (auto simp: ps_put_def split: if_splits)
  ultimately show ?thesis by (fastforce simp: accs_ok_def)
qed

lemma accs_okD: "accs_ok A \<Longrightarrow> map_of A i = Some a \<Longrightarrow> account_ok a"
  by (auto simp: accs_ok_def dest: map_of_SomeD)

lemma acc_put_queue_ixns:
  assumes "account_ok a" and "acc_get a k = Some q" and "aq_keyID q' = k"
  shows "acc_ixns (acc_put_queue q' a) + q_all q = acc_ixns a + q_all q'"
proof -
  have other: "map (\<lambda>x. if aq_keyID x = k then q' else x) Q = Q" if "k \<notin> aq_keyID ` set Q" for Q
    using that by (induction Q) auto
  have "(\<Sum>q \<leftarrow> map (\<lambda>x. if aq_keyID x = k then q' else x) Q. q_all q) + q_all q = (\<Sum>q \<leftarrow> Q. q_all q) + q_all q'"
    if "distinct (map aq_keyID Q)" "find (\<lambda>x. aq_keyID x = k) Q = Some q" for Q
    using that
  proof (induction Q)
    case Nil
    then show ?case by simp
  next
    case (Cons x Q)
    then show ?case by (cases "aq_keyID x = k") (auto simp: other add_ac)
  qed
  with assms show ?thesis by (simp add: acc_ixns_def acc_put_queue_def account_ok_def acc_get_def)
qed

lemma acc_put_queue_ok: "account_ok a \<Longrightarrow> queue_ok q \<Longrightarrow> account_ok (acc_put_queue q a)"
proof -
  assume a: "account_ok a" "queue_ok q"
  have "map aq_keyID (acc_accountQueues (acc_put_queue q a)) = map aq_keyID (acc_accountQueues a)"
    by (simp add: acc_put_queue_def o_def cong: if_cong)
  then have "distinct (map aq_keyID (acc_accountQueues (acc_put_queue q a)))" using a(1) by (simp add: account_ok_def)
  moreover have "\<forall>x \<in> set (acc_accountQueues (acc_put_queue q a)). queue_ok x"
    using a by (auto simp: account_ok_def acc_put_queue_def)
  ultimately show ?thesis by (simp add: account_ok_def)
qed

lemma acc_get_SomeD: "acc_get a k = Some q \<Longrightarrow> q \<in> set (acc_accountQueues a) \<and> aq_keyID q = k"
  by (auto simp: acc_get_def find_Some_iff)

lemma acc_get_put:
  assumes "acc_get a (aq_keyID q') = Some q"
  shows "acc_get (acc_put_queue q' a) k = (if k = aq_keyID q' then Some q' else acc_get a k)"
proof -
  have "find (\<lambda>x. aq_keyID x = k) (map (\<lambda>x. if aq_keyID x = aq_keyID q' then q' else x) Q)
      = (if k = aq_keyID q' \<and> (\<exists>x \<in> set Q. aq_keyID x = k) then Some q' else find (\<lambda>x. aq_keyID x = k) Q)" for Q
    by (induction Q) auto
  moreover have "\<exists>x \<in> set (acc_accountQueues a). aq_keyID x = aq_keyID q'" using acc_get_SomeD [OF assms] by blast
  ultimately show ?thesis by (auto simp: acc_get_def acc_put_queue_def)
qed

lemma acc_ixns_get: "acc_get a k = Some q \<Longrightarrow> q_all q \<subseteq># acc_ixns a"
proof -
  assume "acc_get a k = Some q"
  then have "q \<in> set (acc_accountQueues a)" using acc_get_SomeD by blast
  then obtain l r where "acc_accountQueues a = l @ q # r" by (meson split_list)
  then show ?thesis by (simp add: acc_ixns_def)
qed

abbreviation queue_at :: "IxPool \<Rightarrow> Identifier \<Rightarrow> u64 \<Rightarrow> accountQueue option" where
  "queue_at p i k \<equiv> getAccountQueue (pool_accounts p) i k"

lemma queue_at_eq:
  "queue_at p i k = Some q \<longleftrightarrow> (\<exists>a. map_of (pool_accs p) i = Some a \<and> acc_get a k = Some q)"
  by (auto simp: getAccountQueue_def getAccount_def bind_eq_Some_conv)

lemma queue_at_ok:
  assumes "accs_ok (pool_accs p)" and "queue_at p i k = Some q"
  shows "queue_ok q" and "aq_keyID q = k"
proof -
  obtain a where a: "map_of (pool_accs p) i = Some a" "acc_get a k = Some q" using assms(2) queue_at_eq by blast
  show "queue_ok q" "aq_keyID q = k"
    using accs_okD [OF assms(1) a(1)] acc_get_SomeD [OF a(2)] by (auto simp: account_ok_def)
qed

lemma put_frame [simp]:
  "pool_gauge (put_account i a p) = pool_gauge p" "pool_gauge (put_queue i q p) = pool_gauge p"
  "pool_accs (put_account i a p) = ps_put i a (pool_accs p)"
  "map_of (pool_accs p) i = Some a \<Longrightarrow> pool_accs (put_queue i q p) = ps_put i (acc_put_queue q a) (pool_accs p)"
  by (auto simp: put_account_def put_queue_def getAccount_def split: option.splits)

lemma put_queue_spec:
  assumes "accs_ok (pool_accs p)" and "queue_at p i (aq_keyID q') = Some q" and "queue_ok q'"
  shows "accs_ok (pool_accs (put_queue i q' p))"
    and "pool_ixns (put_queue i q' p) + q_all q = pool_ixns p + q_all q'"
    and "queue_at (put_queue i q' p) i (aq_keyID q') = Some q'"
proof -
  obtain a where a: "map_of (pool_accs p) i = Some a" "acc_get a (aq_keyID q') = Some q"
    using assms(2) queue_at_eq by blast
  note ok = accs_okD [OF assms(1) a(1)]
  show "accs_ok (pool_accs (put_queue i q' p))"
    using accs_ok_put [OF assms(1) acc_put_queue_ok [OF ok assms(3)]] a(1) by simp
  have d: "distinct (map fst (pool_accs p))" using assms(1) by (simp add: accs_ok_def)
  have "pool_ixns (put_queue i q' p) + acc_ixns a = pool_ixns p + acc_ixns (acc_put_queue q' a)"
    using accs_ixns_put [OF d a(1)] a(1) by simp
  moreover have "acc_ixns (acc_put_queue q' a) + q_all q = acc_ixns a + q_all q'"
    by (rule acc_put_queue_ixns [OF ok a(2) refl])
  ultimately have "pool_ixns (put_queue i q' p) + q_all q + acc_ixns a = pool_ixns p + q_all q' + acc_ixns a"
    by (metis (no_types, lifting) add.assoc add.commute)
  then show "pool_ixns (put_queue i q' p) + q_all q = pool_ixns p + q_all q'" by (rule add_right_imp_eq)
  show "queue_at (put_queue i q' p) i (aq_keyID q') = Some q'"
    using a acc_get_put [OF a(2)] by (simp add: queue_at_eq)
qed

lemma queue_ixns_subset:
  assumes "accs_ok (pool_accs p)" and "queue_at p i k = Some q"
  shows "q_all q \<subseteq># pool_ixns p"
proof -
  obtain a where a: "map_of (pool_accs p) i = Some a" "acc_get a k = Some q" using assms(2) queue_at_eq by blast
  then obtain l r where "pool_accs p = l @ (i, a) # r" by (meson map_of_SomeD split_list)
  then have "acc_ixns a \<subseteq># pool_ixns p" by (simp add: accs_ixns_def)
  with acc_ixns_get [OF a(2)] show ?thesis by (rule subset_mset.order_trans)
qed

text \<open>Writing an account whose queues are unchanged.\<close>

lemma put_account_same:
  assumes "accs_ok (pool_accs p)" and "map_of (pool_accs p) i = Some a" and "acc_accountQueues b = acc_accountQueues a"
  shows "accs_ok (pool_accs (put_account i b p))" and "pool_ixns (put_account i b p) = pool_ixns p"
    and "queue_at (put_account i b p) j k = queue_at p j k"
proof -
  have ok: "account_ok b" using accs_okD [OF assms(1,2)] assms(3) by (simp add: account_ok_def)
  show "accs_ok (pool_accs (put_account i b p))" using accs_ok_put [OF assms(1) ok] by simp
  have "acc_ixns b = acc_ixns a" using assms(3) by (simp add: acc_ixns_def)
  then show "pool_ixns (put_account i b p) = pool_ixns p"
    using accs_ixns_put [OF _ assms(2), of b] assms(1) by (simp add: accs_ok_def)
  have "acc_get b = acc_get a" using assms(3) by (simp add: acc_get_def fun_eq_iff)
  then show "queue_at (put_account i b p) j k = queue_at p j k"
    using assms(2) by (simp add: getAccountQueue_def getAccount_def)
qed

section \<open>Removing from a queue\<close>

lemma seqmap_remove_eq: "seqmap_remove l m s = (if s \<in> seqs l then None else m s)"
  unfolding seqmap_remove_def by (induction l arbitrary: m) auto

lemma aq_inv_remove:
  assumes "aq_inv a" and "sq.heap e" and "sq.heap p"
    and "q_all a = mset e + mset p + mset l"
    and "\<forall>x \<in> set p. ix_SequenceID x < n" and "\<forall>x \<in> set e. n \<le> ix_SequenceID x"
  shows "aq_inv (a\<lparr>aq_enqueued := e, aq_promoted := p, aq_sequenceIDToIX := seqmap_remove l (aq_sequenceIDToIX a),
    aq_nextSequenceID := n\<rparr>)"
proof -
  note inv = aq_invD [OF assms(1)]
  have ms: "mset (aq_enqueued a @ aq_promoted a) = mset (e @ p @ l)" using assms(4) by (simp add: q_all_def add_ac)
  then have dist: "distinct (map ix_SequenceID (e @ p @ l))" using inv(3) distinct_mset_seq by blast
  have set: "set (aq_enqueued a) \<union> set (aq_promoted a) = set e \<union> set p \<union> set l"
    using mset_eq_setD [OF ms] by auto
  have "seqmap_remove l (aq_sequenceIDToIX a) s = Some ix \<longleftrightarrow> ix \<in> set e \<union> set p \<and> ix_SequenceID ix = s" for s ix
  proof (cases "s \<in> seqs l")
    case True
    have "ix_SequenceID ix \<noteq> s" if "ix \<in> set e \<union> set p" for ix
    proof
      assume "ix_SequenceID ix = s"
      then have "s \<in> seqs e \<union> seqs p" using that by blast
      then show False using True dist by auto
    qed
    with True show ?thesis by (auto simp: seqmap_remove_eq)
  next
    case False
    then have "ix \<in> set l \<Longrightarrow> ix_SequenceID ix \<noteq> s" by blast
    with False inv(4) [of s ix] set show ?thesis by (auto simp: seqmap_remove_eq)
  qed
  moreover have "distinct (map ix_SequenceID (e @ p))" using dist by auto
  ultimately show ?thesis using assms(2,3,5,6) by (simp add: aq_inv_def)
qed

lemma of_nat_nslots: "of_nat (nslots (mset l)) = slotsRequired l"
  by (induction l) (simp_all add: slotsRequired_mset)

text \<open>A queue that loses the interactions \<open>l\<close> while the gauge gives their slots back.\<close>

lemma pool_inv_shrink:
  assumes "pool_inv p" and "queue_at p i (aq_keyID q') = Some q" and "queue_ok q'" and "q_all q = q_all q' + mset l"
    and "g = gauge_decrease (slotsRequired l) (pool_gauge p)"
  shows "accs_ok (pool_accs (put_queue i q' p)) \<and> gauge_ok g (pool_ixns (put_queue i q' p))"
proof -
  have ok: "accs_ok (pool_accs p)" "gauge_ok (pool_gauge p) (pool_ixns p)" using assms(1) by (simp_all add: pool_inv_def)
  have "pool_ixns (put_queue i q' p) + mset l + q_all q' = pool_ixns p + q_all q'"
    using put_queue_spec(2) [OF ok(1) assms(2,3)] assms(4) by (simp add: add_ac)
  then have "pool_ixns p = pool_ixns (put_queue i q' p) + mset l" by (metis add_right_imp_eq)
  then have n: "nslots (pool_ixns p) = nslots (pool_ixns (put_queue i q' p)) + nslots (mset l)" by simp
  have total: "unat (gauge_total (pool_gauge p)) = nslots (pool_ixns p)" using ok(2) by (simp add: gauge_ok_def)
  moreover have "unat (gauge_total (pool_gauge p)) < 2 ^ LENGTH(64)" by (rule unsigned_less)
  ultimately have "nslots (mset l) < 2 ^ 64" using n by simp
  then have l: "unat (slotsRequired l) = nslots (mset l)"
    unfolding of_nat_nslots [symmetric] by (simp add: unat_of_nat take_bit_nat_eq_self)
  then have "slotsRequired l \<le> gauge_total (pool_gauge p)" using total n by (simp add: word_le_nat_alt)
  then have "unat (gauge_total g) = nslots (pool_ixns (put_queue i q' p))"
    using total n l by (simp add: assms(5) gauge_decrease_eq unat_sub)
  then show ?thesis
    using put_queue_spec(1) [OF ok(1) assms(2,3)] ok(2) n by (simp add: gauge_ok_def assms(5) gauge_decrease_eq)
qed

section \<open>Frames\<close>

text \<open>Operations that only touch the views, the cache or the sorted participants.\<close>

definition same_queues :: "IxPool \<Rightarrow> IxPool \<Rightarrow> bool" where
  "same_queues p p' \<longleftrightarrow> pool_accs p' = pool_accs p \<and> pool_gauge p' = pool_gauge p"

named_theorems frames \<open>operations that leave the account queues and the gauge unchanged\<close>

lemma same_queues_refl [frames]: "same_queues p p"
  by (simp add: same_queues_def)

lemma same_queues_trans: "same_queues p q \<Longrightarrow> same_queues q r \<Longrightarrow> same_queues p r"
  by (simp add: same_queues_def)

lemma same_queues_inv: "same_queues p p' \<Longrightarrow> pool_inv p' \<longleftrightarrow> pool_inv p"
  by (simp add: same_queues_def pool_inv_def)

lemma same_queues_at: "same_queues p p' \<Longrightarrow> queue_at p' i k = queue_at p i k"
  by (simp add: same_queues_def getAccountQueue_def getAccount_def)

lemma put_queue_accs_cong: "pool_accs p = pool_accs p' \<Longrightarrow> pool_accs (put_queue i q p) = pool_accs (put_queue i q p')"
  by (simp add: put_queue_def put_account_def getAccount_def split: option.splits)

lemma same_queues_allocate [frames]: "allocateView env view l p = Some p' \<Longrightarrow> same_queues p p'"
  unfolding allocateView_def
proof (erule foldM_invariant)
  show "same_queues p p" by (rule same_queues_refl)
  show "\<And>x s s'. same_queues p s \<Longrightarrow> allocate_one env view x s = Some s' \<Longrightarrow> same_queues p s'"
    by (auto simp: allocate_one_def same_queues_def bind_eq_Some_conv split: option.splits if_splits)
qed

lemma same_queues_hash [frames]: "same_queues p (snd (getPrimaryAccountConsensusNodesHash env i p))"
  by (auto simp: getPrimaryAccountConsensusNodesHash_def same_queues_def split: option.splits)

lemma same_queues_node_hash [frames]: "same_queues p (snd (getConsensusNodesHash env i p))"
  using same_queues_hash by (auto simp: getConsensusNodesHash_def same_queues_refl split: option.splits)

lemma same_queues_load [frames]: "same_queues p (loadConsensusNodesHash env ix p)"
proof -
  have "same_queues p (fold (\<lambda>(ident, ps) p. if \<not> IsParticipantVariant ident \<and> \<not> info_IsGenesis ps
     then snd (getPrimaryAccountConsensusNodesHash env ident p) else p) l p)" for l
  proof (induction l arbitrary: p)
    case Nil
    then show ?case by (simp add: same_queues_refl)
  next
    case (Cons x l)
    obtain ident ps where x: "x = (ident, ps)" by fastforce
    show ?case using Cons.IH same_queues_hash same_queues_trans by (simp add: x) blast
  qed
  then show ?thesis by (simp add: loadConsensusNodesHash_def)
qed

lemma sorted_accs [simp]:
  "am_accounts (fold (\<lambda>ix. addToSortedAccounts (ix_SenderID ix)) l m) = am_accounts m"
  by (induction l arbitrary: m) (simp_all add: addToSortedAccounts_def)

section \<open>Every operation keeps the invariant\<close>

lemma pool_inv_promote [inv_intros]:
  assumes "pool_inv p" and "queue_at p i (aq_keyID q) = Some q" and "handlePromoteRequest env i q p = Some p'"
  shows "pool_inv p'"
proof -
  obtain c l q' where pr: "aq_promote q = ((c, l), q')" by (metis surj_pair)
  have ok: "accs_ok (pool_accs p)" using assms(1) by (simp add: pool_inv_def)
  have q: "queue_ok q" using queue_at_ok [OF ok assms(2)] by blast
  then have "aq_inv q" "\<forall>x \<in> set (aq_enqueued q). ix_SequenceID x \<noteq> -1" by (auto simp: queue_ok_def q_all_def)
  note S = aq_promote_spec [OF this pr]
  have all: "q_all q' = q_all q" using S by (simp add: q_all_def add_ac)
  have q': "queue_ok q'" using S q by (simp add: queue_ok_def all)
  have key: "aq_keyID q' = aq_keyID q" using aq_promote_frame(1) [of q] pr by simp
  have "queue_at p i (aq_keyID q') = Some q" using assms(2) key by simp
  from pool_inv_shrink [OF assms(1) this q', of "[]" "pool_gauge p"] all
  have inv: "pool_inv (put_queue i q' p)"
    by (simp add: pool_inv_def gauge_decrease_eq slotsRequired_def)
  let ?p1 = "put_queue i q' p"
  let ?p2 = "?p1\<lparr>pool_accounts := fold (\<lambda>ix. addToSortedAccounts (ix_SenderID ix)) l (pool_accounts ?p1)\<rparr>"
  have "same_queues ?p1 ?p2" by (simp add: same_queues_def)
  moreover have "same_queues ?p2 p'"
    using assms(3) pr by (auto simp: handlePromoteRequest_def Let_def same_queues_refl same_queues_allocate split: if_splits)
  ultimately show ?thesis using inv same_queues_inv by blast
qed

lemma gauge_decrease_0 [simp]: "gauge_decrease 0 g = g"
  by (simp add: gauge_decrease_eq)

lemma slotsRequired_Nil [simp]: "slotsRequired [] = 0"
  by (simp add: slotsRequired_def)

lemma queue_ok_remove:
  assumes "queue_ok q" and "aq_inv q'" and "q_all q = q_all q' + mset l"
  shows "queue_ok q'"
  using assms by (auto simp: queue_ok_def)

lemma prune_promoted_spec:
  assumes "pool_inv p" and "map_of (pool_accs p) i = Some acc" and "acc_get acc k = Some q"
    and "prune_promoted env i latest acc q p = (q1, p1)"
  shows "pool_inv p1 \<and> queue_at p1 i k = Some q1 \<and> aq_nextSequenceID q1 = aq_nextSequenceID q
    \<and> (\<forall>x \<in> set (aq_promoted q1). latest \<le> ix_SequenceID x)"
proof -
  obtain pruned prom where pr: "q_prune latest (aq_promoted q) = (pruned, prom)" by fastforce
  have at: "queue_at p i k = Some q" using assms(2,3) queue_at_eq by blast
  have ok: "accs_ok (pool_accs p)" using assms(1) by (simp add: pool_inv_def)
  note q = queue_at_ok [OF ok at]
  then have inv: "aq_inv q" by (simp add: queue_ok_def)
  note S = q_prune_spec [OF aq_invD(2) [OF inv] pr]
  have q1: "q1 = q\<lparr>aq_promoted := prom, aq_sequenceIDToIX := seqmap_remove pruned (aq_sequenceIDToIX q)\<rparr>"
    using assms(4) pr by (simp add: prune_promoted_def Let_def split: if_splits)
  have all: "q_all q = q_all q1 + mset pruned" using S by (simp add: q1 q_all_def add_ac)
  have sub: "set prom \<subseteq> set (aq_promoted q)" using S mset_plus_set by blast
  have "aq_inv (q\<lparr>aq_enqueued := aq_enqueued q, aq_promoted := prom,
      aq_sequenceIDToIX := seqmap_remove pruned (aq_sequenceIDToIX q), aq_nextSequenceID := aq_nextSequenceID q\<rparr>)"
    using S aq_invD [OF inv] sub all by (intro aq_inv_remove [OF inv]) (auto simp: q1 q_all_def)
  then have inv1: "aq_inv q1" by (simp add: q1)
  note ok1 = queue_ok_remove [OF q(1) inv1 all]
  define acc1 where "acc1 = (if length pruned > 0
    then resetWaitTimeAndCounter (env_now env) (acc\<lparr>acc_requestTime := env_now env\<rparr>) else acc)"
  have same: "acc_accountQueues acc1 = acc_accountQueues acc" by (simp add: acc1_def resetWaitTimeAndCounter_def)
  let ?p0 = "put_account i acc1 p"
  note P = put_account_same [OF ok assms(2) same]
  have p0: "pool_inv ?p0" using P assms(1) by (simp add: pool_inv_def)
  have key: "aq_keyID q1 = k" using q(2) by (simp add: q1)
  have at0: "queue_at ?p0 i (aq_keyID q1) = Some q" using P(3) at key by simp
  have p1: "pool_accs p1 = pool_accs (put_queue i q1 ?p0)"
      "pool_gauge p1 = gauge_decrease (slotsRequired pruned) (pool_gauge ?p0)"
  proof -
    have same_accs: "length pruned = 0 \<Longrightarrow> pool_accs (put_queue i q1 p) = pool_accs (put_queue i q1 ?p0)"
      using ps_put_same [OF _ assms(2)] ok by (intro put_queue_accs_cong) (simp add: acc1_def accs_ok_def)
    show "pool_accs p1 = pool_accs (put_queue i q1 ?p0)"
      using assms(4) pr q1 same_accs put_queue_accs_cong [of "put_account i acc1 (pool_cleanup pruned p)" ?p0 i q1]
      by (auto simp: prune_promoted_def Let_def acc1_def pool_cleanup_def deleteInSortedAccounts_def split: if_splits)
    show "pool_gauge p1 = gauge_decrease (slotsRequired pruned) (pool_gauge ?p0)"
      using assms(4) pr by (auto simp: prune_promoted_def Let_def pool_cleanup_def split: if_splits)
  qed
  have "pool_inv p1"
    using pool_inv_shrink [OF p0 at0 ok1 all, of "pool_gauge p1"] p1 by (simp add: pool_inv_def)
  moreover have "queue_at p1 i k = Some q1"
  proof -
    have "queue_at (put_queue i q1 ?p0) i k = Some q1"
      using put_queue_spec(3) [OF P(1) at0 ok1] key by simp
    then show ?thesis using p1(1) by (simp add: getAccountQueue_def getAccount_def)
  qed
  ultimately show ?thesis using S by (simp add: q1)
qed

lemma prune_enqueued_spec:
  assumes "pool_inv p" and "queue_at p i k = Some q" and "aq_nextSequenceID q < latest"
    and "\<forall>x \<in> set (aq_promoted q). latest \<le> ix_SequenceID x" and "prune_enqueued i latest q p = (q1, p1)"
  shows "pool_inv p1 \<and> queue_at p1 i k = Some q1"
proof -
  obtain pruned enq where pr: "q_prune latest (aq_enqueued q) = (pruned, enq)" by fastforce
  have ok: "accs_ok (pool_accs p)" using assms(1) by (simp add: pool_inv_def)
  note q = queue_at_ok [OF ok assms(2)]
  then have inv: "aq_inv q" by (simp add: queue_ok_def)
  note S = q_prune_spec [OF aq_invD(1) [OF inv] pr]
  have q1: "q1 = q\<lparr>aq_enqueued := enq, aq_sequenceIDToIX := seqmap_remove pruned (aq_sequenceIDToIX q),
      aq_nextSequenceID := latest\<rparr>"
    using assms(5) pr by (simp add: prune_enqueued_def Let_def setSequenceID_def)
  have all: "q_all q = q_all q1 + mset pruned" using S by (simp add: q1 q_all_def add_ac)
  have "x \<notin> set (aq_promoted q)" for x
    using assms(3,4) aq_invD(5) [OF inv, of x] by (meson leD less_trans)
  then have empty: "aq_promoted q = []" by (cases "aq_promoted q") auto
  have "aq_inv (q\<lparr>aq_enqueued := enq, aq_promoted := aq_promoted q,
      aq_sequenceIDToIX := seqmap_remove pruned (aq_sequenceIDToIX q), aq_nextSequenceID := latest\<rparr>)"
    using S aq_invD(2) [OF inv] all by (intro aq_inv_remove [OF inv]) (auto simp: q1 q_all_def empty)
  then have inv1: "aq_inv q1" by (simp add: q1)
  note ok1 = queue_ok_remove [OF q(1) inv1 all]
  have key: "aq_keyID q1 = k" using q(2) by (simp add: q1)
  have at: "queue_at p i (aq_keyID q1) = Some q" using assms(2) key by simp
  have p1: "pool_accs p1 = pool_accs (put_queue i q1 p)" "pool_gauge p1 = gauge_decrease (slotsRequired pruned) (pool_gauge p)"
    using assms(5) pr q1 put_queue_accs_cong [of "pool_cleanup pruned p" p i q1]
    by (auto simp: prune_enqueued_def Let_def setSequenceID_def pool_cleanup_def split: if_splits)
  have "pool_inv p1" using pool_inv_shrink [OF assms(1) at ok1 all, of "pool_gauge p1"] p1 by (simp add: pool_inv_def)
  moreover have "queue_at p1 i k = Some q1"
    using put_queue_spec(3) [OF ok at ok1] key p1(1) by (simp add: getAccountQueue_def getAccount_def)
  ultimately show ?thesis by simp
qed

lemma pool_inv_reset_one:
  assumes "reset_one env ix (done, p) = Some (done', p')" and "pool_inv p"
  shows "pool_inv p'"
proof (cases "ix_SenderID ix \<in> done \<or> getAccount (pool_accounts p) (ix_SenderID ix) = None")
  case True
  with assms show ?thesis by (auto simp: reset_one_def Let_def split: if_splits option.splits)
next
  case False
  let ?i = "ix_SenderID ix" and ?k = "ix_SenderKeyID ix"
  let ?latest = "case sm_GetSequenceID env ?i ?k of (n, failed) \<Rightarrow> if failed then ix_SequenceID ix + 1 else n"
  obtain acc where acc: "getAccount (pool_accounts p) ?i = Some acc" using False by auto
  obtain q where q: "acc_get acc ?k = Some q"
    using assms(1) False acc by (auto simp: reset_one_def Let_def bind_eq_Some_conv split: if_splits)
  obtain q1 p1 where p1: "prune_promoted env ?i ?latest acc q p = (q1, p1)" by fastforce
  have "map_of (pool_accs p) ?i = Some acc" using acc by (simp add: getAccount_def)
  note P1 = prune_promoted_spec [OF assms(2) this q p1]
  show ?thesis
  proof (cases "?latest \<le> getSequenceID q1")
    case True
    with assms(1) False acc q p1 have "p' = p1" by (simp add: reset_one_def Let_def split: prod.splits if_splits)
    with P1 show ?thesis by simp
  next
    case gt: False
    obtain q2 p2 where p2: "prune_enqueued ?i ?latest q1 p1 = (q2, p2)" by fastforce
    have "pool_inv p2 \<and> queue_at p2 ?i ?k = Some q2"
      using P1 gt p2 by (intro prune_enqueued_spec [of p1 ?i ?k q1]) (auto simp: getSequenceID_def not_le)
    then have P2: "pool_inv p2" "queue_at p2 ?i (aq_keyID q2) = Some q2"
      using queue_at_ok(2) [of p2 ?i ?k q2] by (auto simp: pool_inv_def)
    have "p' = p2 \<or> handlePromoteRequest env ?i q2 p2 = Some p'"
      using assms(1) False acc q p1 p2 gt
      by (auto simp: reset_one_def Let_def bind_eq_Some_conv split: prod.splits if_splits option.splits)
    then show ?thesis using P2 pool_inv_promote by blast
  qed
qed

lemma pool_inv_reset [inv_intros]:
  assumes "ResetWithHeaders env ixs delta p = Some p'" and "pool_inv p"
  shows "pool_inv p'"
proof (cases "ixs = []")
  case True
  with assms show ?thesis by (simp add: ResetWithHeaders_def)
next
  case False
  define p1 where "p1 = p\<lparr>pool_allIxs := lookup_remove ixs (pool_allIxs p), pool_consensusNodesHash := fold (\<lambda>(addr, changed) c.
    if \<not> IsParticipantVariant addr \<and> changed then c(addr := None) else c) delta (pool_consensusNodesHash p)\<rparr>"
  obtain d where p1: "same_queues p p1" "foldM (reset_one env) ixs ({}, p1) = Some (d, p')"
    using assms(1) False by (auto simp: ResetWithHeaders_def Let_def bind_eq_Some_conv same_queues_def p1_def)
  have "pool_inv (snd ({} :: Identifier set, p1))" using p1(1) assms(2) same_queues_inv by simp
  then have "pool_inv (snd (d, p'))"
  proof (rule foldM_invariant [OF p1(2), where P = "\<lambda>s. pool_inv (snd s)"])
    show "\<And>x s s'. pool_inv (snd s) \<Longrightarrow> reset_one env x s = Some s' \<Longrightarrow> pool_inv (snd s')"
      by (metis pool_inv_reset_one prod.collapse)
  qed
  then show ?thesis by simp
qed

lemma unat_slots_le: "ix_size ix \<le> IxMaxSize \<Longrightarrow> unat (ix_slots ix) \<le> 128"
proof -
  assume "ix_size ix \<le> IxMaxSize"
  then have le: "unat (ix_size ix) \<le> 131072" by (simp add: word_le_nat_alt)
  have "unat (1023 + ix_size ix) = 1023 + unat (ix_size ix)"
    using le by (subst unat_add_lem [THEN iffD1]) simp_all
  then have "unat (ix_slots ix) = (1023 + unat (ix_size ix)) div 1024"
    by (simp add: ix_slots_def unat_div)
  with le show ?thesis by simp
qed

lemma claim_slots_ok:
  assumes "gauge_ok g M" and "claim_slots old ix g m = Inr (g', m')" and "ix_size ix \<le> IxMaxSize"
    and "M' + (case old of None \<Rightarrow> {#} | Some o' \<Rightarrow> {#o'#}) = add_mset ix M"
    and "\<And>o'. old = Some o' \<Longrightarrow> o' \<in># M"
  shows "gauge_ok g' M'"
proof -
  define f where "f = (case old of None \<Rightarrow> 0 | Some o' \<Rightarrow> ix_slots o')"
  let ?a = "ix_slots ix"
  have req: "slotsRequired [ix] = ?a" "(case old of None \<Rightarrow> 0 | Some o' \<Rightarrow> slotsRequired [o']) = f"
    by (simp_all add: slotsRequired_sum f_def split: option.splits)
  have n: "nslots M' + unat f = nslots M + unat ?a"
    using arg_cong [OF assms(4), of nslots] by (auto simp: f_def split: option.splits)
  have total: "unat (gauge_total g) = nslots M" "nslots M \<le> unat (gauge_max g)" "unat (gauge_max g) + 128 < 2 ^ 64"
    using assms(1) by (simp_all add: gauge_ok_def)
  have f: "unat f \<le> nslots M"
    using assms(5) by (cases old) (auto simp: f_def dest!: multi_member_split)
  show ?thesis
  proof (cases "?a > f")
    case True
    have g': "g' = g\<lparr>gauge_total := gauge_total g + (?a - f)\<rparr>" "gauge_total g + (?a - f) \<le> gauge_max g"
      using assms(2) True req
      by (auto simp: claim_slots_def increaseWithinLimit_def Let_def not_less split: if_splits prod.splits)
    have d: "unat (?a - f) = unat ?a - unat f" using True by (simp add: unat_sub less_imp_le)
    have "unat (gauge_total g) + unat (?a - f) < 2 ^ 64"
      using d total unat_slots_le [OF assms(3)] by linarith
    then have sum: "unat (gauge_total g + (?a - f)) = unat (gauge_total g) + unat (?a - f)"
      by (subst unat_add_lem [THEN iffD1]) simp_all
    have "nslots M' = unat (gauge_total g + (?a - f))"
      using sum d n total(1) True by (simp add: word_less_nat_alt)
    then show ?thesis using g' total by (simp add: gauge_ok_def word_le_nat_alt)
  next
    case False
    then have g': "g' = g\<lparr>gauge_total := gauge_total g - (f - ?a)\<rparr>"
      using assms(2) req
      by (cases "f > ?a") (auto simp: claim_slots_def Let_def gauge_decrease_eq not_less split: if_splits prod.splits)
    have d: "unat (f - ?a) = unat f - unat ?a" using False by (simp add: unat_sub not_less)
    then have "f - ?a \<le> gauge_total g" using f total(1) by (simp add: word_le_nat_alt)
    then have "unat (gauge_total g - (f - ?a)) = nslots M - (unat f - unat ?a)"
      using d total(1) by (simp add: unat_sub)
    then have "unat (gauge_total g - (f - ?a)) = nslots M'"
      using n f False by (simp add: word_less_nat_alt)
    then show ?thesis using g' total n False by (simp add: gauge_ok_def word_less_nat_alt)
  qed
qed

lemma aq_inv_new [simp]: "aq_inv (new_queue k n)"
  by (simp add: new_queue_def aq_inv_def)

lemma getOrCreate_spec:
  assumes "pool_inv p"
  shows "pool_inv (getOrCreateAccountQueue env i k s p)"
    and "\<exists>q. queue_at (getOrCreateAccountQueue env i k s p) i k = Some q"
    and "pool_ixns (getOrCreateAccountQueue env i k s p) = pool_ixns p"
proof -
  let ?p = "getOrCreateAccountQueue env i k s p"
  have "pool_inv ?p \<and> (\<exists>q. queue_at ?p i k = Some q) \<and> pool_ixns ?p = pool_ixns p"
  proof (cases "queue_at p i k")
    case (Some q)
    with assms show ?thesis by (simp add: getOrCreateAccountQueue_def)
  next
    case None
    define q where "q = new_queue k (case sm_GetSequenceID env i k of (n, failed) \<Rightarrow> if failed then s else n)"
    have q: "queue_ok q" "q_all q = {#}" "aq_keyID q = k"
      by (simp_all add: q_def queue_ok_def) (simp_all add: q_all_def new_queue_def)
    have ok: "accs_ok (pool_accs p)" using assms by (simp add: pool_inv_def)
    show ?thesis
    proof (cases "map_of (pool_accs p) i")
      case no_acc: None
      define a where "a = \<lparr>acc_accountQueues = [q], acc_requestTime = env_now env, acc_waitTime = env_now env, acc_delayCounter = 0\<rparr>"
      have p: "?p = put_account i a p"
        using None no_acc by (simp add: getOrCreateAccountQueue_def q_def [symmetric] a_def getAccount_def)
      have a: "account_ok a" "acc_ixns a = {#}" "acc_get a k = Some q"
        using q by (simp_all add: a_def account_ok_def acc_ixns_def acc_get_def)
      then show ?thesis
        using assms accs_ok_put [OF ok a(1)] accs_ixns_new [OF no_acc, of a]
        by (simp add: p pool_inv_def queue_at_eq)
    next
      case (Some acc)
      define a where "a = sortAccountQueues (acc\<lparr>acc_accountQueues := acc_accountQueues acc @ [q]\<rparr>)"
      have p: "?p = put_account i a p"
        using None Some by (simp add: getOrCreateAccountQueue_def q_def [symmetric] a_def getAccount_def)
      have ms: "mset (acc_accountQueues a) = add_mset q (mset (acc_accountQueues acc))"
        by (simp add: a_def sortAccountQueues_def)
      have none: "acc_get acc k = None" using None Some by (simp add: getAccountQueue_def getAccount_def)
      note acc_ok = accs_okD [OF ok Some]
      have "mset (map aq_keyID (acc_accountQueues a)) = mset (map aq_keyID (q # acc_accountQueues acc))" using ms by simp
      then have "distinct (map aq_keyID (acc_accountQueues a)) \<longleftrightarrow> distinct (map aq_keyID (q # acc_accountQueues acc))"
        by (rule mset_eq_imp_distinct_iff)
      then have "distinct (map aq_keyID (acc_accountQueues a))"
        using acc_ok none q(3) by (auto simp: account_ok_def acc_get_def find_None_iff)
      moreover have set: "set (acc_accountQueues a) = insert q (set (acc_accountQueues acc))"
        using arg_cong [OF ms, of set_mset] by simp
      ultimately have a_ok: "account_ok a" using acc_ok q(1) by (simp add: account_ok_def)
      have "acc_ixns a = acc_ixns acc"
        using arg_cong [OF ms, of "\<lambda>M. \<Sum>q \<in># M. q_all q"] q(2)
        by (simp add: acc_ixns_def flip: sum_mset_sum_list)
      then have ixns: "pool_ixns ?p = pool_ixns p"
        using accs_ixns_put [OF _ Some, of a] ok by (simp add: p accs_ok_def)
      have "acc_get a k \<noteq> None" using set q(3) by (auto simp: acc_get_def find_None_iff)
      then have "\<exists>q. queue_at ?p i k = Some q" by (auto simp: p queue_at_eq)
      then show ?thesis using assms accs_ok_put [OF ok a_ok] ixns by (simp add: p pool_inv_def)
    qed
  qed
  then show "pool_inv ?p" "\<exists>q. queue_at ?p i k = Some q" "pool_ixns ?p = pool_ixns p" by blast+
qed

text \<open>Enqueueing, with the replacement flag of \<^verbatim>\<open>validateAndEnqueueIx\<close>.\<close>

lemma enqueue_queue_ok:
  assumes "queue_ok q" and "ix_SequenceID ix \<noteq> -1" and "ix_size ix \<le> IxMaxSize"
    and "aq_sequenceIDToIX q (ix_SequenceID ix) = None \<Longrightarrow> aq_nextSequenceID q \<le> ix_SequenceID ix"
    and "aq_enqueue ix (aq_sequenceIDToIX q (ix_SequenceID ix) \<noteq> None) q = (r, q1)"
  shows "queue_ok q1 \<and> aq_keyID q1 = aq_keyID q
    \<and> q_all q1 + (case aq_sequenceIDToIX q (ix_SequenceID ix) of None \<Rightarrow> {#} | Some old \<Rightarrow> {#old#}) = add_mset ix (q_all q)"
proof -
  have inv: "aq_inv q" using assms(1) by (simp add: queue_ok_def)
  have *: "aq_inv q1 \<and> q_all q1 + (case aq_sequenceIDToIX q (ix_SequenceID ix) of None \<Rightarrow> {#} | Some old \<Rightarrow> {#old#})
      = add_mset ix (q_all q)"
  proof (cases "aq_sequenceIDToIX q (ix_SequenceID ix)")
    case None
    with aq_enqueue_new [OF inv None assms(4) [OF None]] assms(5) show ?thesis by (simp add: q_all_def)
  next
    case (Some old)
    with aq_enqueue_replace [OF inv Some] assms(5) show ?thesis by (simp add: q_all_def)
  qed
  have "set_mset (q_all q1) \<subseteq> insert ix (set_mset (q_all q))"
    using arg_cong [OF conjunct2 [OF *], of set_mset] by auto
  then have "queue_ok q1" using * assms(1-3) by (auto simp: queue_ok_def)
  moreover have "aq_keyID q1 = aq_keyID q" using aq_enqueue_frame(1) [of ix _ q] assms(5) by (metis snd_conv)
  ultimately show ?thesis using * by blast
qed

lemma pool_inv_enqueue:
  assumes "accs_ok (pool_accs p)" and "map_of (pool_accs p) (ix_SenderID ix) = Some acc"
    and "acc_get acc (ix_SenderKeyID ix) = Some q" and "gauge_ok (pool_gauge p0) (pool_ixns p)"
    and "pool_accs p0 = pool_accs p" and "ix_SequenceID ix \<noteq> -1" and "ix_size ix \<le> IxMaxSize"
    and "aq_sequenceIDToIX q (ix_SequenceID ix) = None \<Longrightarrow> aq_nextSequenceID q \<le> ix_SequenceID ix"
    and "claim_slots (aq_sequenceIDToIX q (ix_SequenceID ix)) ix (pool_gauge p0) m = Inr (g, m')"
    and "enqueue_claimed env ix acc q (p0\<lparr>pool_gauge := g, pool_allIxs := m', pool_allotted := al\<rparr>) = Some p'"
  shows "pool_inv p'"
proof -
  let ?i = "ix_SenderID ix" and ?old = "aq_sequenceIDToIX q (ix_SequenceID ix)"
  define acc1 where "acc1 = (if acc_delayCounter acc \<ge> MaxWaitCounter \<and> env_now env > acc_waitTime acc
     then resetWaitTimeAndCounter (env_now env) acc else acc)"
  obtain r q1 where enq: "aq_enqueue ix (?old \<noteq> None) q = (r, q1)" by fastforce
  let ?p1 = "p0\<lparr>pool_gauge := g, pool_allIxs := m', pool_allotted := al\<rparr>"
  let ?pa = "put_account ?i acc1 ?p1" and ?pb = "put_queue ?i q1 (put_account ?i acc1 ?p1)"
  have at: "queue_at p ?i (ix_SenderKeyID ix) = Some q" using assms(2,3) queue_at_eq by blast
  note q = queue_at_ok [OF assms(1) at]
  note E = enqueue_queue_ok [OF q(1) assms(6-8) enq]
  have accs: "pool_accs ?p1 = pool_accs p" using assms(5) by simp
  have "acc_accountQueues acc1 = acc_accountQueues acc" by (simp add: acc1_def resetWaitTimeAndCounter_def)
  note A = put_account_same [of ?p1, unfolded accs, OF assms(1,2) this]
  have ata: "queue_at ?pa ?i (aq_keyID q1) = Some q"
    using A(3) [of ?i "ix_SenderKeyID ix"] at q(2) E accs by (simp add: getAccountQueue_def getAccount_def)
  have q1: "queue_ok q1" using E by blast
  note B = put_queue_spec [OF A(1) ata q1]
  have "pool_ixns ?pb + (case ?old of None \<Rightarrow> {#} | Some o' \<Rightarrow> {#o'#}) + q_all q = add_mset ix (pool_ixns p) + q_all q"
    using B(2) A(2) E by (metis (no_types, lifting) add.commute add.left_commute add_mset_add_single)
  then have ixns: "pool_ixns ?pb + (case ?old of None \<Rightarrow> {#} | Some o' \<Rightarrow> {#o'#}) = add_mset ix (pool_ixns p)"
    by (rule add_right_imp_eq)
  have mem: "o' \<in># pool_ixns p" if "?old = Some o'" for o'
  proof -
    have "o' \<in># q_all q"
      using aq_invD(4) [of q "ix_SequenceID ix" o'] q(1) that by (auto simp: queue_ok_def q_all_def)
    with queue_ixns_subset [OF assms(1) at] show ?thesis by (meson mset_subset_eqD)
  qed
  have "gauge_ok g (pool_ixns ?pb)" by (rule claim_slots_ok [OF assms(4,9,7) ixns mem])
  then have inv: "pool_inv ?pb" using B(1) by (simp add: pool_inv_def)
  define pb where "pb = ?pb"
  have "Option.bind (if r then allocateView env (pool_view pb + 1) [ix] pb else Some pb)
      (\<lambda>p2. if ix_SequenceID ix = getSequenceID q1 then handlePromoteRequest env ?i q1 (loadConsensusNodesHash env ix p2)
        else Some (loadConsensusNodesHash env ix p2)) = Some p'"
    using assms(10) unfolding enqueue_claimed_def Let_def enq prod.case acc1_def pb_def .
  then obtain p2 where p2: "(if r then allocateView env (pool_view pb + 1) [ix] pb else Some pb) = Some p2"
      "(if ix_SequenceID ix = getSequenceID q1 then handlePromoteRequest env ?i q1 (loadConsensusNodesHash env ix p2)
        else Some (loadConsensusNodesHash env ix p2)) = Some p'"
    unfolding bind_eq_Some_conv by blast
  have "same_queues ?pb p2" using p2(1) by (cases r) (auto simp: pb_def intro: same_queues_allocate same_queues_refl)
  let ?p3 = "loadConsensusNodesHash env ix p2"
  have fr: "same_queues ?pb ?p3" using \<open>same_queues ?pb p2\<close> same_queues_load by (rule same_queues_trans)
  have "pool_inv ?p3" "queue_at ?p3 ?i (aq_keyID q1) = Some q1"
    using same_queues_inv [OF fr] same_queues_at [OF fr] inv B(3) by simp_all
  then show ?thesis using p2(2) pool_inv_promote by (auto split: if_splits)
qed

lemma validateIx_size: "validateIx env limit ix = Some None \<Longrightarrow> ix_size ix \<le> IxMaxSize"
  by (auto simp: validateIx_def not_less split: if_splits)

lemma pool_inv_add [inv_intros]:
  assumes "pool_inv p" and "ix_SequenceID ix \<noteq> -1" and "validateAndEnqueueIx env limit ix p = Some (err, p')"
  shows "pool_inv p'"
proof -
  let ?i = "ix_SenderID ix" and ?k = "ix_SenderKeyID ix"
  define p1 where "p1 = getOrCreateAccountQueue env ?i ?k (ix_SequenceID ix) p"
  note G = getOrCreate_spec [OF assms(1), of env ?i ?k "ix_SequenceID ix", folded p1_def]
  show ?thesis
  proof (cases "p' = p \<or> p' = p1")
    case True
    then show ?thesis using assms(1) G(1) by blast
  next
    case False
    then obtain acc q g m p2 where *: "validateIx env limit ix = Some None" "getAccount (pool_accounts p1) ?i = Some acc"
        "acc_get acc ?k = Some q" "check_sequence (pool_gauge p1) q ix = None"
        "claim_slots (aq_sequenceIDToIX q (ix_SequenceID ix)) ix (pool_gauge p1) (pool_allIxs p1) = Inr (g, m)"
        "enqueue_claimed env ix acc q (p1\<lparr>pool_gauge := g, pool_allIxs := m,
           pool_allotted := (pool_allotted p1)(ix_hash ix := None)\<rparr>) = Some p'"
      using assms(3)
      by (auto simp: validateAndEnqueueIx_def p1_def [symmetric] Let_def bind_eq_Some_conv split: option.splits sum.splits prod.splits)
    have "aq_nextSequenceID q \<le> ix_SequenceID ix" if "aq_sequenceIDToIX q (ix_SequenceID ix) = None"
      using *(4) that by (auto simp: check_sequence_def getSequenceID_def not_less split: if_splits)
    then show ?thesis
      using G(1) *(2,3) assms(2) validateIx_size [OF *(1)]
      by (intro pool_inv_enqueue [OF _ _ *(3) _ refl _ _ _ *(5,6)]) (auto simp: pool_inv_def getAccount_def)
  qed
qed

lemma queue_at_put_queue:
  assumes "queue_at p i (aq_keyID q') = Some q"
  shows "queue_at (put_queue i q' p) j k = (if j = i \<and> k = aq_keyID q' then Some q' else queue_at p j k)"
proof -
  obtain a where a: "map_of (pool_accs p) i = Some a" "acc_get a (aq_keyID q') = Some q"
    using assms queue_at_eq by blast
  then show ?thesis using acc_get_put [OF a(2)] by (simp add: getAccountQueue_def getAccount_def)
qed

lemma pool_inv_pop [inv_intros]:
  assumes "pool_inv p" and "Pop ix p = Some p'"
  shows "pool_inv p'"
proof -
  obtain q where q1: "queue_at p (ix_SenderID ix) (ix_SenderKeyID ix) = Some q"
    using assms(2) by (auto simp: Pop_def bind_eq_Some_conv)
  obtain popped prom where pop0: "q_pop (aq_promoted q) = (popped, prom)" by fastforce
  then obtain x where "popped = Some x" using assms(2) q1 by (auto simp: Pop_def bind_eq_Some_conv)
  then have q: "queue_at p (ix_SenderID ix) (ix_SenderKeyID ix) = Some q" "q_pop (aq_promoted q) = (Some x, prom)"
      "p' = put_queue (ix_SenderID ix) (q\<lparr>aq_promoted := prom, aq_sequenceIDToIX := seqmap_remove [x] (aq_sequenceIDToIX q)\<rparr>)
        (p\<lparr>pool_gauge := gauge_decrease (slotsRequired [x]) (pool_gauge p)\<rparr>)"
    using assms(2) q1 pop0 by (simp_all add: Pop_def)
  have ok: "accs_ok (pool_accs p)" using assms(1) by (simp add: pool_inv_def)
  note Q = queue_at_ok [OF ok q(1)]
  then have inv: "aq_inv q" by (simp add: queue_ok_def)
  have "aq_promoted q \<noteq> []" using q(2) by auto
  then obtain y where y: "q_peek (aq_promoted q) = Some y" by (metis q_peek_None not_Some_eq)
  have pop: "sq.heap prom \<and> mset (aq_promoted q) = add_mset x (mset prom)"
    by (rule q_pop_peek [OF aq_invD(2) [OF inv] y]) (use q(2) in auto)
  let ?q = "q\<lparr>aq_promoted := prom, aq_sequenceIDToIX := seqmap_remove [x] (aq_sequenceIDToIX q)\<rparr>"
  have all: "q_all q = q_all ?q + mset [x]" using pop by (simp add: q_all_def)
  have sub: "set prom \<subseteq> set (aq_promoted q)" using mset_insert_set [OF conjunct2 [OF pop]] by blast
  have "aq_inv (q\<lparr>aq_enqueued := aq_enqueued q, aq_promoted := prom,
      aq_sequenceIDToIX := seqmap_remove [x] (aq_sequenceIDToIX q), aq_nextSequenceID := aq_nextSequenceID q\<rparr>)"
    using pop aq_invD [OF inv] sub all by (intro aq_inv_remove [OF inv]) (auto simp: q_all_def)
  then have "aq_inv ?q" by simp
  note ok' = queue_ok_remove [OF Q(1) this all]
  have "queue_at p (ix_SenderID ix) (aq_keyID ?q) = Some q" using q(1) Q(2) by simp
  from pool_inv_shrink [OF assms(1) this ok' all refl] show ?thesis
    using put_queue_accs_cong [of "p\<lparr>pool_gauge := gauge_decrease (slotsRequired [x]) (pool_gauge p)\<rparr>" p "ix_SenderID ix" ?q]
    by (simp add: q(3) pool_inv_def)
qed

lemma pool_inv_drop [inv_intros]: "pool_inv p \<Longrightarrow> pool_inv (Drop env ix p)"
proof (cases "queue_at p (ix_SenderID ix) (ix_SenderKeyID ix)")
  case None
  assume "pool_inv p"
  with None show ?thesis by (simp add: Drop_def)
next
  case (Some q)
  assume p: "pool_inv p"
  then have ok: "accs_ok (pool_accs p)" by (simp add: pool_inv_def)
  note Q = queue_at_ok [OF ok Some]
  let ?q = "(setSequenceID (ix_SequenceID ix) q)\<lparr>aq_sequenceIDToIX := Map.empty, aq_promoted := [], aq_enqueued := []\<rparr>"
  let ?l = "aq_promoted q @ aq_enqueued q"
  have ok': "queue_ok ?q" by (simp add: queue_ok_def aq_inv_def q_all_def setSequenceID_def)
  have all: "q_all q = q_all ?q + mset ?l" by (simp add: q_all_def add.commute)
  have at: "queue_at p (ix_SenderID ix) (aq_keyID ?q) = Some q" using Some Q(2) by (simp add: setSequenceID_def)
  let ?p = "pool_cleanup (aq_enqueued q) (pool_cleanup (aq_promoted q) p)"
  have g: "pool_gauge ?p = gauge_decrease (slotsRequired ?l) (pool_gauge p)"
    by (simp add: pool_cleanup_def gauge_decrease_eq slotsRequired_mset diff_diff_eq)
  have "pool_accs (put_queue (ix_SenderID ix) ?q ?p) = pool_accs (put_queue (ix_SenderID ix) ?q p)"
    by (intro put_queue_accs_cong) (simp add: pool_cleanup_def)
  then have "pool_inv (put_queue (ix_SenderID ix) ?q ?p)"
    using pool_inv_shrink [OF p at ok' all g] by (simp add: pool_inv_def)
  then show ?thesis using p Some by (simp add: Drop_def q_clear_def Let_def)
qed

lemma pool_inv_wait [inv_intros]: "pool_inv p \<Longrightarrow> pool_inv (snd (IncrementWaitTime env timeout i p))"
proof (cases "getAccount (pool_accounts p) i")
  case None
  assume "pool_inv p"
  with None show ?thesis by (simp add: IncrementWaitTime_def)
next
  case (Some acc)
  assume p: "pool_inv p"
  let ?b = "if int32 (acc_delayCounter acc + 1) \<le> MaxWaitCounter then incrementCounter (env_now env) timeout acc
    else resetWaitTimeAndCounter (env_now env) acc"
  have "acc_accountQueues ?b = acc_accountQueues acc"
    by (simp add: incrementCounter_def resetWaitTimeAndCounter_def Let_def)
  from put_account_same [OF _ _ this, of p i] p Some show ?thesis
    by (simp add: IncrementWaitTime_def pool_inv_def getAccount_def)
qed

lemma find_key: "distinct (map f l) \<Longrightarrow> x \<in> set l \<Longrightarrow> find (\<lambda>y. f y = f x) l = Some x"
  by (induction l) auto

text \<open>Pruning the accounts whose enqueued interactions start behind a gap.\<close>

lemma clear_hole_spec:
  assumes "pool_inv p" and "queue_at p i (aq_keyID q) = Some q"
  shows "pool_inv (clear_hole i q p)"
    and "(j, k) \<noteq> (i, aq_keyID q) \<Longrightarrow> queue_at (clear_hole i q p) j k = queue_at p j k"
proof -
  have ok: "accs_ok (pool_accs p)" using assms(1) by (simp add: pool_inv_def)
  note Q = queue_at_ok(1) [OF ok assms(2)]
  then have inv: "aq_inv q" by (simp add: queue_ok_def)
  let ?q = "q\<lparr>aq_enqueued := [], aq_sequenceIDToIX := seqmap_remove (aq_enqueued q) (aq_sequenceIDToIX q)\<rparr>"
  have all: "q_all q = q_all ?q + mset (aq_enqueued q)" by (simp add: q_all_def add.commute)
  have "aq_inv (q\<lparr>aq_enqueued := [], aq_promoted := aq_promoted q,
      aq_sequenceIDToIX := seqmap_remove (aq_enqueued q) (aq_sequenceIDToIX q), aq_nextSequenceID := aq_nextSequenceID q\<rparr>)"
    using aq_invD [OF inv] by (intro aq_inv_remove [OF inv]) (auto simp: q_all_def)
  then have "aq_inv ?q" by simp
  note ok' = queue_ok_remove [OF Q this all]
  have at: "queue_at p i (aq_keyID ?q) = Some q" using assms(2) by simp
  let ?p = "pool_cleanup (aq_enqueued q) p"
  have "pool_accs (put_queue i ?q ?p) = pool_accs (put_queue i ?q p)"
    by (intro put_queue_accs_cong) (simp add: pool_cleanup_def)
  then have P: "pool_inv (put_queue i ?q ?p)"
    using pool_inv_shrink [OF assms(1) at ok' all refl] by (simp add: pool_inv_def pool_cleanup_def)
  have eq: "clear_hole i q p = p \<or> clear_hole i q p = put_queue i ?q ?p"
    by (simp add: clear_hole_def q_clear_def Let_def split: option.splits)
  show "pool_inv (clear_hole i q p)" using eq P assms(1) by auto
  have "queue_at ?p i (aq_keyID ?q) = Some q" using at by (simp add: pool_cleanup_def)
  from queue_at_put_queue [OF this, of j k] eq
  show "queue_at (clear_hole i q p) j k = queue_at p j k" if "(j, k) \<noteq> (i, aq_keyID q)"
    using that by (auto simp: pool_cleanup_def)
qed

lemma pool_inv_holes [inv_intros]: "pool_inv p \<Longrightarrow> pool_inv (removeSequenceIDHoleAccounts p)"
proof -
  assume p: "pool_inv p"
  let ?L = "\<lambda>A. concat (map (\<lambda>(i, a). map (Pair i) (acc_accountQueues a)) A)"
  have flat: "fold (\<lambda>(i, acc). fold (clear_hole i) (acc_accountQueues acc)) A p
      = fold (\<lambda>(i, q). clear_hole i q) (?L A) p" for A p
    by (induction A arbitrary: p) (auto simp: fold_map o_def)
  have run: "pool_inv (fold (\<lambda>(i, q). clear_hole i q) L p)"
    if "pool_inv p" "distinct (map (\<lambda>(i, q). (i, aq_keyID q)) L)" "\<forall>(i, q) \<in> set L. queue_at p i (aq_keyID q) = Some q" for L p
    using that
  proof (induction L arbitrary: p)
    case Nil
    then show ?case by simp
  next
    case (Cons x L)
    obtain i q where x: "x = (i, q)" by fastforce
    have at: "queue_at p i (aq_keyID q) = Some q" using Cons.prems(3) by (simp add: x)
    have "\<forall>(j, r) \<in> set L. queue_at (clear_hole i q p) j (aq_keyID r) = Some r"
    proof clarify
      fix j r assume jr: "(j, r) \<in> set L"
      then have "(j, aq_keyID r) \<in> set (map (\<lambda>(i, q). (i, aq_keyID q)) L)" by force
      then have "(j, aq_keyID r) \<noteq> (i, aq_keyID q)" using Cons.prems(2) by (auto simp: x)
      then show "queue_at (clear_hole i q p) j (aq_keyID r) = Some r"
        using clear_hole_spec(2) [OF Cons.prems(1) at] Cons.prems(3) jr by auto
    qed
    then show ?case using Cons clear_hole_spec(1) [OF Cons.prems(1) at] by (simp add: x)
  qed
  have ok: "accs_ok (pool_accs p)" using p by (simp add: pool_inv_def)
  have dist: "distinct (map (\<lambda>(i, q). (i, aq_keyID q)) (?L A))" if "accs_ok A" for A
    using that
  proof (induction A)
    case Nil
    then show ?case by simp
  next
    case (Cons x A)
    obtain i a where x: "x = (i, a)" by fastforce
    have "accs_ok A" "account_ok a" "i \<notin> fst ` set A" using Cons.prems by (auto simp: x accs_ok_def)
    moreover have "j \<in> fst ` set A" if "(j, k) \<in> set (map (\<lambda>(i, q). (i, aq_keyID q)) (?L A))" for j k
      using that by force
    moreover have "distinct (map (\<lambda>q. (i, aq_keyID q)) (acc_accountQueues a))"
      using \<open>account_ok a\<close> by (auto simp: account_ok_def distinct_map inj_on_def)
    moreover have "(i, b) \<notin> set A" for b using \<open>i \<notin> fst ` set A\<close> by force
    ultimately show ?case using Cons.IH by (auto simp: x o_def)
  qed
  have "queue_at p i (aq_keyID q) = Some q" if mem: "(i, q) \<in> set (?L (pool_accs p))" for i q
  proof -
    obtain a where a: "(i, a) \<in> set (pool_accs p)" "q \<in> set (acc_accountQueues a)" using mem by auto
    then have "map_of (pool_accs p) i = Some a" "distinct (map aq_keyID (acc_accountQueues a))"
      using ok by (auto simp: accs_ok_def account_ok_def)
    moreover from this(2) a(2) have "acc_get a (aq_keyID q) = Some q" unfolding acc_get_def by (rule find_key)
    ultimately show ?thesis using queue_at_eq by blast
  qed
  then have "\<forall>(i, q) \<in> set (?L (pool_accs p)). queue_at p i (aq_keyID q) = Some q" by blast
  from run [OF p dist [OF ok] this] show ?thesis unfolding removeSequenceIDHoleAccounts_def flat .
qed

end
