(* ===== verification/Ix_Proposal_Inv.thy ===== *)
theory Ix_Proposal_Inv
  imports Ix_Pool_Inv Ix_Proposal
begin

text \<open>
  The proposal step on the pool: what \<^verbatim>\<open>isEligibleForProposal\<close> and \<^verbatim>\<open>ProcessableBatches\<close> leave of the
  account queues, the states the pool reaches through its operations, and the properties that hold in
  all of them.
\<close>

section \<open>Proposals\<close>

text \<open>What the eligibility check and the loop over one queue leave alone.\<close>

definition proposal_frame :: "BatchProposal \<Rightarrow> BatchProposal \<Rightarrow> bool" where
  "proposal_frame s s' \<longleftrightarrow> same_queues (pr_pool s) (pr_pool s')
     \<and> (registry_reachable (pr_registry s) \<longrightarrow> registry_reachable (pr_registry s'))
     \<and> br_batches (pr_registry s') = br_batches (pr_registry s)"

lemma proposal_frame_refl [frames]: "proposal_frame s s"
  by (simp add: proposal_frame_def same_queues_refl)

lemma proposal_frame_trans: "proposal_frame s t \<Longrightarrow> proposal_frame t u \<Longrightarrow> proposal_frame s u"
  using same_queues_trans by (auto simp: proposal_frame_def)

lemma proposal_frame_pool:
  "same_queues (pr_pool s) p \<Longrightarrow> proposal_frame s (s\<lparr>pr_pool := p\<rparr>)"
  by (simp add: proposal_frame_def)

lemma proposal_frame_scan [frames]: "proposal_frame s (snd (eligible_scan env leader existing ps n s))"
proof (induction ps arbitrary: n s)
  case Nil
  show ?case by (simp add: proposal_frame_refl)
next
  case (Cons x ps)
  obtain ident info where x [simp]: "x = (ident, info)" by fastforce
  show ?case
  proof (cases "not_locked info \<or> pr_participantToAcquirer s (info_ID info) \<noteq> None")
    case True
    with Cons.IH show ?thesis by (auto simp: proposal_frame_refl split: option.splits)
  next
    case False
    obtain h p where h: "getConsensusNodesHash env (info_ID info) (pr_pool s) = (h, p)" by fastforce
    then have fr: "same_queues (pr_pool s) p" using same_queues_node_hash [of "pr_pool s" env "info_ID info"] by simp
    show ?thesis
    proof (cases h)
      case None
      with False h fr show ?thesis by (simp add: proposal_frame_pool)
    next
      case (Some hash)
      let ?t = "s\<lparr>pr_pool := p, pr_registry := addConsensusNodesHash (info_ID info) hash (pr_registry s)\<rparr>"
      have "proposal_frame s ?t"
        using fr by (auto simp: proposal_frame_def addConsensusNodesHash_def intro: registry_reachable.hash [unfolded addConsensusNodesHash_def])
      moreover have "proposal_frame ?t (snd (eligible_scan env leader existing ps (if hash \<notin> existing then Suc n else n) ?t))"
        by (rule Cons.IH)
      ultimately have "proposal_frame s (snd (eligible_scan env leader existing ps (if hash \<notin> existing then Suc n else n) ?t))"
        by (rule proposal_frame_trans)
      then show ?thesis using False h Some by simp
    qed
  qed
qed

lemma proposal_frame_acquire [frames]: "proposal_frame s (acquire env leader info s)"
  using same_queues_node_hash [of "pr_pool s" env "info_ID info"]
  by (auto simp: acquire_def proposal_frame_def Let_def split: prod.splits)

lemma proposal_frame_eligible:
  assumes "isEligibleForProposal env ixn s = Some (b, s')"
  shows "proposal_frame s s'"
proof -
  obtain leader where l: "LeaderCandidateAcc ixn = Some leader"
    using assms by (auto simp: isEligibleForProposal_def bind_eq_Some_conv)
  let ?e = "map_default {} (pr_acquirerToConsensusNodeHashes s) leader"
  obtain n s1 where sc: "eligible_scan env leader ?e (ix_ps ixn) 0 s = (n, s1)" by fastforce
  have fr1: "proposal_frame s s1" using proposal_frame_scan [of s env leader ?e "ix_ps ixn" 0] sc by simp
  define s2 where "s2 = (if pr_acquirerToConsensusNodeHashes s1 leader = None
    then s1\<lparr>pr_acquirerToConsensusNodeHashes := (pr_acquirerToConsensusNodeHashes s1)(leader \<mapsto> {})\<rparr> else s1)"
  have "proposal_frame s1 s2" by (simp add: s2_def proposal_frame_def same_queues_refl)
  moreover have "proposal_frame t (fold (\<lambda>(ident, info) s. if not_locked info then s else acquire env leader info s) ps t)" for ps t
  proof (induction ps arbitrary: t)
    case Nil
    then show ?case by (simp add: proposal_frame_refl)
  next
    case (Cons x ps)
    then show ?case using proposal_frame_acquire proposal_frame_trans by (cases x) (auto, blast)
  qed
  ultimately have "proposal_frame s1 (fold (\<lambda>(ident, info) s. if not_locked info then s else acquire env leader info s) (ix_ps ixn) s2)"
    using proposal_frame_trans by blast
  then show ?thesis
    using assms l sc fr1 proposal_frame_trans
    by (auto simp: isEligibleForProposal_def Let_def s2_def [symmetric] split: option.splits if_splits)
qed

lemma propose_queue_spec:
  assumes "propose_queue env l s = Some s'" and "registry_reachable (pr_registry s)"
  shows "same_queues (pr_pool s) (pr_pool s') \<and> registry_reachable (pr_registry s')
    \<and> set_mset (all_ixns (br_batches (pr_registry s'))) \<subseteq> set_mset (all_ixns (br_batches (pr_registry s))) \<union> set l"
  using assms
proof (induction l arbitrary: s)
  case Nil
  then show ?case by (simp add: same_queues_refl)
next
  case (Cons ixn l)
  obtain b s1 where e: "isEligibleForProposal env ixn s = Some (b, s1)"
    using Cons.prems(1) by (auto simp: bind_eq_Some_conv)
  note F = proposal_frame_eligible [OF e, unfolded proposal_frame_def]
  show ?case
  proof (cases "s' = s1")
    case True
    with F Cons.prems(2) show ?thesis by auto
  next
    case False
    then have b: "b" "ShouldPropose (pr_pool s1) ixn" using Cons.prems(1) e by (auto split: if_splits)
    obtain p2 where p2: "(if AllottedView (pr_pool s1) ixn < pool_view (pr_pool s1)
               then allocateView env (pool_view (pr_pool s1)) [ixn] (pr_pool s1) else Some (pr_pool s1)) = Some p2"
      using Cons.prems(1) e b by (auto simp: bind_eq_Some_conv simp del: bind.simps split: if_splits)
    then have fr2: "same_queues (pr_pool s1) p2" by (auto intro: same_queues_allocate same_queues_refl split: if_splits)
    have run: "(if AllottedView p2 ixn > pool_view p2 then Some (s1\<lparr>pr_pool := p2\<rparr>)
          else Option.bind (br_addIx ixn (pr_registry s1)) (\<lambda>(added, r).
            if \<not> added then Some (s1\<lparr>pr_pool := p2, pr_registry := r\<rparr>)
            else propose_queue env l (s1\<lparr>pr_pool := p2, pr_registry := r\<rparr>))) = Some s'"
      using Cons.prems(1) by (simp add: e b p2 Let_def cong: if_cong)
    have fr: "same_queues (pr_pool s) p2" using F fr2 same_queues_trans by blast
    show ?thesis
    proof (cases "AllottedView p2 ixn > pool_view p2")
      case True
      with run F fr Cons.prems(2) show ?thesis by auto
    next
      case ok: False
      have reach: "registry_reachable (pr_registry s1)" using F Cons.prems(2) by blast
      from br_addIx_spec [OF registry_reachable_inv [OF reach], of ixn] obtain added r where
        r: "br_addIx ixn (pr_registry s1) = Some (added, r)"
           "all_ixns (br_batches r) = all_ixns (br_batches (pr_registry s1)) + (if added then {#ixn#} else {#})" by blast
      let ?t = "s1\<lparr>pr_pool := p2, pr_registry := r\<rparr>"
      have rr: "registry_reachable r" using registry_reachable.add [OF reach r(1)] .
      show ?thesis
      proof (cases added)
        case True
        then have "propose_queue env l ?t = Some s'" using run ok r(1) by simp
        from Cons.IH [OF this] rr fr r(2) F True show ?thesis
          using same_queues_trans [OF fr] by auto
      next
        case no: False
        then have "s' = ?t" using run ok r(1) by simp
        with no rr fr r(2) F show ?thesis by auto
      qed
    qed
  qed
qed

lemma propose_queue_total:
  assumes "registry_reachable (pr_registry s)" and "\<forall>x \<in> set l. LeaderCandidateAcc x \<noteq> None"
  shows "\<exists>s'. propose_queue env l s = Some s'"
  using assms
proof (induction l arbitrary: s)
  case Nil
  then show ?case by simp
next
  case (Cons ixn l)
  obtain leader where l: "LeaderCandidateAcc ixn = Some leader" using Cons.prems(2) by auto
  obtain b s1 where e: "isEligibleForProposal env ixn s = Some (b, s1)"
    by (cases "eligible_scan env leader (map_default {} (pr_acquirerToConsensusNodeHashes s) leader) (ix_ps ixn) 0 s";
        cases "fst (eligible_scan env leader (map_default {} (pr_acquirerToConsensusNodeHashes s) leader) (ix_ps ixn) 0 s)")
       (fastforce simp: isEligibleForProposal_def l Let_def split: if_splits)+
  have reach: "registry_reachable (pr_registry s1)"
    using proposal_frame_eligible [OF e] Cons.prems(1) by (simp add: proposal_frame_def)
  from br_addIx_spec [OF registry_reachable_inv [OF reach], of ixn] obtain added r where
    r: "br_addIx ixn (pr_registry s1) = Some (added, r)" by blast
  have rr: "registry_reachable r" using registry_reachable.add [OF reach r] .
  have alloc: "\<exists>p2. allocateView env v [ixn] p = Some p2" for v p
    by (auto simp: allocateView_def allocate_one_def l split: option.splits)
  obtain p2 where p2: "(if AllottedView (pr_pool s1) ixn < pool_view (pr_pool s1)
      then allocateView env (pool_view (pr_pool s1)) [ixn] (pr_pool s1) else Some (pr_pool s1)) = Some p2"
    using alloc by (cases "AllottedView (pr_pool s1) ixn < pool_view (pr_pool s1)") auto
  have "\<exists>s'. propose_queue env l (s1\<lparr>pr_pool := p2, pr_registry := r\<rparr>) = Some s'"
    using Cons.IH [of "s1\<lparr>pr_pool := p2, pr_registry := r\<rparr>"] rr Cons.prems(2) by simp
  then show ?case using r by (simp add: e p2 Let_def)
qed

text \<open>Two queues that differ in the order of the promoted interactions only.\<close>

definition same_content :: "accountQueue \<Rightarrow> accountQueue \<Rightarrow> bool" where
  "same_content q q' \<longleftrightarrow> q'\<lparr>aq_promoted := []\<rparr> = q\<lparr>aq_promoted := []\<rparr> \<and> mset (aq_promoted q') = mset (aq_promoted q)"

definition promoted_ixns :: "IxPool \<Rightarrow> Interaction set" where
  "promoted_ixns p = {ix. \<exists>i k q. queue_at p i k = Some q \<and> ix \<in> set (aq_promoted q)}"

definition proposal_ok :: "IxPool \<Rightarrow> BatchProposal \<Rightarrow> bool" where
  "proposal_ok p0 s \<longleftrightarrow> pool_inv (pr_pool s) \<and> registry_reachable (pr_registry s)
     \<and> (\<forall>i. getAccount (pool_accounts (pr_pool s)) i = None \<longleftrightarrow> getAccount (pool_accounts p0) i = None)
     \<and> (\<forall>i k. rel_option same_content (queue_at p0 i k) (queue_at (pr_pool s) i k))
     \<and> set_mset (all_ixns (br_batches (pr_registry s))) \<subseteq> promoted_ixns p0"

lemma same_content_refl [simp]: "same_content q q"
  by (simp add: same_content_def)

lemma same_contentD:
  assumes "same_content q q'"
  shows "aq_keyID q' = aq_keyID q" and "aq_enqueued q' = aq_enqueued q" and "aq_nextSequenceID q' = aq_nextSequenceID q"
    and "aq_sequenceIDToIX q' = aq_sequenceIDToIX q" and "q_all q' = q_all q" and "set (aq_promoted q') = set (aq_promoted q)"
  using assms by (cases q; cases q'; auto simp: same_content_def q_all_def dest: mset_eq_setD)+

lemma sorted_heap: "sorted (map ix_SequenceID l) \<Longrightarrow> sq.heap l"
proof -
  assume "sorted (map ix_SequenceID l)"
  then have "ix_SequenceID (l ! parent k) \<le> ix_SequenceID (l ! k)" if "k < length l" for k
    using that sorted_nth_mono [of "map ix_SequenceID l" "parent k" k] by (simp add: parent_def)
  then show ?thesis by (auto simp: sq.heap_on_def seq_less_def not_less)
qed

lemma queue_ok_sorted:
  assumes "queue_ok q1" and "same_content q1 q"
  shows "queue_ok (q\<lparr>aq_promoted := sort_key ix_SequenceID (aq_promoted q)\<rparr>)"
    and "same_content q1 (q\<lparr>aq_promoted := sort_key ix_SequenceID (aq_promoted q)\<rparr>)"
proof -
  let ?l = "sort_key ix_SequenceID (aq_promoted q)"
  show sc: "same_content q1 (q\<lparr>aq_promoted := ?l\<rparr>)" using assms(2) by (simp add: same_content_def)
  note D = same_contentD [OF assms(2)]
  have inv: "aq_inv q1" using assms(1) by (simp add: queue_ok_def)
  have eq: "q\<lparr>aq_promoted := ?l\<rparr> = q1\<lparr>aq_enqueued := aq_enqueued q1, aq_promoted := ?l, aq_nextSequenceID := aq_nextSequenceID q1\<rparr>"
    using assms(2) by (cases q; cases q1) (simp add: same_content_def)
  have "aq_inv (q\<lparr>aq_promoted := ?l\<rparr>)" unfolding eq
    using assms(2) D(6) aq_invD [OF inv] sorted_heap [of ?l]
    by (intro aq_inv_mset [OF inv]) (auto simp: same_content_def)
  then show "queue_ok (q\<lparr>aq_promoted := ?l\<rparr>)" using assms(1) same_contentD(5) [OF sc] by (simp add: queue_ok_def)
qed

lemma propose_account_queue_ok:
  assumes "proposal_ok p0 s" and "queue_at p0 i (aq_keyID q) = Some q0" and "same_content q0 q"
    and "\<forall>x \<in> promoted_ixns p0. LeaderCandidateAcc x \<noteq> None"
  shows "\<exists>s'. propose_account_queue env i q s = Some s' \<and> proposal_ok p0 s'"
proof -
  let ?p = "pr_pool s" and ?l = "sort_key ix_SequenceID (aq_promoted q)"
  let ?q = "q\<lparr>aq_promoted := ?l\<rparr>"
  let ?t = "s\<lparr>pr_pool := put_queue i ?q ?p\<rparr>"
  note S = assms(1) [unfolded proposal_ok_def]
  have "rel_option same_content (Some q0) (queue_at ?p i (aq_keyID q))" using S assms(2) by metis
  then obtain q1 where q1: "queue_at ?p i (aq_keyID q) = Some q1" "same_content q0 q1" by (auto simp: option_rel_Some1)
  have sc: "same_content q1 q" using assms(3) q1(2) by (simp add: same_content_def)
  have inv: "accs_ok (pool_accs ?p)" "gauge_ok (pool_gauge ?p) (pool_ixns ?p)" using S by (simp_all add: pool_inv_def)
  note Q = queue_ok_sorted [OF queue_at_ok(1) [OF inv(1) q1(1)] sc]
  have at: "queue_at ?p i (aq_keyID ?q) = Some q1" using q1(1) by simp
  note P = put_queue_spec [OF inv(1) at Q(1)]
  have "pool_ixns (put_queue i ?q ?p) = pool_ixns ?p" using P(2) same_contentD(5) [OF Q(2)] by (metis add_right_imp_eq)
  then have pinv: "pool_inv (put_queue i ?q ?p)" using P(1) inv(2) by (simp add: pool_inv_def)
  have "same_content q0 ?q" using Q(2) q1(2) by (simp add: same_content_def)
  then have cont: "rel_option same_content (queue_at p0 j k) (queue_at (put_queue i ?q ?p) j k)" for j k
    using S assms(2) by (simp add: queue_at_put_queue [OF at])
  obtain a where a: "map_of (pool_accs ?p) i = Some a" using q1(1) queue_at_eq by blast
  then have acc: "getAccount (pool_accounts (put_queue i ?q ?p)) j = None \<longleftrightarrow> getAccount (pool_accounts ?p) j = None" for j
    by (simp add: getAccount_def)
  have l: "set ?l \<subseteq> promoted_ixns p0"
    using assms(2) same_contentD(6) [OF assms(3)] by (auto simp: promoted_ixns_def)
  obtain s' where s': "propose_queue env ?l ?t = Some s'"
    using propose_queue_total [of ?t ?l env] S assms(4) l by auto
  from propose_queue_spec [OF s'] S have R: "same_queues (pr_pool ?t) (pr_pool s')" "registry_reachable (pr_registry s')"
      "set_mset (all_ixns (br_batches (pr_registry s'))) \<subseteq> set_mset (all_ixns (br_batches (pr_registry s))) \<union> set ?l"
    by simp_all
  have "proposal_ok p0 s'" unfolding proposal_ok_def
    using R S l cont acc pinv same_queues_inv [OF R(1)] same_queues_at [OF R(1)]
    by (auto simp: same_queues_def getAccount_def)
  then show ?thesis using s' by (simp add: propose_account_queue_def q_list_def Let_def)
qed

lemma propose_account_ok:
  assumes "proposal_ok p0 s" and "getAccount (pool_accounts p0) i \<noteq> None"
    and "\<forall>x \<in> promoted_ixns p0. LeaderCandidateAcc x \<noteq> None"
  shows "\<exists>s'. propose_account env i s = Some s' \<and> proposal_ok p0 s'"
proof -
  note S = assms(1) [unfolded proposal_ok_def]
  have "getAccount (pool_accounts (pr_pool s)) i \<noteq> None"
    using spec [OF conjunct1 [OF conjunct2 [OF conjunct2 [OF S]]], of i] assms(2) by simp
  then obtain a where a: "map_of (pool_accs (pr_pool s)) i = Some a" by (auto simp: getAccount_def)
  then have ok: "account_ok a" using S accs_okD by (auto simp: pool_inv_def)
  have "\<exists>s'. foldM (propose_account_queue env i) (acc_accountQueues a) s = Some s' \<and> proposal_ok p0 s'"
  proof (rule foldM_total)
    show "proposal_ok p0 s" by (rule assms(1))
    fix q t assume q: "q \<in> set (acc_accountQueues a)" and t: "proposal_ok p0 t"
    have "acc_get a (aq_keyID q) = Some q" using find_key [of aq_keyID "acc_accountQueues a" q] ok q
      by (simp add: acc_get_def account_ok_def)
    then have "queue_at (pr_pool s) i (aq_keyID q) = Some q" using a queue_at_eq by blast
    then have "rel_option same_content (queue_at p0 i (aq_keyID q)) (Some q)" using S by metis
    then obtain q0 where "queue_at p0 i (aq_keyID q) = Some q0" "same_content q0 q" by (auto simp: option_rel_Some2)
    then show "\<exists>s'. propose_account_queue env i q t = Some s' \<and> proposal_ok p0 s'"
      using propose_account_queue_ok [OF t _ _ assms(3)] by blast
  qed
  then show ?thesis using a by (simp add: propose_account_def getAccount_def)
qed

text \<open>The state in which a proposal does not panic: the sorted participants have accounts, and the
  promoted interactions have a candidate for the leader.\<close>

definition proposable :: "IxPool \<Rightarrow> bool" where
  "proposable p \<longleftrightarrow> (\<forall>i \<in> set (am_sortedParticipants (pool_accounts p)). getAccount (pool_accounts p) i \<noteq> None)
     \<and> (\<forall>x \<in> promoted_ixns p. LeaderCandidateAcc x \<noteq> None)"

lemma ProcessableBatches_loop:
  assumes "pool_inv p" and "proposable p"
  shows "\<exists>s. foldM (propose_account env)
    (filter (\<lambda>ident. id_Hex Nil_id \<le> id_Hex ident) (am_sortedParticipants (pool_accounts p))) (new_proposal p) = Some s
    \<and> proposal_ok p s"
proof (rule foldM_total)
  show "proposal_ok p (new_proposal p)"
    using assms(1) registry_reachable.new
    by (auto simp: proposal_ok_def new_proposal_def newBatchRegistry_def all_ixns_def option.rel_refl)
  fix i s assume "i \<in> set (filter (\<lambda>ident. id_Hex Nil_id \<le> id_Hex ident) (am_sortedParticipants (pool_accounts p)))"
    and "proposal_ok p s"
  then show "\<exists>s'. propose_account env i s = Some s' \<and> proposal_ok p s'"
    using assms(2) propose_account_ok by (auto simp: proposable_def)
qed

section \<open>The reachable states of the pool\<close>

text \<open>The state manager, the clock and the verifier may answer differently at every step. The sequence
  identifier that has no successor is left out: the promotion wraps it around to zero.\<close>

inductive pool_reachable :: "u64 \<Rightarrow> IxPool \<Rightarrow> bool" for maxSlots where
  new: "pool_reachable maxSlots (NewIxPool maxSlots)"
| add: "pool_reachable maxSlots p \<Longrightarrow> ix_SequenceID ix \<noteq> -1 \<Longrightarrow> validateAndEnqueueIx env limit ix p = Some (err, p')
    \<Longrightarrow> pool_reachable maxSlots p'"
| reset: "pool_reachable maxSlots p \<Longrightarrow> ResetWithHeaders env ixs delta p = Some p' \<Longrightarrow> pool_reachable maxSlots p'"
| pop: "pool_reachable maxSlots p \<Longrightarrow> Pop ix p = Some p' \<Longrightarrow> pool_reachable maxSlots p'"
| drop: "pool_reachable maxSlots p \<Longrightarrow> pool_reachable maxSlots (Drop env ix p)"
| wait: "pool_reachable maxSlots p \<Longrightarrow> pool_reachable maxSlots (snd (IncrementWaitTime env timeout ident p))"
| holes: "pool_reachable maxSlots p \<Longrightarrow> pool_reachable maxSlots (removeSequenceIDHoleAccounts p)"
| view: "pool_reachable maxSlots p \<Longrightarrow> pool_reachable maxSlots (UpdateCurrentView v p)"
| propose: "pool_reachable maxSlots p \<Longrightarrow> proposable p \<Longrightarrow> ProcessableBatches env srt p = Some (bs, p')
    \<Longrightarrow> pool_reachable maxSlots p'"

lemma pool_inv_new: "unat maxSlots + 128 < 2 ^ 64 \<Longrightarrow> pool_inv (NewIxPool maxSlots)"
  by (simp add: pool_inv_def NewIxPool_def newAccountsMap_def accs_ok_def gauge_ok_def accs_ixns_def)

lemma pool_inv_view [inv_intros]: "pool_inv p \<Longrightarrow> pool_inv (UpdateCurrentView v p)"
  by (simp add: pool_inv_def UpdateCurrentView_def)

lemma pool_inv_propose [inv_intros]:
  assumes "pool_inv p" and "proposable p" and "ProcessableBatches env srt p = Some (bs, p')"
  shows "pool_inv p'"
  using ProcessableBatches_loop [OF assms(1,2), of env] assms(3)
  by (auto simp: ProcessableBatches_def bind_eq_Some_conv proposal_ok_def)

lemma pool_reachable_inv:
  assumes "pool_reachable maxSlots p" and "unat maxSlots + 128 < 2 ^ 64"
  shows "pool_inv p"
  using assms by (induction rule: pool_reachable.induct) (blast intro: pool_inv_new inv_intros)+

section \<open>Properties\<close>

text \<open>C35: In every state the pool reaches, the gauge counts exactly the slots of the interactions in
  its queues, and they are within the maximum. The maximum must leave room for the slots of one more
  interaction, at most 128, below the wrap around.\<close>

theorem pool_gauge_exact:
  assumes "pool_reachable maxSlots p" and "unat maxSlots + 128 < 2 ^ 64"
  shows "unat (gauge_total (pool_gauge p)) = (\<Sum>ix \<in># pool_ixns p. unat (ix_slots ix))
    \<and> gauge_total (pool_gauge p) \<le> gauge_max (pool_gauge p)"
  using pool_reachable_inv [OF assms] by (simp add: pool_inv_def gauge_ok_def nslots_def word_le_nat_alt)

text \<open>C36: In every state the pool reaches, each account queue is well formed: it is filed under its
  key, both of its queues are heaps by sequence identifier, no sequence identifier is in it twice, its
  index finds exactly the queued interactions, the promoted ones are below the next sequence identifier
  and the enqueued ones are not, and every one fits the size limit.\<close>

theorem pool_queues_wellformed:
  assumes "pool_reachable maxSlots p" and "unat maxSlots + 128 < 2 ^ 64"
    and "getAccountQueue (pool_accounts p) ident key = Some q"
  shows "aq_keyID q = key \<and> sq.heap (aq_enqueued q) \<and> sq.heap (aq_promoted q)
    \<and> distinct (map ix_SequenceID (aq_enqueued q @ aq_promoted q))
    \<and> (\<forall>s ix. aq_sequenceIDToIX q s = Some ix \<longleftrightarrow>
        ix \<in> set (aq_enqueued q) \<union> set (aq_promoted q) \<and> ix_SequenceID ix = s)
    \<and> (\<forall>x \<in> set (aq_promoted q). ix_SequenceID x < aq_nextSequenceID q)
    \<and> (\<forall>x \<in> set (aq_enqueued q). aq_nextSequenceID q \<le> ix_SequenceID x)
    \<and> (\<forall>x \<in> set (aq_enqueued q @ aq_promoted q). ix_size x \<le> IxMaxSize)"
proof -
  have "accs_ok (pool_accs p)" using pool_reachable_inv [OF assms(1,2)] by (simp add: pool_inv_def)
  note Q = queue_at_ok [OF this assms(3)]
  have "ix_size x \<le> IxMaxSize" if "x \<in> set (aq_enqueued q @ aq_promoted q)" for x
    using Q(1) that by (auto simp: queue_ok_def q_all_def)
  with Q show ?thesis by (simp add: queue_ok_def aq_inv_def)
qed


section \<open>Witnesses\<close>

definition example_pool_ix :: Interaction where
  "example_pool_ix = (example_signed 1)
     \<lparr>ix_leaderCandidateAcc := Some (snd (example_info (0 # replicate 31 1))), ix_size := 300\<rparr>"

definition example_add :: "(pool_error option \<times> IxPool) option" where
  "example_add = validateAndEnqueueIx (example_env 1000) 1 example_pool_ix (NewIxPool 4096)"

definition queued_promoted :: "IxPool \<Rightarrow> Interaction list" where
  "queued_promoted p = concat (map (\<lambda>(i, a). concat (map aq_promoted (acc_accountQueues a))) (pool_accs p))"

lemma promoted_ixns_queued: "promoted_ixns p \<subseteq> set (queued_promoted p)"
proof
  fix x assume "x \<in> promoted_ixns p"
  then obtain i k q where q: "queue_at p i k = Some q" "x \<in> set (aq_promoted q)" by (auto simp: promoted_ixns_def)
  then obtain a where "(i, a) \<in> set (pool_accs p)" "q \<in> set (acc_accountQueues a)"
    by (auto simp: queue_at_eq dest: map_of_SomeD acc_get_SomeD)
  with q(2) show "x \<in> set (queued_promoted p)" by (force simp: queued_promoted_def)
qed

lemma example_pool:
  obtains p where "pool_reachable 4096 p" "gauge_total (pool_gauge p) = 1" "proposable p"
    "map_option (map ix_SequenceID \<circ> aq_promoted) (getAccountQueue (pool_accounts p) (0 # replicate 31 1) 0) = Some [0]"
proof -
  have "map_option (\<lambda>(err, p). (err, gauge_total (pool_gauge p),
      list_all (\<lambda>i. getAccount (pool_accounts p) i \<noteq> None) (am_sortedParticipants (pool_accounts p)),
      list_all (\<lambda>x. LeaderCandidateAcc x \<noteq> None) (queued_promoted p),
      map_option (map ix_SequenceID \<circ> aq_promoted) (getAccountQueue (pool_accounts p) (0 # replicate 31 1) 0))) example_add
    = Some (None, 1, True, True, Some [0])" by code_simp
  then obtain p where p: "example_add = Some (None, p)" "gauge_total (pool_gauge p) = 1"
      "list_all (\<lambda>i. getAccount (pool_accounts p) i \<noteq> None) (am_sortedParticipants (pool_accounts p))"
      "list_all (\<lambda>x. LeaderCandidateAcc x \<noteq> None) (queued_promoted p)"
      "map_option (map ix_SequenceID \<circ> aq_promoted) (getAccountQueue (pool_accounts p) (0 # replicate 31 1) 0) = Some [0]"
    by auto
  have "ix_SequenceID example_pool_ix \<noteq> -1" by code_simp
  from pool_reachable.add [OF pool_reachable.new this p(1) [unfolded example_add_def]] have "pool_reachable 4096 p" .
  moreover have "proposable p" using p(3,4) promoted_ixns_queued [of p] by (auto simp: proposable_def list_all_iff)
  ultimately show thesis using that p by blast
qed

theorem pool_gauge_exact_witness:
  "\<exists>p. pool_reachable 4096 p \<and> (\<Sum>ix \<in># pool_ixns p. unat (ix_slots ix)) = 1"
proof -
  obtain p where p: "pool_reachable 4096 p" "gauge_total (pool_gauge p) = 1" using example_pool by blast
  with pool_gauge_exact [OF p(1)] show ?thesis by auto
qed

theorem pool_queues_wellformed_witness:
  "\<exists>p q. pool_reachable 4096 p \<and> getAccountQueue (pool_accounts p) (0 # replicate 31 1) 0 = Some q \<and> map ix_SequenceID (aq_promoted q) = [0]
    \<and> 0 < aq_nextSequenceID q"
proof -
  obtain p where p: "pool_reachable 4096 p"
      "map_option (map ix_SequenceID \<circ> aq_promoted) (getAccountQueue (pool_accounts p) (0 # replicate 31 1) 0) = Some [0]"
    using example_pool by blast
  then obtain q where q: "getAccountQueue (pool_accounts p) (0 # replicate 31 1) 0 = Some q" "map ix_SequenceID (aq_promoted q) = [0]"
    by auto
  then obtain x where x: "aq_promoted q = [x]" "ix_SequenceID x = 0" by auto
  have "unat (4096 :: u64) + 128 < 2 ^ 64" by simp
  from pool_queues_wellformed [OF p(1) this q(1)] x have "0 < aq_nextSequenceID q" by simp
  with p(1) q show ?thesis by (intro exI [of _ p] exI [of _ q] conjI)
qed


text \<open>The view allotted to a node is the first one, from the given view on, whose remainder by
  the size of the set of consensus nodes is the position of the node.\<close>

theorem getNextView_least:
  assumes "unat nodePos < 5" and "unat view + 5 < 2 ^ 64"
  shows "unat (getNextView view nodePos) = (LEAST v. unat view \<le> v \<and> v mod 5 = unat nodePos)"
proof -
  let ?v = "unat view" and ?n = "unat nodePos"
  have d: "unat (view mod 5) = ?v mod 5" by (simp add: unat_mod)
  have le: "view mod 5 \<le> view" by (simp add: word_le_nat_alt d)
  have s: "unat (view - view mod 5) = ?v - ?v mod 5" using unat_sub [OF le] d by simp
  have eq: "unat (getNextView view nodePos) = (if ?v mod 5 \<le> ?n then ?v - ?v mod 5 + ?n else ?v - ?v mod 5 + 5 + ?n)"
  proof (cases "?v mod 5 \<le> ?n")
    case True
    have "unat (view - view mod 5) + ?n < 2 ^ LENGTH(64)" using s assms by simp
    from unat_add_lem [THEN iffD1, OF this] True show ?thesis
      by (simp add: getNextView_def Let_def word_le_nat_alt d s)
  next
    case False
    have a: "unat (view - view mod 5 + 5) = ?v - ?v mod 5 + 5"
      using unat_add_lem [THEN iffD1, of "view - view mod 5" 5] s assms by simp
    have "?v - ?v mod 5 + 5 + ?n < 2 ^ LENGTH(64)" using False assms by simp
    then have "unat (view - view mod 5 + 5 + nodePos) = ?v - ?v mod 5 + 5 + ?n"
      using unat_add_lem [THEN iffD1, of "view - view mod 5 + 5" nodePos] a by simp
    with False show ?thesis by (simp add: getNextView_def Let_def word_le_nat_alt d)
  qed
  define k r n where "k = ?v div 5" and "r = ?v mod 5" and "n = ?n"
  have v: "?v = 5 * k + r" "r < 5" "n < 5" using assms(1) by (simp_all add: k_def r_def n_def)
  have eq': "unat (getNextView view nodePos) = (if r \<le> n then 5 * k + n else 5 * k + 5 + n)"
    unfolding eq r_def [symmetric] n_def [symmetric] unfolding v(1) by simp
  have least: "(LEAST w. 5 * k + r \<le> w \<and> w mod 5 = n) = (if r \<le> n then 5 * k + n else 5 * k + 5 + n)"
  proof (rule Least_equality)
    show "5 * k + r \<le> (if r \<le> n then 5 * k + n else 5 * k + 5 + n) \<and> (if r \<le> n then 5 * k + n else 5 * k + 5 + n) mod 5 = n"
      using v(2,3) by (simp add: mod_add_eq [symmetric, of "5 * k + 5"])
    fix w assume w: "5 * k + r \<le> w \<and> w mod 5 = n"
    then have "w = 5 * (w div 5) + n" "k \<le> w div 5" using v(2) div_le_mono [of "5 * k + r" w 5] by auto
    with w show "(if r \<le> n then 5 * k + n else 5 * k + 5 + n) \<le> w" by (cases "k = w div 5") auto
  qed
  show ?thesis unfolding eq' n_def [symmetric] v(1) by (rule least [symmetric])
qed

theorem getNextView_least_witness: "(LEAST v::nat. 7 \<le> v \<and> v mod 5 = 1) = 11"
proof -
  have "unat (getNextView 7 1) = 11" by code_simp
  with getNextView_least [of 1 7] show ?thesis by simp
qed

section \<open>Findings\<close>

text \<open>Interactions of one sender under two keys in one tesseract: the second one is skipped, so its queue
  is not pruned.\<close>

theorem reset_skips_second_key:
  "ix_SenderID b = ix_SenderID a \<Longrightarrow> foldM (reset_one env) [a, b] (s, p) = foldM (reset_one env) [a] (s, p)"
  by (auto simp: reset_one_def Let_def bind_eq_Some_conv split: option.splits prod.splits bind_splits)

text \<open>A node that is no longer among the consensus nodes of the leader candidate keeps the view it was
  allotted before, and the comparison with the current view lets the interaction pass.\<close>

theorem stale_view_kept:
  "LeaderCandidateAcc ixn = Some leader \<Longrightarrow> leader_position env leader \<in> {None, Some NodeNotFound}
    \<Longrightarrow> allocateView env view [ixn] p = Some p"
  by (auto simp: allocateView_def allocate_one_def)

end
