(* ===== verification/Ix_Gossip.thy ===== *)
theory Ix_Gossip
  imports Ix_Proposal_Inv Dup_Cache
begin

text \<open>
  The entry of gossiped interactions, \<^verbatim>\<open>IxValidator\<close> of src/ixpool/ixpool.go with the decoding of
  src/common/interaction.go, the queries of src/ixpool/query.go over all accounts, and the lemmas that
  the entry points lead from reachable states of the pool to reachable ones. The codec is a parameter.
\<close>

definition Interactions_FromBytes ::
  "(u8 list \<Rightarrow> Hash) \<Rightarrow> (u8 list \<Rightarrow> Interaction list option) \<Rightarrow> u8 list \<Rightarrow> Interactions option option" where
  "Interactions_FromBytes GetHash Depolorize b =
     (case Depolorize b of
        None \<Rightarrow> Some None
      | Some l \<Rightarrow>
          if l = [] then Some (Some \<lparr>ixns = [], ixns_leaderCandidateID = Nil_id\<rparr>)
          else map_option Some (NewInteractionsWithLeaderCheck GetHash True l))"

definition incomingMsgDupCheck ::
  "(u8 list \<Rightarrow> Hash) \<Rightarrow> u64 \<Rightarrow> u8 list \<Rightarrow> ixSaltedCache option \<Rightarrow> (Hash option \<times> bool) \<times> ixSaltedCache option" where
  "incomingMsgDupCheck Sum256 rnd data msgCache =
     (case msgCache of
        None \<Rightarrow> ((None, False), None)
      | Some c \<Rightarrow> (case CheckAndPut Sum256 rnd data c of (r, c') \<Rightarrow> (r, Some c')))"

datatype gossip_error = ErrPeerID | ErrDepolorize | ErrIxCount

text \<open>What a call of \<^verbatim>\<open>IxValidator\<close> takes from outside: the own peer identifier, the codec, the hash,
  the random salt, the price limit and the largest group of the configuration.\<close>

record GossipEnv =
  ge_pool :: PoolEnv
  ge_DecodedPeerID :: "u8 list option"
  ge_Depolorize :: "u8 list \<Rightarrow> Interaction list option"
  ge_Sum256 :: "u8 list \<Rightarrow> Hash"
  ge_random :: u64
  ge_PriceLimit :: int
  ge_MaxIxGroupSize :: int

definition IxValidator ::
  "GossipEnv \<Rightarrow> u8 list \<Rightarrow> u8 list \<Rightarrow> ixSaltedCache option \<times> IxPool
    \<Rightarrow> ((ValidationResult \<times> gossip_error option) \<times> ixSaltedCache option \<times> IxPool) option" where
  "IxValidator ge from data = (\<lambda>(msgCache, p).
     case ge_DecodedPeerID ge of
       None \<Rightarrow> Some ((ValidationReject, Some ErrPeerID), msgCache, p)
     | Some peerID \<Rightarrow>
         if from = peerID then Some ((ValidationAccept, None), msgCache, p)
         else (case incomingMsgDupCheck (ge_Sum256 ge) (ge_random ge) data msgCache of
           ((key, shouldDrop), msgCache1) \<Rightarrow>
             if shouldDrop then Some ((ValidationIgnore, None), msgCache1, p)
             else do {
               decoded \<leftarrow> Interactions_FromBytes (env_GetHash (ge_pool ge)) (ge_Depolorize ge) data;
               (case decoded of
                  None \<Rightarrow> Some ((ValidationReject, Some ErrDepolorize), msgCache1, p)
                | Some grp \<Rightarrow>
                    if length (ixns grp) = 0 \<or> int (length (ixns grp)) > ge_MaxIxGroupSize ge
                    then Some ((ValidationReject, Some ErrIxCount), msgCache1, p)
                    else do {
                      (r, p1) \<leftarrow> AddRemoteInteractions (ge_pool ge) (ge_PriceLimit ge) (ixns grp) p;
                      Some ((r, None), msgCache1, p1)
                    })
             }))"

definition pool_GetIxs :: "IxPool \<Rightarrow> Identifier \<Rightarrow> bool \<Rightarrow> Interaction list \<times> Interaction list" where
  "pool_GetIxs p ident inclQueued = getIxs (pool_accounts p) ident inclQueued"

definition GetAllAccountsWaitTime :: "PoolEnv \<Rightarrow> IxPool \<Rightarrow> Identifier \<rightharpoonup> int" where
  "GetAllAccountsWaitTime env p = fold (\<lambda>(ident, acc) waitTime.
     waitTime(ident \<mapsto> (acc_waitTime acc - env_now env) sdiv 1000000)) (pool_accs p) Map.empty"

section \<open>Entry points and reachable states\<close>

lemma add_remote_reachable:
  assumes "add_remote env limit ixs c p = Some (r, p')" and "pool_reachable maxSlots p"
    and "\<forall>ix \<in> set ixs. ix_SequenceID ix \<noteq> -1"
  shows "pool_reachable maxSlots p'"
  using assms
proof (induction ixs arbitrary: c p)
  case Nil
  then show ?case by simp
next
  case (Cons ix ixs)
  obtain err p1 where e: "validateAndEnqueueIx env limit ix p = Some (err, p1)"
    using Cons.prems(1) by (auto simp: bind_eq_Some_conv)
  have "pool_reachable maxSlots p1" using pool_reachable.add [OF Cons.prems(2) _ e] Cons.prems(3) by simp
  then show ?case using Cons.prems Cons.IH e by (auto split: option.splits if_splits)
qed

lemma AddLocal_reachable:
  assumes "AddLocalInteractions env limit ixs p = Some (r, p')" and "pool_reachable maxSlots p"
    and "\<forall>ix \<in> set ixs. ix_SequenceID ix \<noteq> -1"
  shows "pool_reachable maxSlots p'"
  using assms
proof (induction ixs arbitrary: r p)
  case Nil
  then show ?case by simp
next
  case (Cons ix ixs)
  obtain err p1 where e: "validateAndEnqueueIx env limit ix p = Some (err, p1)"
    using Cons.prems(1) by (auto simp: bind_eq_Some_conv)
  have "pool_reachable maxSlots p1" using pool_reachable.add [OF Cons.prems(2) _ e] Cons.prems(3) by simp
  moreover obtain r' where "AddLocalInteractions env limit ixs p1 = Some (r', p')"
    using Cons.prems(1) e by (auto simp: bind_eq_Some_conv split: option.splits)
  ultimately show ?case using Cons.IH Cons.prems(3) by simp
qed

lemma IxValidator_reachable:
  assumes "IxValidator ge from data (msgCache, p) = Some (r, msgCache', p')" and "pool_reachable maxSlots p"
    and "\<forall>l. ge_Depolorize ge data = Some l \<longrightarrow> (\<forall>ix \<in> set l. ix_SequenceID ix \<noteq> -1)"
  shows "pool_reachable maxSlots p'"
proof (cases "p' = p")
  case False
  obtain decoded where d: "Interactions_FromBytes (env_GetHash (ge_pool ge)) (ge_Depolorize ge) data = Some decoded"
    using assms(1) False by (auto simp: IxValidator_def bind_eq_Some_conv split: option.splits if_splits prod.splits)
  then obtain grp where g: "decoded = Some grp"
    using assms(1) False by (cases decoded) (auto simp: IxValidator_def split: option.splits if_splits prod.splits)
  have "AddRemoteInteractions (ge_pool ge) (ge_PriceLimit ge) (ixns grp) p = Some (fst r, p')"
    using assms(1) False d g by (auto simp: IxValidator_def bind_eq_Some_conv split: option.splits if_splits prod.splits)
  then obtain c where c: "add_remote (ge_pool ge) (ge_PriceLimit ge) (ixns grp) 0 p = Some (c, p')"
    by (auto simp: AddRemoteInteractions_def bind_eq_Some_conv)
  have "\<forall>ix \<in> set (ixns grp). ix_SequenceID ix \<noteq> -1"
    using assms(3) d g
    by (auto simp: Interactions_FromBytes_def NewInteractionsWithLeaderCheck_def bind_eq_Some_conv split: option.splits if_splits)
  with add_remote_reachable [OF c assms(2)] show ?thesis by blast
qed (use assms(2) in simp)

end
