(* ===== verification/Tesseracts.thy ===== *)
theory Tesseracts
  imports Interactions Cluster
begin

text \<open>
  The tesseracts of src/common/tesseract.go with the receipts of src/common/receipts.go they carry, and
  the proposals and messages of src/consensus/types/consensus.go. The codec and the hash are parameters;
  a tesseract caches its hash, which depends on its header only.
\<close>

section \<open>Receipts\<close>

record Log =
  log_ID :: Identifier
  log_LogicID :: Identifier
  log_Topics :: "Hash list"
  log_Data :: "u8 list"

record IxOpResult =
  res_IxType :: IxOpType
  res_Status :: u64
  res_Data :: "u8 list"
  res_Logs :: "Log list"

record Receipt =
  rc_IxHash :: Hash
  rc_Status :: u64
  rc_FuelUsed :: u64
  rc_IxOps :: "IxOpResult list"

type_synonym Receipts = "(Hash \<times> Receipt) list"

definition Receipt_Logs :: "Receipt \<Rightarrow> Log list" where
  "Receipt_Logs r = concat (map res_Logs (rc_IxOps r))"

definition Receipts_FuelUsed :: "Receipts \<Rightarrow> u64" where
  "Receipts_FuelUsed rs = fold (\<lambda>(_, receipt) fuelUsed. fuelUsed + rc_FuelUsed receipt) rs 0"

section \<open>Tesseracts\<close>

record ParticipantState =
  st_Height :: u64
  st_TransitiveLink :: Hash
  st_LockedContext :: Hash
  st_ContextDelta :: "DeltaGroup option"
  st_StateHash :: Hash

type_synonym ParticipantsState = "(Identifier \<times> ParticipantState) list"

record PoXtData =
  px_Proposer :: KramaID
  px_BinaryHash :: Hash
  px_IdentityHash :: Hash
  px_View :: u64
  px_LastCommit :: "(Identifier \<times> Hash) list"
  px_EvidenceHash :: "(Identifier \<times> Hash) list"
  px_AccountLocks :: "(Identifier \<times> LockType) list"
  px_ICSSeed :: "u8 list"
  px_ICSProof :: "u8 list"

record CommitInfo =
  ci_QC :: "Qc option"
  ci_Operator :: KramaID
  ci_ClusterID :: ClusterID
  ci_View :: u64
  ci_RandomSet :: "u64 list"
  ci_RandomSetSizeWithoutDelta :: u32

text \<open>The fields that \<^verbatim>\<open>SignBytes\<close> encodes, and the whole tesseract.\<close>

record TSHeader =
  th_participants :: ParticipantsState
  th_interactionsHash :: Hash
  th_receiptsHash :: Hash
  th_epoch :: int
  th_timestamp :: u64
  th_fuelUsed :: u64
  th_fuelLimit :: u64
  th_consensusInfo :: PoXtData

record Tesseract = TSHeader +
  ts_seal :: "u8 list"
  ts_sealBy :: KramaID
  ts_hash :: "Hash option"
  ts_ixns :: Interactions
  ts_receipts :: "Receipts option"
  ts_commitInfo :: "CommitInfo option"

record TSCodec =
  tc_SignBytes :: "TSHeader \<Rightarrow> string + u8 list"
  tc_Sum256 :: "u8 list \<Rightarrow> Hash"

definition Tesseract_SignBytes :: "TSCodec \<Rightarrow> Tesseract \<Rightarrow> string + u8 list" where
  "Tesseract_SignBytes tc t = tc_SignBytes tc (TSHeader.truncate t)"

text \<open>The hash and the tesseract with the filled cache; an encoding error panics.\<close>

definition Tesseract_Hash :: "TSCodec \<Rightarrow> Tesseract \<Rightarrow> (Hash \<times> Tesseract) option" where
  "Tesseract_Hash tc t =
     (case ts_hash t of
        Some h \<Rightarrow> Some (h, t)
      | None \<Rightarrow> (case Tesseract_SignBytes tc t of
                  Inl err \<Rightarrow> None
                | Inr raw \<Rightarrow> Some (tc_Sum256 tc raw, t\<lparr>ts_hash := Some (tc_Sum256 tc raw)\<rparr>)))"

definition CompareHash :: "TSCodec \<Rightarrow> Tesseract option \<Rightarrow> Hash \<Rightarrow> bool option" where
  "CompareHash tc t tsHash =
     (if length tsHash = 0 then Some False
      else (case t of
              None \<Rightarrow> Some False
            | Some ts \<Rightarrow> map_option (\<lambda>(h, _). h = tsHash) (Tesseract_Hash tc ts)))"

definition Tesseract_Heights :: "Tesseract \<Rightarrow> (Identifier \<times> u64) list" where
  "Tesseract_Heights t = map (\<lambda>(ident, ps). (ident, st_Height ps)) (th_participants t)"

text \<open>A new tesseract has no cached hash; the deep copies are the values themselves, and an empty map
  of participants stays empty.\<close>

definition Tesseract_Copy :: "Tesseract \<Rightarrow> Tesseract" where
  "Tesseract_Copy t = t\<lparr>ts_hash := None\<rparr>"

text \<open>The copy of a missing commit info is a nil dereference.\<close>

definition CopyWithCommitInfo :: "Tesseract \<Rightarrow> Tesseract option" where
  "CopyWithCommitInfo t = map_option (\<lambda>ci. t\<lparr>ts_commitInfo := Some ci\<rparr>) (ts_commitInfo t)"

definition SetCommitQc :: "Qc \<Rightarrow> Tesseract \<Rightarrow> Tesseract option" where
  "SetCommitQc qc t = map_option (\<lambda>ci. t\<lparr>ts_commitInfo := Some (ci\<lparr>ci_QC := Some qc\<rparr>)\<rparr>) (ts_commitInfo t)"

definition ExcludedAccounts :: "Tesseract \<Rightarrow> Identifier list" where
  "ExcludedAccounts t = map fst (filter (\<lambda>(_, ps). st_StateHash ps = NilHash) (th_participants t))"

definition Tesseract_ContextDelta :: "Tesseract \<Rightarrow> (Identifier \<times> DeltaGroup) list" where
  "Tesseract_ContextDelta t = List.map_filter (\<lambda>(ident, ps). map_option (Pair ident) (st_ContextDelta ps)) (th_participants t)"

section \<open>Proposals and messages\<close>

record Proposal =
  prop_Type :: ConsensusMsgType
  prop_PrepareQc :: "PreparedInfo option"
  prop_Tesseract :: "Tesseract option"

definition NewProposal :: "PreparedInfo option \<Rightarrow> Tesseract option \<Rightarrow> Proposal" where
  "NewProposal prepareQc ts = \<lparr>prop_Type = PROPOSAL, prop_PrepareQc = prepareQc, prop_Tesseract = ts\<rparr>"

definition Proposal_Copy :: "Proposal \<Rightarrow> Proposal option" where
  "Proposal_Copy p = do {
     t \<leftarrow> prop_Tesseract p;
     t' \<leftarrow> CopyWithCommitInfo t;
     Some (p\<lparr>prop_Tesseract := Some t'\<rparr>)
   }"

definition Proposal_View :: "Proposal \<Rightarrow> u64 option" where
  "Proposal_View p = map_option pi_View (prop_PrepareQc p)"

datatype ConsensusPayload = PayloadProposal Proposal | PayloadVote Vote

record ConsensusMessage =
  cm_PeerID :: KramaID
  cm_Recipient :: KramaID
  cm_Payload :: ConsensusPayload

section \<open>Lemmas\<close>

text \<open>The hash is cached: asking again gives the same value, whatever else of the tesseract changed.\<close>

lemma Tesseract_Hash_cached:
  assumes "Tesseract_Hash tc t = Some (h, t')"
  shows "ts_hash t' = Some h" and "TSHeader.truncate t' = TSHeader.truncate t" and "ts_commitInfo t' = ts_commitInfo t"
  using assms by (auto simp: Tesseract_Hash_def TSHeader.truncate_def split: option.splits sum.splits)

lemma Tesseract_Hash_of_cache: "ts_hash t = Some h \<Longrightarrow> Tesseract_Hash tc t = Some (h, t)"
  by (simp add: Tesseract_Hash_def)

lemma CompareHash_cached: "ts_hash t = Some h \<Longrightarrow> CompareHash tc (Some t) g = Some (g \<noteq> [] \<and> g = h)"
  by (auto simp: CompareHash_def Tesseract_Hash_of_cache)

text \<open>What is set on a tesseract when it is committed keeps the hash.\<close>

lemma SetCommitQc_hash: "SetCommitQc qc t = Some t' \<Longrightarrow> ts_hash t' = ts_hash t \<and> TSHeader.truncate t' = TSHeader.truncate t"
  by (auto simp: SetCommitQc_def TSHeader.truncate_def)

end
