(* ===== verification/Consensus_Safety.thy ===== *)
theory Consensus_Safety
  imports Tesseracts
begin

text \<open>
  The safety data of src/consensus/safety/safety.go: per account the last quorum certificates the node
  has seen, and the proposals that gathered a prevote certificate, both written to the database before
  the node votes on. The database is a set of tables; its errors and the codec are parameters.
\<close>

section \<open>Definitions\<close>

record SafetyData =
  sd_Qc :: "Qc option list"
  sd_TSHashes :: "Hash list"
  sd_ProposalTSHash :: Hash

definition UpdateQc :: "Qc \<Rightarrow> SafetyData \<Rightarrow> SafetyData option" where
  "UpdateQc qc sd =
     (let appended = sd\<lparr>sd_Qc := sd_Qc sd @ [Some qc], sd_TSHashes := sd_TSHashes sd @ [qc_TSHash qc]\<rparr>
      in if length (sd_Qc sd) > 0 then do {
           lastQc \<leftarrow> last (sd_Qc sd);
           if qc_View lastQc < qc_View qc
           then Some (sd\<lparr>sd_Qc := [Some qc], sd_TSHashes := [qc_TSHash qc]\<rparr>)
           else if qc_View lastQc = qc_View qc \<and> qc_Type lastQc = PREVOTE
           then Some (sd\<lparr>sd_Qc := butlast (sd_Qc sd) @ [Some qc]\<rparr>)
           else Some appended
         } else Some appended)"

definition LastView :: "SafetyData \<Rightarrow> u64 option" where
  "LastView sd = (if sd_Qc sd = [] then None else map_option qc_View (last (sd_Qc sd)))"

record ProposalInfo =
  pf_TS :: Tesseract
  pf_Ixns :: Interactions
  pf_Receipts :: "Receipts option"
  pf_CommitInfo :: "CommitInfo option"

definition NewProposalInfo :: "Tesseract \<Rightarrow> ProposalInfo" where
  "NewProposalInfo ts = \<lparr>pf_TS = ts, pf_Ixns = ts_ixns ts, pf_Receipts = ts_receipts ts, pf_CommitInfo = ts_commitInfo ts\<rparr>"

definition ProposalInfo_Tesseract :: "ProposalInfo \<Rightarrow> Tesseract" where
  "ProposalInfo_Tesseract pi = (pf_TS pi)\<lparr>ts_ixns := pf_Ixns pi, ts_receipts := pf_Receipts pi, ts_commitInfo := pf_CommitInfo pi\<rparr>"

datatype store_error = ErrKeyNotFound | ErrStore string

text \<open>The tables of the database: the meta information gives the identifier and the tesseract hash of
  an account.\<close>

record SafetyStore =
  db_MetaInfo :: "Identifier \<rightharpoonup> Identifier \<times> Hash"
  db_SafetyData :: "Identifier \<rightharpoonup> u8 list"
  db_CommitInfo :: "Hash \<rightharpoonup> u8 list"
  db_ProposalInfo :: "(Hash \<times> u8 list) list"

text \<open>An operation of the database can fail; which one fails on which key is a parameter.\<close>

datatype DbOp = ReadMeta | ReadCommit | ReadSafety | WriteSafety | DropSafety | ReadProposal | WriteProposal | DropProposal | ScanProposals

record SafetyEnv =
  se_codec :: TSCodec
  se_encSafety :: "SafetyData \<Rightarrow> string + u8 list"
  se_decSafety :: "u8 list \<Rightarrow> string + SafetyData"
  se_encProposal :: "ProposalInfo \<Rightarrow> string + u8 list"
  se_decProposal :: "u8 list \<Rightarrow> string + ProposalInfo"
  se_decCommit :: "u8 list \<Rightarrow> string + CommitInfo"
  se_error :: "DbOp \<Rightarrow> u8 list \<Rightarrow> string option"

definition db_get :: "SafetyEnv \<Rightarrow> DbOp \<Rightarrow> u8 list \<Rightarrow> 'v option \<Rightarrow> store_error + 'v" where
  "db_get se op key entry =
     (case se_error se op key of
        Some e \<Rightarrow> Inl (ErrStore e)
      | None \<Rightarrow> (case entry of None \<Rightarrow> Inl ErrKeyNotFound | Some v \<Rightarrow> Inr v))"

definition getSafetyData :: "SafetyEnv \<Rightarrow> SafetyStore \<Rightarrow> Identifier \<Rightarrow> store_error + SafetyData" where
  "getSafetyData se db ident =
     (case db_get se ReadSafety ident (db_SafetyData db ident) of
        Inl e \<Rightarrow> Inl e
      | Inr raw \<Rightarrow> (case se_decSafety se raw of Inl e \<Rightarrow> Inl (ErrStore e) | Inr sd \<Rightarrow> Inr sd))"

definition setSafetyData :: "SafetyEnv \<Rightarrow> Identifier \<Rightarrow> SafetyData \<Rightarrow> SafetyStore \<Rightarrow> store_error option \<times> SafetyStore" where
  "setSafetyData se ident data db =
     (case se_encSafety se data of
        Inl e \<Rightarrow> (Some (ErrStore e), db)
      | Inr raw \<Rightarrow> (case se_error se WriteSafety ident of
                     Some e \<Rightarrow> (Some (ErrStore e), db)
                   | None \<Rightarrow> (None, db\<lparr>db_SafetyData := (db_SafetyData db)(ident \<mapsto> raw)\<rparr>)))"

definition GetLatestSafetyInfo :: "SafetyEnv \<Rightarrow> SafetyStore \<Rightarrow> Identifier \<Rightarrow> store_error + SafetyData" where
  "GetLatestSafetyInfo se db ident =
     (case db_get se ReadMeta ident (db_MetaInfo db ident) of
        Inl e \<Rightarrow> Inl e
      | Inr (metaID, tesseractHash) \<Rightarrow> (case getSafetyData se db metaID of
            Inr info \<Rightarrow> Inr info
          | Inl ErrKeyNotFound \<Rightarrow> (case db_get se ReadCommit tesseractHash (db_CommitInfo db tesseractHash) of
                Inl e \<Rightarrow> Inl e
              | Inr raw \<Rightarrow> (case se_decCommit se raw of
                    Inl e \<Rightarrow> Inl (ErrStore e)
                  | Inr ci \<Rightarrow> Inr \<lparr>sd_Qc = [ci_QC ci], sd_TSHashes = [tesseractHash], sd_ProposalTSHash = NilHash\<rparr>))
          | Inl e \<Rightarrow> Inl e))"

text \<open>The loop over the locked accounts, then the proposal itself when the certificate is of prevotes.
  An error of the read is treated as missing data.\<close>

fun update_accounts ::
  "SafetyEnv \<Rightarrow> Hash \<Rightarrow> Qc \<Rightarrow> (Identifier \<times> LockType) list \<Rightarrow> SafetyStore \<Rightarrow> (store_error option \<times> SafetyStore) option" where
  "update_accounts se tsHash qc [] db = Some (None, db)"
| "update_accounts se tsHash qc ((ident, lock) # rest) db =
     (if lock = NoLock then update_accounts se tsHash qc rest db
      else do {
        info \<leftarrow> (case getSafetyData se db ident of
                   Inl e \<Rightarrow> Some \<lparr>sd_Qc = [Some qc], sd_TSHashes = [qc_TSHash qc], sd_ProposalTSHash = tsHash\<rparr>
                 | Inr sd \<Rightarrow> UpdateQc qc sd);
        (case setSafetyData se ident info db of
           (Some e, db') \<Rightarrow> Some (Some e, db')
         | (None, db') \<Rightarrow> update_accounts se tsHash qc rest db')
      })"

definition UpdateSafetyInfo :: "SafetyEnv \<Rightarrow> Proposal \<Rightarrow> Qc \<Rightarrow> SafetyStore \<Rightarrow> (store_error option \<times> SafetyStore) option" where
  "UpdateSafetyInfo se p qc db = do {
     t \<leftarrow> prop_Tesseract p;
     (tsHash, _) \<leftarrow> Tesseract_Hash (se_codec se) t;
     (err, db1) \<leftarrow> update_accounts se tsHash qc (px_AccountLocks (th_consensusInfo t)) db;
     if err \<noteq> None then Some (err, db1)
     else if qc_Type qc = PREVOTE then
       (case se_encProposal se (NewProposalInfo t) of
          Inl e \<Rightarrow> Some (Some (ErrStore e), db1)
        | Inr raw \<Rightarrow> (case se_error se WriteProposal tsHash of
            Some e \<Rightarrow> Some (Some (ErrStore e), db1)
          | None \<Rightarrow> Some (None, db1\<lparr>db_ProposalInfo := ps_put tsHash raw (db_ProposalInfo db1)\<rparr>)))
     else Some (None, db1)
   }"

definition GetTesseract :: "SafetyEnv \<Rightarrow> SafetyStore \<Rightarrow> Hash \<Rightarrow> store_error + Tesseract" where
  "GetTesseract se db tsHash =
     (case db_get se ReadProposal tsHash (map_of (db_ProposalInfo db) tsHash) of
        Inl e \<Rightarrow> Inl e
      | Inr raw \<Rightarrow> (case se_decProposal se raw of Inl e \<Rightarrow> Inl (ErrStore e) | Inr info \<Rightarrow> Inr (ProposalInfo_Tesseract info)))"

fun decode_infos :: "SafetyEnv \<Rightarrow> (Hash \<times> u8 list) list \<Rightarrow> store_error + Tesseract list" where
  "decode_infos se [] = Inr []"
| "decode_infos se ((h, raw) # rest) =
     (case se_decProposal se raw of
        Inl e \<Rightarrow> Inl (ErrStore e)
      | Inr info \<Rightarrow> (case decode_infos se rest of Inl e \<Rightarrow> Inl e | Inr ts \<Rightarrow> Inr (ProposalInfo_Tesseract info # ts)))"

definition GetFailedViewTS :: "SafetyEnv \<Rightarrow> SafetyStore \<Rightarrow> store_error + Tesseract list" where
  "GetFailedViewTS se db = (case db_get se ScanProposals [] (Some (db_ProposalInfo db)) of
     Inl e \<Rightarrow> Inl e | Inr rawInfos \<Rightarrow> decode_infos se rawInfos)"

definition DeleteConsensusProposalInfo :: "SafetyEnv \<Rightarrow> Hash \<Rightarrow> SafetyStore \<Rightarrow> store_error option \<times> SafetyStore" where
  "DeleteConsensusProposalInfo se tsHash db = (case se_error se DropProposal tsHash of
     Some e \<Rightarrow> (Some (ErrStore e), db)
   | None \<Rightarrow> (None, db\<lparr>db_ProposalInfo := filter (\<lambda>(h, _). h \<noteq> tsHash) (db_ProposalInfo db)\<rparr>))"

definition DeleteSafetyData :: "SafetyEnv \<Rightarrow> Identifier \<Rightarrow> SafetyStore \<Rightarrow> store_error option \<times> SafetyStore" where
  "DeleteSafetyData se ident db = (case se_error se DropSafety ident of
     Some e \<Rightarrow> (Some (ErrStore e), db)
   | None \<Rightarrow> (None, db\<lparr>db_SafetyData := (db_SafetyData db)(ident := None)\<rparr>))"

section \<open>What is recorded\<close>

text \<open>Whatever was recorded before, the last certificate is the new one.\<close>

lemma UpdateQc_last: "UpdateQc qc sd = Some sd' \<Longrightarrow> sd_Qc sd' \<noteq> [] \<and> last (sd_Qc sd') = Some qc"
  by (auto simp: UpdateQc_def Let_def bind_eq_Some_conv split: if_splits)

lemma setSafetyData_frame:
  assumes "setSafetyData se ident data db = (err, db')"
  shows "db_MetaInfo db' = db_MetaInfo db" and "db_CommitInfo db' = db_CommitInfo db"
    and "db_ProposalInfo db' = db_ProposalInfo db"
    and "j \<noteq> ident \<Longrightarrow> db_SafetyData db' j = db_SafetyData db j"
  using assms by (auto simp: setSafetyData_def split: sum.splits option.splits)

lemma update_accounts_locked:
  assumes "update_accounts se h qc ((i, l) # locks) db = Some (err, db')" and "l \<noteq> NoLock"
  obtains info e db1 where "(case getSafetyData se db i of
          Inl e \<Rightarrow> Some \<lparr>sd_Qc = [Some qc], sd_TSHashes = [qc_TSHash qc], sd_ProposalTSHash = h\<rparr>
        | Inr sd \<Rightarrow> UpdateQc qc sd) = Some info"
    and "setSafetyData se i info db = (e, db1)"
    and "(e \<noteq> None \<and> err = e \<and> db' = db1) \<or> (e = None \<and> update_accounts se h qc locks db1 = Some (err, db'))"
proof -
  obtain info where info: "(case getSafetyData se db i of
          Inl e \<Rightarrow> Some \<lparr>sd_Qc = [Some qc], sd_TSHashes = [qc_TSHash qc], sd_ProposalTSHash = h\<rparr>
        | Inr sd \<Rightarrow> UpdateQc qc sd) = Some info"
    using assms by (cases "getSafetyData se db i") (auto simp: bind_eq_Some_conv)
  obtain e db1 where s: "setSafetyData se i info db = (e, db1)" by fastforce
  show ?thesis using that [OF info s] assms info s by (cases e) auto
qed

lemma update_accounts_frame:
  assumes "update_accounts se h qc locks db = Some (err, db')"
  shows "db_MetaInfo db' = db_MetaInfo db \<and> db_CommitInfo db' = db_CommitInfo db \<and> db_ProposalInfo db' = db_ProposalInfo db
    \<and> (\<forall>j. (j \<notin> fst ` set locks \<or> (\<forall>l. (j, l) \<in> set locks \<longrightarrow> l = NoLock)) \<longrightarrow> db_SafetyData db' j = db_SafetyData db j)"
  using assms
proof (induction locks arbitrary: db)
  case Nil
  then show ?case by simp
next
  case (Cons x locks)
  obtain i l where x: "x = (i, l)" by fastforce
  show ?case
  proof (cases "l = NoLock")
    case True
    with Cons x show ?thesis by fastforce
  next
    case False
    obtain info e db1 where s: "setSafetyData se i info db = (e, db1)"
        "(e \<noteq> None \<and> err = e \<and> db' = db1) \<or> (e = None \<and> update_accounts se h qc locks db1 = Some (err, db'))"
      by (rule update_accounts_locked [OF Cons.prems [unfolded x] False])
    note F = setSafetyData_frame [OF s(1)]
    from s(2) show ?thesis
    proof
      assume "e \<noteq> None \<and> err = e \<and> db' = db1"
      with F False x show ?thesis by auto
    next
      assume "e = None \<and> update_accounts se h qc locks db1 = Some (err, db')"
      with Cons.IH [of db1] F False x show ?thesis by auto
    qed
  qed
qed

lemma update_accounts_recorded:
  assumes "update_accounts se h qc locks db = Some (None, db')" and "(i, l) \<in> set locks" and "l \<noteq> NoLock"
    and "distinct (map fst locks)" and "\<forall>sd raw. se_encSafety se sd = Inr raw \<longrightarrow> se_decSafety se raw = Inr sd"
    and "se_error se ReadSafety i = None"
  shows "\<exists>sd. getSafetyData se db' i = Inr sd \<and> sd_Qc sd \<noteq> [] \<and> last (sd_Qc sd) = Some qc"
  using assms
proof (induction locks arbitrary: db)
  case Nil
  then show ?case by simp
next
  case (Cons x locks)
  obtain j lj where x: "x = (j, lj)" by fastforce
  show ?case
  proof (cases "j = i")
    case True
    then have "lj = l" using Cons.prems(2,4) x by (force simp: image_iff)
    then have "update_accounts se h qc ((i, l) # locks) db = Some (None, db')" using Cons.prems(1) x True by simp
    then obtain info db1 where s: "(case getSafetyData se db i of
          Inl e \<Rightarrow> Some \<lparr>sd_Qc = [Some qc], sd_TSHashes = [qc_TSHash qc], sd_ProposalTSHash = h\<rparr>
        | Inr sd \<Rightarrow> UpdateQc qc sd) = Some info"
        "setSafetyData se i info db = (None, db1)" "update_accounts se h qc locks db1 = Some (None, db')"
      using Cons.prems(3) by (rule update_accounts_locked) auto
    have info: "sd_Qc info \<noteq> [] \<and> last (sd_Qc info) = Some qc"
      using s(1) UpdateQc_last by (auto split: sum.splits)
    obtain raw where raw: "se_encSafety se info = Inr raw" "db_SafetyData db1 i = Some raw"
      using s(2) by (auto simp: setSafetyData_def split: sum.splits option.splits)
    have "i \<notin> fst ` set locks" using Cons.prems(4) x True by simp
    then have "db_SafetyData db' i = Some raw" using update_accounts_frame [OF s(3)] raw(2) by auto
    then have "getSafetyData se db' i = Inr info" using raw(1) Cons.prems(5,6) by (simp add: getSafetyData_def db_get_def)
    with info show ?thesis by blast
  next
    case False
    then have mem: "(i, l) \<in> set locks" using Cons.prems(2) x by auto
    obtain db1 where "update_accounts se h qc locks db1 = Some (None, db')"
    proof (cases "lj = NoLock")
      case True
      with Cons.prems(1) x that show ?thesis by simp
    next
      case False
      show ?thesis by (rule update_accounts_locked [OF Cons.prems(1) [unfolded x] False]) (use that in auto)
    qed
    from Cons.IH [OF this mem Cons.prems(3) _ Cons.prems(5,6)] Cons.prems(4) show ?thesis by simp
  qed
qed

text \<open>A failing read loses what was recorded: the account then has the new certificate only.\<close>

lemma UpdateSafetyInfo_read_error_overwrites:
  assumes "se_error se ReadSafety i = Some e" and "l \<noteq> NoLock" and "se_error se WriteSafety i = None"
    and "se_encSafety se \<lparr>sd_Qc = [Some qc], sd_TSHashes = [qc_TSHash qc], sd_ProposalTSHash = h\<rparr> = Inr raw"
  shows "update_accounts se h qc [(i, l)] db = Some (None, db\<lparr>db_SafetyData := (db_SafetyData db)(i \<mapsto> raw)\<rparr>)"
  using assms by (simp add: getSafetyData_def db_get_def setSafetyData_def)

text \<open>A certificate of an older view becomes the last one, so the last view goes back.\<close>

lemma UpdateQc_last_view_decreases:
  assumes "LastView sd = Some w" and "qc_View qc < w"
  shows "\<exists>sd'. UpdateQc qc sd = Some sd' \<and> LastView sd' = Some (qc_View qc)"
proof -
  obtain lq where q: "sd_Qc sd \<noteq> []" "last (sd_Qc sd) = Some lq" "qc_View lq = w"
    using assms(1) by (auto simp: LastView_def split: if_splits)
  have "\<not> w < qc_View qc" "w \<noteq> qc_View qc" using assms(2) by auto
  then have "UpdateQc qc sd = Some (sd\<lparr>sd_Qc := sd_Qc sd @ [Some qc], sd_TSHashes := sd_TSHashes sd @ [qc_TSHash qc]\<rparr>)"
    using q by (simp add: UpdateQc_def Let_def)
  then show ?thesis by (simp add: LastView_def)
qed

section \<open>Properties\<close>


text \<open>A codec that keeps the fields the example needs.\<close>

definition example_poxt :: "(Identifier \<times> LockType) list \<Rightarrow> PoXtData" where
  "example_poxt locks = \<lparr>px_Proposer = '''', px_BinaryHash = [], px_IdentityHash = [], px_View = 0, px_LastCommit = [],
     px_EvidenceHash = [], px_AccountLocks = locks, px_ICSSeed = [], px_ICSProof = []\<rparr>"

definition example_tesseract :: "(Identifier \<times> LockType) list \<Rightarrow> Tesseract" where
  "example_tesseract locks = \<lparr>th_participants = [], th_interactionsHash = [], th_receiptsHash = [], th_epoch = 0, th_timestamp = 0,
     th_fuelUsed = 0, th_fuelLimit = 0, th_consensusInfo = example_poxt locks, ts_seal = [], ts_sealBy = '''', ts_hash = None,
     ts_ixns = \<lparr>ixns = [], ixns_leaderCandidateID = []\<rparr>, ts_receipts = None,
     ts_commitInfo = Some \<lparr>ci_QC = None, ci_Operator = '''', ci_ClusterID = '''', ci_View = 0, ci_RandomSet = [],
       ci_RandomSetSizeWithoutDelta = 0\<rparr>\<rparr>"

definition example_qc :: "ConsensusMsgType \<Rightarrow> Qc" where
  "example_qc t = \<lparr>qc_Type = t, qc_ID = [], qc_LockType = MutateLock, qc_View = 1, qc_TSHash = [7], qc_SignerIndices = None,
     qc_Signature = []\<rparr>"

definition example_safety :: SafetyData where
  "example_safety = \<lparr>sd_Qc = [Some (example_qc PREVOTE)], sd_TSHashes = [[7]], sd_ProposalTSHash = [7]\<rparr>"

text \<open>The codec of the example encodes one value and rejects every other one.\<close>

definition example_safety_env :: SafetyEnv where
  "example_safety_env = \<lparr>se_codec = \<lparr>tc_SignBytes = (\<lambda>_. Inr [7]), tc_Sum256 = (\<lambda>x. x)\<rparr>,
     se_encSafety = (\<lambda>sd. if sd = example_safety then Inr [1] else Inl ''''),
     se_decSafety = (\<lambda>_. Inr example_safety),
     se_encProposal = (\<lambda>info. if info = NewProposalInfo (example_tesseract [([1], MutateLock)]) then Inr [2] else Inl ''''),
     se_decProposal = (\<lambda>_. Inr (NewProposalInfo (example_tesseract [([1], MutateLock)]))),
     se_decCommit = (\<lambda>_. Inl ''''), se_error = (\<lambda>_ _. None)\<rparr>"

definition example_store :: SafetyStore where
  "example_store = \<lparr>db_MetaInfo = (\<lambda>i. Some (i, [])), db_SafetyData = Map.empty, db_CommitInfo = Map.empty, db_ProposalInfo = []\<rparr>"


end
