(* ===== verification/Kbft.thy ===== *)
theory Kbft
  imports Consensus_Safety Vote_Set
begin

text \<open>
  The agreement service of src/consensus/kbft: kbft.go with its view steps, rounds.go, and the
  evidence of evidence.go. One state record holds the view state, the vote sets, the cluster and what
  the service has sent; a handler maps a state to the next one. Signing, the codec, the handler that
  stores a committed tesseract and the errors of the database are parameters.
\<close>

section \<open>The state\<close>

record Evidence =
  ev_IxHash :: Hash
  ev_Operator :: KramaID
  ev_Votes :: "Vote option list"
  ev_VoteSet :: "ArrayOfBits option"

definition NewEvidence :: "Hash \<Rightarrow> KramaID \<Rightarrow> nat \<Rightarrow> Evidence" where
  "NewEvidence ixHash operator n = \<lparr>ev_IxHash = ixHash, ev_Operator = operator, ev_Votes = replicate n None, ev_VoteSet = None\<rparr>"

definition evidence_AddVote :: "Vote \<Rightarrow> Evidence \<Rightarrow> Evidence" where
  "evidence_AddVote v e = e\<lparr>ev_Votes := ev_Votes e @ [Some v]\<rparr>"

definition AddVoteSet :: "ArrayOfBits option \<Rightarrow> Evidence \<Rightarrow> Evidence" where
  "AddVoteSet bitArray e = e\<lparr>ev_VoteSet := bitArray\<rparr>"

text \<open>The first vote of an evidence is not its first entry: the empty entries of the new one stay.\<close>

lemma evidence_keeps_empty_entries:
  "ev_Votes (evidence_AddVote v (NewEvidence ixHash operator n)) = replicate n None @ [Some v]"
  by (simp add: evidence_AddVote_def NewEvidence_def)

type_synonym ViewStepType = u8

abbreviation (input) ViewStepNewHeight :: ViewStepType where "ViewStepNewHeight \<equiv> 1"
abbreviation (input) ViewStepNewView :: ViewStepType where "ViewStepNewView \<equiv> 2"
abbreviation (input) ViewStepPropose :: ViewStepType where "ViewStepPropose \<equiv> 3"
abbreviation (input) ViewStepPrevote :: ViewStepType where "ViewStepPrevote \<equiv> 4"
abbreviation (input) ViewStepPrecommit :: ViewStepType where "ViewStepPrecommit \<equiv> 5"
abbreviation (input) ViewStepCommit :: ViewStepType where "ViewStepCommit \<equiv> 6"

text \<open>The fields \<^verbatim>\<open>Proposal\<close> and \<^verbatim>\<open>ProposalTS\<close> are set together and share the tesseract, so the second is
  read off the first. A channel is the list of what was sent to it; \<open>kb_selfRead\<close> messages of the own
  channel are received. \<open>kb_ts\<close> is the tesseract of the cluster, \<open>kb_handled\<close> what was given to the
  handler of tesseracts, \<open>kb_closed\<close> the results the service was closed with.\<close>

record KBFT =
  kb_Heights :: "(Identifier \<times> u64) list"
  kb_View :: u64
  kb_Step :: ViewStepType
  kb_CommitTime :: int
  kb_Votes :: HeightVoteSet
  kb_CommitView :: u64
  kb_Proposal :: "Proposal option"
  kb_id :: KramaID
  kb_operator :: KramaID
  kb_ics :: ClusterState
  kb_ts :: "Tesseract option"
  kb_nSteps :: int
  kb_evidence :: "Evidence option"
  kb_safety :: SafetyStore
  kb_IsTSStored :: bool
  kb_timeouts :: "(u64 \<times> u8) list"
  kb_self :: "ConsensusMessage list"
  kb_selfRead :: nat
  kb_out :: "ConsensusMessage list"
  kb_handled :: "Tesseract list"
  kb_closed :: "string option list"

definition kb_ProposalTS :: "KBFT \<Rightarrow> Tesseract option" where
  "kb_ProposalTS k = Option.bind (kb_Proposal k) prop_Tesseract"

text \<open>The surroundings of the service; a service without a vault has no \<open>ke_Sign\<close>.\<close>

record KEnv =
  ke_crypto :: Crypto
  ke_safety :: SafetyEnv
  ke_Sign :: "(u8 list \<Rightarrow> string + u8 list) option"
  ke_encEvidence :: "Evidence option \<Rightarrow> string + u8 list"
  ke_GetHash :: "u8 list \<Rightarrow> Hash"
  ke_handler :: "Tesseract \<Rightarrow> string option"
  ke_now :: int

definition updateViewStep :: "u64 \<Rightarrow> u8 \<Rightarrow> KBFT \<Rightarrow> KBFT" where
  "updateViewStep view step k = k\<lparr>kb_View := view, kb_Step := step\<rparr>"

definition stepChange :: "KBFT \<Rightarrow> KBFT" where
  "stepChange k = k\<lparr>kb_nSteps := kb_nSteps k + 1\<rparr>"

definition kb_Close :: "string option \<Rightarrow> KBFT \<Rightarrow> KBFT" where
  "kb_Close err k = k\<lparr>kb_closed := kb_closed k @ [err]\<rparr>"

definition isLeader :: "KBFT \<Rightarrow> KramaID \<Rightarrow> bool" where
  "isLeader k kramaID \<longleftrightarrow> kb_operator k = kramaID"

definition scheduleTimeout :: "u64 \<Rightarrow> u8 \<Rightarrow> KBFT \<Rightarrow> KBFT" where
  "scheduleTimeout view step k = k\<lparr>kb_timeouts := kb_timeouts k @ [(view, step)]\<rparr>"

definition isProposalReceived :: "KBFT \<Rightarrow> bool" where
  "isProposalReceived k \<longleftrightarrow> kb_Proposal k \<noteq> None \<and> kb_ProposalTS k \<noteq> None"

definition areHeightsEqual :: "(Identifier \<times> u64) list \<Rightarrow> (Identifier \<times> u64) list \<Rightarrow> bool" where
  "areHeightsEqual systemHeights newHeights \<longleftrightarrow>
     length systemHeights = length newHeights
     \<and> list_all (\<lambda>(ident, h). map_of newHeights ident = Some h) systemHeights"

definition updateToState :: "HeightVoteSet \<Rightarrow> KBFT \<Rightarrow> KBFT" where
  "updateToState votes k = stepChange (updateViewStep (cs_currentView (kb_ics k)) ViewStepNewHeight
     (k\<lparr>kb_Heights := NewHeights (kb_ics k)\<rparr>) \<lparr>kb_Proposal := None, kb_Votes := votes, kb_CommitView := 0\<rparr>)"

text \<open>A new service that is started: its view is scheduled.\<close>

definition NewKBFTService ::
  "KramaID \<Rightarrow> ClusterState \<Rightarrow> Tesseract option \<Rightarrow> HeightVoteSet \<Rightarrow> SafetyStore \<Rightarrow> bool \<Rightarrow> Evidence option \<Rightarrow> KBFT" where
  "NewKBFTService operator ics ts votes safety isTSStored evidence = updateToState votes
     \<lparr>kb_Heights = [], kb_View = 0, kb_Step = 0, kb_CommitTime = 0, kb_Votes = votes, kb_CommitView = 0, kb_Proposal = None,
      kb_id = cs_selfID ics, kb_operator = operator, kb_ics = ics, kb_ts = ts, kb_nSteps = 0, kb_evidence = evidence,
      kb_safety = safety, kb_IsTSStored = isTSStored, kb_timeouts = [], kb_self = [], kb_selfRead = 0, kb_out = [],
      kb_handled = [], kb_closed = []\<rparr>"

definition scheduleView :: "KBFT \<Rightarrow> KBFT" where
  "scheduleView k = scheduleTimeout (kb_View k) ViewStepNewHeight k"

section \<open>Sending\<close>

definition sendInternalMessage :: "ConsensusMessage \<Rightarrow> KBFT \<Rightarrow> KBFT" where
  "sendInternalMessage msg k = k\<lparr>kb_self := kb_self k @ [msg]\<rparr>"

definition sendExternalMessage :: "ConsensusMessage \<Rightarrow> KBFT \<Rightarrow> KBFT" where
  "sendExternalMessage msg k = k\<lparr>kb_out := kb_out k @ [msg]\<rparr>"

definition signVote ::
  "KEnv \<Rightarrow> (u8 list \<Rightarrow> string + u8 list) \<Rightarrow> ConsensusMsgType \<Rightarrow> Hash \<Rightarrow> KBFT \<Rightarrow> (string + Vote) option" where
  "signVote ke sign msgType tsHash k = do {
     (valIndex, _, _) \<leftarrow> cs_HasKramaID (kb_ics k) (kb_id k);
     let v = \<lparr>vote_Type = msgType, vote_IsQC = False, vote_View = kb_View k, vote_SignerIndex = valIndex,
               vote_TSHash = tsHash, vote_SignerIndices = None, vote_Signature = []\<rparr>;
     Some (if valIndex = -1 then Inl ''krama id not found''
           else (case cr_SignBytes (ke_crypto ke) (canonicalVote v) of
                   Inl err \<Rightarrow> Inl err
                 | Inr rawData \<Rightarrow> (case sign rawData of Inl err \<Rightarrow> Inl err | Inr sig \<Rightarrow> Inr (v\<lparr>vote_Signature := sig\<rparr>))))
   }"

definition sendVote :: "KEnv \<Rightarrow> ConsensusMsgType \<Rightarrow> Hash \<Rightarrow> bool \<Rightarrow> KBFT \<Rightarrow> KBFT option" where
  "sendVote ke msgType tsHash internalMessage k =
     (case ke_Sign ke of
        None \<Rightarrow> Some k
      | Some sign \<Rightarrow> do {
          r \<leftarrow> signVote ke sign msgType tsHash k;
          Some (case r of
                  Inl err \<Rightarrow> k
                | Inr v \<Rightarrow>
                    if internalMessage
                    then sendInternalMessage \<lparr>cm_PeerID = kb_id k, cm_Recipient = '''', cm_Payload = PayloadVote v\<rparr> k
                    else sendExternalMessage
                      \<lparr>cm_PeerID = kb_id k, cm_Recipient = cs_operator (kb_ics k), cm_Payload = PayloadVote v\<rparr> k)
        })"

definition sendQc :: "KEnv \<Rightarrow> ConsensusMsgType \<Rightarrow> Hash \<Rightarrow> KBFT \<Rightarrow> KBFT" where
  "sendQc ke msgType tsHash k =
     (case ke_Sign ke of
        None \<Rightarrow> k
      | Some _ \<Rightarrow>
          (let (indices, signature) =
                 (if msgType = PREVOTE then vs_GetQC (hvs_Prevotes (kb_Votes k))
                  else if msgType = PRECOMMIT then vs_GetQC (hvs_Precommits (kb_Votes k)) else (None, []));
               v = \<lparr>vote_Type = msgType, vote_IsQC = True, vote_View = kb_View k, vote_SignerIndex = 0,
                    vote_TSHash = tsHash, vote_SignerIndices = indices, vote_Signature = signature\<rparr>
           in sendExternalMessage \<lparr>cm_PeerID = kb_id k, cm_Recipient = '''', cm_Payload = PayloadVote v\<rparr> k))"

definition createProposal :: "KBFT \<Rightarrow> KBFT" where
  "createProposal k = sendInternalMessage \<lparr>cm_PeerID = kb_id k, cm_Recipient = '''',
     cm_Payload = PayloadProposal (NewProposal (cs_preparedQc (kb_ics k)) (kb_ts k))\<rparr> k"

section \<open>The steps of a view\<close>

definition ts_codec :: "KEnv \<Rightarrow> TSCodec" where
  "ts_codec ke = se_codec (ke_safety ke)"

definition enterPrevote :: "KEnv \<Rightarrow> u64 \<Rightarrow> KBFT \<Rightarrow> KBFT option" where
  "enterPrevote ke view k =
     (if kb_View k > view \<or> (kb_View k = view \<and> kb_Step k \<ge> ViewStepPrevote) then Some k
      else do {
        k1 \<leftarrow> (case kb_ProposalTS k of
                 None \<Rightarrow> sendVote ke PREVOTE NilHash (isLeader k (kb_id k)) k
               | Some t \<Rightarrow> do {
                   (h, _) \<leftarrow> Tesseract_Hash (ts_codec ke) t;
                   sendVote ke PREVOTE h (isLeader k (kb_id k)) k
                 });
        Some (stepChange (updateViewStep view ViewStepPrevote k1))
      })"

definition enterPropose :: "KEnv \<Rightarrow> u64 \<Rightarrow> KBFT \<Rightarrow> KBFT option" where
  "enterPropose ke view k =
     (if kb_View k > view \<or> (kb_View k = view \<and> kb_Step k \<ge> ViewStepPropose) then Some k
      else
        (let k1 = (if ke_Sign ke = None then k else if \<not> isLeader k (kb_id k) then k else createProposal k);
             k2 = stepChange (updateViewStep view ViewStepPropose k1)
         in if isProposalReceived k2 then enterPrevote ke (kb_View k2) k2 else Some k2))"

definition enterNewView :: "KEnv \<Rightarrow> u64 \<Rightarrow> KBFT \<Rightarrow> KBFT option" where
  "enterNewView ke view k =
     (if view < kb_View k \<or> (kb_View k = view \<and> kb_Step k \<noteq> ViewStepNewHeight) then Some k
      else
        (let k1 = updateViewStep view ViewStepNewView k;
             k2 = (if view \<noteq> 0 then k1\<lparr>kb_Proposal := None\<rparr> else k1)
         in enterPropose ke view k2))"

definition handleTimeout :: "KEnv \<Rightarrow> u64 \<times> u8 \<Rightarrow> KBFT \<Rightarrow> KBFT option" where
  "handleTimeout ke ti k =
     (if kb_View k > fst ti \<or> (fst ti = kb_View k \<and> snd ti < kb_Step k) then Some k
      else if snd ti = ViewStepNewHeight then enterNewView ke (fst ti) k else Some k)"

datatype kbft_error = KProposalSet | KHeightOrView | KInvalidView | KInvalidLeader | KVoteError vote_error

definition setProposal :: "KEnv \<Rightarrow> Proposal \<Rightarrow> KBFT \<Rightarrow> (kbft_error option \<times> KBFT) option" where
  "setProposal ke p k =
     (if kb_Proposal k \<noteq> None then Some (Some KProposalSet, k)
      else do {
        heightsDiffer \<leftarrow> (if \<not> kb_IsTSStored k
                          then map_option (\<lambda>t. \<not> areHeightsEqual (kb_Heights k) (Tesseract_Heights t)) (prop_Tesseract p)
                          else Some False);
        if heightsDiffer then Some (Some KHeightOrView, k)
        else do {
          view \<leftarrow> Proposal_View p;
          if view \<noteq> kb_View k then Some (Some KHeightOrView, k)
          else do {
            t \<leftarrow> prop_Tesseract p;
            (h, t') \<leftarrow> Tesseract_Hash (ts_codec ke) t;
            let p' = p\<lparr>prop_Tesseract := Some t'\<rparr>;
            let k1 = k\<lparr>kb_Proposal := Some p', kb_Votes := SetTSHash h (kb_Votes k)\<rparr>;
            k2 \<leftarrow> (if isLeader k1 (kb_id k1)
                   then map_option (\<lambda>c. sendExternalMessage
                     \<lparr>cm_PeerID = kb_id k1, cm_Recipient = '''', cm_Payload = PayloadProposal c\<rparr> k1) (Proposal_Copy p')
                   else Some k1);
            k3 \<leftarrow> (if kb_Step k2 \<le> ViewStepPropose \<and> isProposalReceived k2 then enterPrevote ke (kb_View k2) k2 else Some k2);
            Some (None, k3)
          }
        }
      })"

text \<open>The body of \<^verbatim>\<open>enterPreCommit\<close> before the deferred step change. The log line of a proposal that
  differs from the majority reads the proposal.\<close>

definition preCommit_body :: "KEnv \<Rightarrow> KBFT \<Rightarrow> KBFT option" where
  "preCommit_body ke k =
     (case SuperMajority (Prevotes (kb_Votes k)) of
        (tsHash, False) \<Rightarrow> Some k
      | (tsHash, True) \<Rightarrow> do {
          let k1 = (if isLeader k (kb_id k) then sendQc ke PREVOTE tsHash k else k);
          same \<leftarrow> CompareHash (ts_codec ke) (kb_ProposalTS k1) tsHash;
          if \<not> same then do {
            t \<leftarrow> kb_ProposalTS k1;
            map_option (\<lambda>_. k1) (Tesseract_Hash (ts_codec ke) t)
          }
          else do {
            r \<leftarrow> hvs_GetQC (kb_Votes k1) tsHash (kb_View k1) PREVOTE;
            (case r of
               Inl err \<Rightarrow> Some k1
             | Inr qc \<Rightarrow>
                 if kb_IsTSStored k1 then sendVote ke PRECOMMIT tsHash (isLeader k1 (kb_id k1)) k1
                 else do {
                   p \<leftarrow> kb_Proposal k1;
                   (err, db) \<leftarrow> UpdateSafetyInfo (ke_safety ke) p qc (kb_safety k1);
                   let k2 = k1\<lparr>kb_safety := db\<rparr>;
                   if err \<noteq> None then Some k2 else sendVote ke PRECOMMIT tsHash (isLeader k2 (kb_id k2)) k2
                 })
          }
        })"

definition enterPreCommit :: "KEnv \<Rightarrow> u64 \<Rightarrow> KBFT \<Rightarrow> KBFT option" where
  "enterPreCommit ke view k =
     (if kb_Step k \<ge> ViewStepPrecommit then Some k
      else do {
        k1 \<leftarrow> preCommit_body ke k;
        Some (stepChange (updateViewStep view ViewStepPrecommit k1))
      })"

section \<open>Committing\<close>

text \<open>The tesseract of the proposal is changed in place.\<close>

definition put_tesseract :: "Tesseract \<Rightarrow> KBFT \<Rightarrow> KBFT" where
  "put_tesseract t k = k\<lparr>kb_Proposal := map_option (\<lambda>p. p\<lparr>prop_Tesseract := Some t\<rparr>) (kb_Proposal k)\<rparr>"

definition updateConsensusInfoInTesseracts ::
  "KEnv \<Rightarrow> ArrayOfBits option \<Rightarrow> u8 list \<Rightarrow> KBFT \<Rightarrow> (string option \<times> KBFT) option" where
  "updateConsensusInfoInTesseracts ke preCommitBitSet signature k =
     (case ke_encEvidence ke (kb_evidence k) of
        Inl err \<Rightarrow> Some (Some err, k)
      | Inr data \<Rightarrow> do {
          t \<leftarrow> kb_ProposalTS k;
          (h, t0) \<leftarrow> Tesseract_Hash (ts_codec ke) t;
          let k1 = k\<lparr>kb_ics := AddDirty (ke_GetHash ke data) data (kb_ics k)\<rparr>;
          t1 \<leftarrow> SetCommitQc \<lparr>qc_Type = PRECOMMIT, qc_ID = [], qc_LockType = MutateLock, qc_View = kb_View k, qc_TSHash = h,
                  qc_SignerIndices = preCommitBitSet, qc_Signature = signature\<rparr> t0;
          let k2 = put_tesseract t1 k1;
          (case Tesseract_SignBytes (ts_codec ke) t1 of
             Inl err \<Rightarrow> Some (Some err, k2)
           | Inr rawData \<Rightarrow> do {
               sign \<leftarrow> ke_Sign ke;
               Some (case sign rawData of
                       Inl err \<Rightarrow> (Some err, k2)
                     | Inr seal \<Rightarrow> (None, put_tesseract (t1\<lparr>ts_seal := seal, ts_sealBy := kb_id k\<rparr>) k1))
             })
        })"

definition finalizeCommit :: "KEnv \<Rightarrow> KBFT \<Rightarrow> KBFT option" where
  "finalizeCommit ke k =
     (case SuperMajority (Precommits (kb_Votes k)) of
        (tsHash, ok) \<Rightarrow>
          if \<not> ok \<or> tsHash = NilHash then Some k
          else (case kb_Proposal k of
             None \<Rightarrow> Some k
           | Some p \<Rightarrow> do {
               same \<leftarrow> CompareHash (ts_codec ke) (prop_Tesseract p) tsHash;
               if \<not> same then Some k
               else if kb_Step k \<noteq> ViewStepCommit then Some k
               else do {
                 let (voteBitSet, sign) = vs_GetQC (hvs_Precommits (kb_Votes k));
                 (err, k1) \<leftarrow> updateConsensusInfoInTesseracts ke voteBitSet sign k;
                 (case err of
                    Some e \<Rightarrow> Some (kb_Close (Some e) k1)
                  | None \<Rightarrow> do {
                      t \<leftarrow> kb_ProposalTS k1;
                      Some (case ke_handler ke (Tesseract_Copy t) of
                              Some e \<Rightarrow> kb_Close (Some e) k1
                            | None \<Rightarrow> kb_Close None (k1\<lparr>kb_handled := kb_handled k1 @ [Tesseract_Copy t]\<rparr>))
                    })
               }
             }))"

definition commit_body :: "KEnv \<Rightarrow> KBFT \<Rightarrow> KBFT option" where
  "commit_body ke k =
     (case SuperMajority (Precommits (kb_Votes k)) of
        (tsHash, False) \<Rightarrow> None
      | (tsHash, True) \<Rightarrow> do {
          r \<leftarrow> hvs_GetQC (kb_Votes k) tsHash (kb_View k) PRECOMMIT;
          (case r of
             Inl err \<Rightarrow> Some k
           | Inr qc \<Rightarrow> do {
               (err, k1) \<leftarrow> (if kb_IsTSStored k then Some (None, k)
                 else do {
                   p \<leftarrow> kb_Proposal k;
                   (err, db) \<leftarrow> UpdateSafetyInfo (ke_safety ke) p qc (kb_safety k);
                   Some (err, k\<lparr>kb_safety := db\<rparr>)
                 });
               if err \<noteq> None then Some k1
               else Some (if isLeader k1 (kb_id k1) then sendQc ke PRECOMMIT tsHash k1 else k1)
             })
        })"

definition enterCommit :: "KEnv \<Rightarrow> u64 \<Rightarrow> KBFT \<Rightarrow> KBFT option" where
  "enterCommit ke view k =
     (if ViewStepCommit \<le> kb_Step k then Some k
      else do {
        k1 \<leftarrow> commit_body ke k;
        let k2 = stepChange ((updateViewStep (kb_View k1) ViewStepCommit k1)\<lparr>kb_CommitView := view, kb_CommitTime := ke_now ke\<rparr>);
        if kb_IsTSStored k2 then Some (kb_Close None k2) else finalizeCommit ke k2
      })"

section \<open>Votes and messages\<close>

text \<open>What follows an added vote: the next step when its vote set has a majority.\<close>

definition after_vote :: "KEnv \<Rightarrow> Vote \<Rightarrow> KBFT \<Rightarrow> KBFT option" where
  "after_vote ke v k =
     (if vote_Type v = PREVOTE then
        (if kb_View k = vote_View v \<and> kb_Step k \<ge> ViewStepPrevote then
           (case SuperMajority (Prevotes (kb_Votes k)) of
              (tsHash, ok) \<Rightarrow>
                if ok \<and> (isProposalReceived k \<or> tsHash \<noteq> NilHash) then enterPreCommit ke (vote_View v) k else Some k)
         else Some k)
      else if vote_Type v = PRECOMMIT then
        (case SuperMajority (Precommits (kb_Votes k)) of
           (tsHash, ok) \<Rightarrow>
             if ok \<and> isProposalReceived k
             then (if tsHash \<noteq> NilHash then enterCommit ke (vote_View v) k else Some k)
             else if kb_View k \<le> vote_View v
             then map_option (\<lambda>(any, ics). k\<lparr>kb_ics := ics\<rparr>) (HasMajorityAny (Precommits (kb_Votes k)) (kb_ics k))
             else Some k)
      else Some k)"

definition addVote :: "KEnv \<Rightarrow> Vote \<Rightarrow> KramaID \<Rightarrow> KBFT \<Rightarrow> ((bool \<times> kbft_error option) \<times> KBFT) option" where
  "addVote ke v peerID k =
     (if kb_View k \<noteq> vote_View v then Some ((False, Some KInvalidView), k)
      else (case kb_ProposalTS k of
        None \<Rightarrow> Some ((False, None), k)
      | Some t \<Rightarrow> do {
          (h, _) \<leftarrow> Tesseract_Hash (ts_codec ke) t;
          if h \<noteq> vote_TSHash v then Some ((False, None), k)
          else if vote_IsQC v \<and> \<not> isLeader k peerID then Some ((False, Some KInvalidLeader), k)
          else do {
            ((added, err), votes, ics) \<leftarrow>
              (if vote_IsQC v then hvs_AddQC (ke_crypto ke) v (kb_Votes k) (kb_ics k)
               else hvs_AddVote (ke_crypto ke) v (kb_Votes k) (kb_ics k));
            let k1 = k\<lparr>kb_Votes := votes, kb_ics := ics\<rparr>;
            if err = Some ErrConflictingVote then do {
              e \<leftarrow> kb_evidence k1;
              Some ((added, map_option KVoteError err), k1\<lparr>kb_evidence := Some (evidence_AddVote v e)\<rparr>)
            }
            else if \<not> added then Some ((added, map_option KVoteError err), k1)
            else do {
              k2 \<leftarrow> after_vote ke v k1;
              Some ((added, map_option KVoteError err), k2)
            }
          }
        }))"

definition handleMsg :: "KEnv \<Rightarrow> ConsensusMessage \<Rightarrow> KBFT \<Rightarrow> KBFT option" where
  "handleMsg ke msg k =
     (case cm_Payload msg of
        PayloadProposal p \<Rightarrow> map_option snd (setProposal ke p k)
      | PayloadVote v \<Rightarrow> map_option snd (addVote ke v (cm_PeerID msg) k))"

text \<open>One turn of the loop of \<^verbatim>\<open>handler\<close>: a message of a peer, an own message or a timeout. The signers of
  a certificate come from the decoder, which gives a bit array its elements.\<close>

definition wf_msg :: "ConsensusMessage \<Rightarrow> bool" where
  "wf_msg msg = (case cm_Payload msg of
     PayloadProposal p \<Rightarrow> True
   | PayloadVote v \<Rightarrow> (case vote_SignerIndices v of None \<Rightarrow> True | Some b \<Rightarrow> wf_bits b \<and> Size b < 2 ^ 31))"

inductive kbft_step :: "Crypto \<Rightarrow> KBFT \<Rightarrow> KBFT \<Rightarrow> bool" for cr where
  inbound: "ke_crypto ke = cr \<Longrightarrow> wf_msg msg \<Longrightarrow> handleMsg ke msg k = Some k' \<Longrightarrow> kbft_step cr k k'"
| self: "ke_crypto ke = cr \<Longrightarrow> kb_selfRead k < length (kb_self k) \<Longrightarrow>
    handleMsg ke (kb_self k ! kb_selfRead k) (k\<lparr>kb_selfRead := Suc (kb_selfRead k)\<rparr>) = Some k' \<Longrightarrow> kbft_step cr k k'"
| timeout: "ke_crypto ke = cr \<Longrightarrow> ti \<in> set (kb_timeouts k) \<Longrightarrow> handleTimeout ke ti k = Some k' \<Longrightarrow> kbft_step cr k k'"

end
