(* ===== verification/Kbft_Inv.thy ===== *)
theory Kbft_Inv
  imports Kbft
begin

text \<open>
  The invariant of the agreement service: what the stored votes are, when a proposal is set, what the
  node has voted, and which step a majority leads to. Every turn of its loop keeps it.
\<close>

section \<open>Stored votes\<close>

lemma updateSum_frame:
  assumes "updateSum slots vp vs = Some vs'"
  shows "vs_votes vs' = vs_votes vs" and "vs_maj23TsHash vs' = vs_maj23TsHash vs"
proof -
  have "vs_votes vs' = vs_votes vs \<and> vs_maj23TsHash vs' = vs_maj23TsHash vs"
    using assms unfolding updateSum_def
  proof (rule foldM_invariant)
    show "vs_votes vs = vs_votes vs \<and> vs_maj23TsHash vs = vs_maj23TsHash vs" by simp
  qed (auto simp: bind_eq_Some_conv)
  then show "vs_votes vs' = vs_votes vs" "vs_maj23TsHash vs' = vs_maj23TsHash vs" by simp_all
qed

lemma addVerifiedVote_votes:
  assumes "addVerifiedVote cr v p i slots isQc vs cs = Some (a, vs', cs')"
  shows "set (vs_votes vs') \<subseteq> insert (Some v) (set (vs_votes vs))"
proof (cases "vs' = vs")
  case False
  obtain ex where ex: "go_index (vs_votes vs) i = Some ex" using assms by (auto simp: addVerifiedVote_def bind_eq_Some_conv)
  then have "ex = None" using assms False by (cases ex) (auto simp: addVerifiedVote_def)
  note run = assms [unfolded addVerifiedVote_def ex \<open>ex = None\<close>, simplified]
  obtain votes where u: "go_update (vs_votes vs) i (Some v) = Some votes" using run by (auto simp: bind_eq_Some_conv)
  obtain r bits where s: "SetIndex (vs_votesBitArray vs) i True = Some (r, bits)" using run u by (auto simp: bind_eq_Some_conv)
  obtain vs1 where m: "updateSum slots p (vs\<lparr>vs_votes := votes, vs_votesBitArray := bits\<rparr>) = Some vs1"
    using run u s by (auto simp: bind_eq_Some_conv)
  have "vs_votes vs' = vs_votes vs1" using run u s m by (auto simp: bind_eq_Some_conv split: if_splits)
  moreover have "vs_votes vs1 = votes" using updateSum_frame(1) [OF m] by simp
  moreover have "set votes \<subseteq> insert (Some v) (set (vs_votes vs))"
    using u set_update_subset_insert [of "vs_votes vs" "nat i" "Some v"] by (auto simp: go_update_def split: if_splits)
  ultimately show ?thesis by simp
qed auto

lemma AddVote_votes:
  assumes "AddVote cr (Some v) h vs cs = Some ((a, e), vs', cs')"
  shows "set (vs_votes vs') \<subseteq> insert (Some v) (set (vs_votes vs))"
proof (cases "vs' = vs")
  case False
  then obtain slots b where "addVerifiedVote cr v 1 (vote_SignerIndex v) slots False vs cs = Some (b, vs', cs')"
    using assms by (auto simp: AddVote_def Let_def bind_eq_Some_conv sum.case_eq_if prod.case_eq_if option.case_eq_if split: if_splits)
  then show ?thesis by (rule addVerifiedVote_votes)
qed auto

lemma AddQc_votes:
  assumes "AddQc cr (Some v) h vs cs = Some ((a, e), vs', cs')"
  shows "set (vs_votes vs') \<subseteq> insert (Some v) (set (vs_votes vs))"
proof (cases "vs' = vs")
  case False
  then obtain sums where run: "foldM (\<lambda>(valIndex, slots) (vs, cs). do {
        (_, vs', cs') \<leftarrow> addVerifiedVote cr v 1 (int32 valIndex) slots True vs cs;
        Some (vs', cs') }) sums (vs, cs) = Some (vs', cs')"
    using assms False by (auto simp: AddQc_def bind_eq_Some_conv sum.case_eq_if prod.case_eq_if option.case_eq_if split: if_splits)
  have "set (vs_votes (fst (vs', cs'))) \<subseteq> insert (Some v) (set (vs_votes vs))"
    using run
  proof (rule foldM_invariant)
    show "set (vs_votes (fst (vs, cs))) \<subseteq> insert (Some v) (set (vs_votes vs))" by auto
  next
    fix x s s'
    assume "set (vs_votes (fst s)) \<subseteq> insert (Some v) (set (vs_votes vs))"
      and "(case x of (valIndex, slots) \<Rightarrow> \<lambda>(vs, cs). do {
        (_, vs', cs') \<leftarrow> addVerifiedVote cr v 1 (int32 valIndex) slots True vs cs;
        Some (vs', cs') }) s = Some s'"
    then show "set (vs_votes (fst s')) \<subseteq> insert (Some v) (set (vs_votes vs))"
      by (cases s) (auto simp: bind_eq_Some_conv split: prod.splits dest!: addVerifiedVote_votes)
  qed
  then show ?thesis by simp
qed auto

text \<open>The vote sets hold votes of their type and of one view.\<close>

definition votes_typed :: "u64 \<Rightarrow> HeightVoteSet \<Rightarrow> bool" where
  "votes_typed view hvs \<longleftrightarrow> (\<forall>t vs v. getVoteSet hvs t = Some vs \<longrightarrow> Some v \<in> set (vs_votes vs)
     \<longrightarrow> vote_Type v = t \<and> vote_View v = view)"

definition votes_fresh :: "HeightVoteSet \<Rightarrow> bool" where
  "votes_fresh hvs \<longleftrightarrow> (\<forall>vs \<in> {hvs_Prevotes hvs, hvs_Precommits hvs}. set (vs_votes vs) \<subseteq> {None} \<and> vs_maj23TsHash vs = None)"

text \<open>Adding a vote, alone or as a certificate.\<close>

definition add_any ::
  "Crypto \<Rightarrow> Vote \<Rightarrow> HeightVoteSet \<Rightarrow> ClusterState \<Rightarrow> ((bool \<times> vote_error option) \<times> HeightVoteSet \<times> ClusterState) option" where
  "add_any cr v hvs cs = (if vote_IsQC v then hvs_AddQC cr v hvs cs else hvs_AddVote cr v hvs cs)"

lemma add_any_typed:
  assumes "add_any cr v hvs cs = Some (r, hvs', cs')" and "votes_typed view hvs" and "vote_View v = view"
  shows "votes_typed view hvs'"
proof -
  obtain vs vs' where vs: "getVoteSet hvs (vote_Type v) = Some vs" "hvs' = putVoteSet (vote_Type v) vs' hvs"
      "set (vs_votes vs') \<subseteq> insert (Some v) (set (vs_votes vs))"
    using assms(1) AddVote_votes AddQc_votes
    by (auto simp: add_any_def hvs_AddVote_def hvs_AddQC_def bind_eq_Some_conv split: if_splits)
  have "vote_Type w = t \<and> vote_View w = view" if "getVoteSet hvs' t = Some u" "Some w \<in> set (vs_votes u)" for t u w
  proof (cases "t = vote_Type v")
    case True
    then have "u = vs'" using that(1) vs(1,2) by (auto simp: getVoteSet_def putVoteSet_def split: if_splits)
    then have "Some w = Some v \<or> Some w \<in> set (vs_votes vs)" using that(2) vs(3) by blast
    then show ?thesis using assms(2,3) vs(1) True by (auto simp: votes_typed_def)
  next
    case False
    then have "getVoteSet hvs t = Some u" using that(1) vs(1,2) by (auto simp: getVoteSet_def putVoteSet_def split: if_splits)
    then show ?thesis using assms(2) that(2) by (auto simp: votes_typed_def)
  qed
  then show ?thesis by (auto simp: votes_typed_def)
qed

lemma add_any_step:
  assumes "add_any cr v hvs cs = Some (r, hvs', cs')"
    and "\<forall>b. vote_SignerIndices v = Some b \<longrightarrow> wf_bits b \<and> Size b < 2 ^ 31"
  shows "hvs_step cr (hvs, cs) (hvs', cs') \<or> (hvs', cs') = (hvs, cs)"
proof (cases "vote_IsQC v")
  case True
  then have qc: "hvs_AddQC cr v hvs cs = Some (r, hvs', cs')" using assms(1) by (simp add: add_any_def)
  show ?thesis
  proof (cases "vote_SignerIndices v")
    case None
    then have "(hvs', cs') = (hvs, cs)"
      using qc by (auto simp: hvs_AddQC_def AddQc_def bind_eq_Some_conv getVoteSet_def putVoteSet_def split: if_splits)
    then show ?thesis ..
  next
    case (Some b)
    with qc assms(2) show ?thesis using hvs_step.qc by blast
  qed
next
  case False
  then show ?thesis using assms(1) hvs_step.vote by (simp add: add_any_def)
qed
section \<open>What the node sends\<close>

definition sent_votes :: "ConsensusMsgType \<Rightarrow> ConsensusMessage list \<Rightarrow> Vote list" where
  "sent_votes t msgs = filter (\<lambda>v. vote_Type v = t \<and> \<not> vote_IsQC v)
     (List.map_filter (\<lambda>m. case cm_Payload m of PayloadVote v \<Rightarrow> Some v | PayloadProposal p \<Rightarrow> None) msgs)"

text \<open>The votes of the node itself, wherever it sent them.\<close>

definition own_votes :: "ConsensusMsgType \<Rightarrow> KBFT \<Rightarrow> Vote multiset" where
  "own_votes t k = mset (sent_votes t (kb_self k)) + mset (sent_votes t (kb_out k))"

lemma sent_votes_simps [simp]:
  "sent_votes t [] = []" "sent_votes t (a @ b) = sent_votes t a @ sent_votes t b"
  "cm_Payload m = PayloadProposal p \<Longrightarrow> sent_votes t [m] = []"
  "cm_Payload m = PayloadVote v \<Longrightarrow> sent_votes t [m] = (if vote_Type v = t \<and> \<not> vote_IsQC v then [v] else [])"
  by (simp_all add: sent_votes_def map_filter_simps) (simp add: List.map_filter_def)

text \<open>A step that only sends, and writes safety data: the votes \<open>vs\<close> of type \<open>t\<close> are the new ones.\<close>

definition sends :: "ConsensusMsgType \<Rightarrow> Vote list \<Rightarrow> KBFT \<Rightarrow> KBFT \<Rightarrow> bool" where
  "sends t vs k k' \<longleftrightarrow> k' = k\<lparr>kb_self := kb_self k', kb_out := kb_out k', kb_safety := kb_safety k'\<rparr>
     \<and> (\<forall>m \<in> set (kb_self k'). m \<in> set (kb_self k) \<or> wf_msg m)
     \<and> (\<forall>u. own_votes u k' = own_votes u k + (if u = t then mset vs else {#}))"

lemma sends_refl: "sends t [] k k"
  by (simp add: sends_def)

lemma sends_own: "sends t vs k k' \<Longrightarrow> own_votes u k' = own_votes u k + (if u = t then mset vs else {#})"
  unfolding sends_def by blast

lemma sends_trans: "sends t vs k k1 \<Longrightarrow> sends t ws k1 k2 \<Longrightarrow> sends t (vs @ ws) k k2"
proof -
  assume a: "sends t vs k k1" "sends t ws k1 k2"
  have "k2 = k\<lparr>kb_self := kb_self k2, kb_out := kb_out k2, kb_safety := kb_safety k2\<rparr>"
    using a unfolding sends_def by (cases k; cases k1; cases k2) simp
  moreover have "own_votes u k2 = own_votes u k + (if u = t then mset (vs @ ws) else {#})" for u
    using sends_own [OF a(1), of u] sends_own [OF a(2), of u] by (simp add: add.assoc)
  moreover have "\<forall>m \<in> set (kb_self k2). m \<in> set (kb_self k) \<or> wf_msg m" using a unfolding sends_def by blast
  ultimately show ?thesis unfolding sends_def by blast
qed

lemma sends_safety: "sends t [] k (k\<lparr>kb_safety := db\<rparr>)"
  by (simp add: sends_def own_votes_def)

lemma sendQc_sends: "sends t [] k (sendQc ke u h k)"
  by (auto simp: sends_def own_votes_def sendQc_def sendExternalMessage_def Let_def split: option.splits prod.splits)

lemma sendVote_sends:
  assumes "sendVote ke t h b k = Some k'"
  obtains vs where "sends t vs k k'" and "length vs \<le> 1"
    and "\<forall>v \<in> set vs. vote_View v = kb_View k \<and> vote_TSHash v = h \<and> vote_Type v = t"
proof (cases "k' = k")
  case True
  with that [of "[]"] sends_refl show ?thesis by simp
next
  case False
  then obtain sign r where sr: "ke_Sign ke = Some sign" "signVote ke sign t h k = Some r"
    using assms by (auto simp: sendVote_def bind_eq_Some_conv split: option.splits)
  then obtain v where sv: "signVote ke sign t h k = Some (Inr v)"
      "k' = (if b then sendInternalMessage \<lparr>cm_PeerID = kb_id k, cm_Recipient = '''', cm_Payload = PayloadVote v\<rparr> k
         else sendExternalMessage \<lparr>cm_PeerID = kb_id k, cm_Recipient = cs_operator (kb_ics k), cm_Payload = PayloadVote v\<rparr> k)"
    using assms False by (cases r) (auto simp: sendVote_def)
  from sv(1) have v: "vote_Type v = t" "\<not> vote_IsQC v" "vote_View v = kb_View k" "vote_TSHash v = h" "vote_SignerIndices v = None"
    by (auto simp: signVote_def Let_def bind_eq_Some_conv split: if_splits sum.splits)
  have "sends t [v] k k'"
    unfolding sv(2) using v
    by (auto simp: sends_def own_votes_def sendInternalMessage_def sendExternalMessage_def wf_msg_def)
  with that [of "[v]"] v show ?thesis by simp
qed

lemma sendsD:
  assumes "sends t vs k k'"
  shows "kb_Votes k' = kb_Votes k" "kb_ics k' = kb_ics k" "kb_Proposal k' = kb_Proposal k" "kb_View k' = kb_View k"
    "kb_Step k' = kb_Step k" "kb_timeouts k' = kb_timeouts k" "kb_handled k' = kb_handled k" "kb_closed k' = kb_closed k"
    "kb_IsTSStored k' = kb_IsTSStored k" "kb_ProposalTS k' = kb_ProposalTS k"
proof -
  have e: "k' = k\<lparr>kb_self := kb_self k', kb_out := kb_out k', kb_safety := kb_safety k'\<rparr>" using assms by (simp add: sends_def)
  show "kb_Votes k' = kb_Votes k" "kb_ics k' = kb_ics k" "kb_Proposal k' = kb_Proposal k" "kb_View k' = kb_View k"
    "kb_Step k' = kb_Step k" "kb_timeouts k' = kb_timeouts k" "kb_handled k' = kb_handled k" "kb_closed k' = kb_closed k"
    "kb_IsTSStored k' = kb_IsTSStored k" "kb_ProposalTS k' = kb_ProposalTS k"
    by (subst e, simp add: kb_ProposalTS_def)+
qed

lemma sends_msgs: "sends t vs k k' \<Longrightarrow> \<forall>m \<in> set (kb_self k). wf_msg m \<Longrightarrow> \<forall>m \<in> set (kb_self k'). wf_msg m"
  unfolding sends_def by blast

section \<open>The invariant\<close>

text \<open>What is true of a state in the middle of a handler too.\<close>

definition kbft_base :: "Crypto \<Rightarrow> KBFT \<Rightarrow> bool" where
  "kbft_base cr k \<longleftrightarrow> hvs_inv cr (kb_Votes k, kb_ics k) \<and> votes_typed (kb_View k) (kb_Votes k)
     \<and> set (kb_timeouts k) \<subseteq> {(kb_View k, ViewStepNewHeight)} \<and> (\<forall>m \<in> set (kb_self k). wf_msg m)
     \<and> (case kb_Proposal k of
          None \<Rightarrow> votes_fresh (kb_Votes k) \<and> kb_Step k < ViewStepPrevote
        | Some p \<Rightarrow> ViewStepPrevote \<le> kb_Step k
            \<and> (\<exists>t. prop_Tesseract p = Some t \<and> ts_hash t = Some (hvs_tsHash (kb_Votes k))))"

definition prevote_majority :: "KBFT \<Rightarrow> Hash option" where
  "prevote_majority k = vs_maj23TsHash (hvs_Prevotes (kb_Votes k))"

definition precommit_majority :: "KBFT \<Rightarrow> Hash option" where
  "precommit_majority k = vs_maj23TsHash (hvs_Precommits (kb_Votes k))"

text \<open>What the node has voted.\<close>

definition kbft_voted :: "KBFT \<Rightarrow> bool" where
  "kbft_voted k \<longleftrightarrow> size (own_votes PREVOTE k) \<le> (if ViewStepPrevote \<le> kb_Step k then 1 else 0)
     \<and> size (own_votes PRECOMMIT k) \<le> (if ViewStepPrecommit \<le> kb_Step k then 1 else 0)
     \<and> (\<forall>v \<in># own_votes PREVOTE k. vote_View v = kb_View k \<and> vote_TSHash v = hvs_tsHash (kb_Votes k))
     \<and> (\<forall>v \<in># own_votes PRECOMMIT k. vote_View v = kb_View k \<and> prevote_majority k = Some (vote_TSHash v))"

text \<open>A tesseract that was handed over is the one of the proposal, with a commit certificate for it.\<close>

definition handed_over :: "KBFT \<Rightarrow> Tesseract \<Rightarrow> bool" where
  "handed_over k t \<longleftrightarrow> (\<exists>p s ci qc. kb_Proposal k = Some p \<and> prop_Tesseract p = Some s \<and> TSHeader.truncate t = TSHeader.truncate s
     \<and> ts_commitInfo t = Some ci \<and> ci_QC ci = Some qc \<and> qc_Type qc = PRECOMMIT \<and> qc_View qc = kb_View k
     \<and> qc_TSHash qc = hvs_tsHash (kb_Votes k) \<and> precommit_majority k = Some (hvs_tsHash (kb_Votes k)))"

text \<open>The step a majority leads to.\<close>

definition kbft_moved :: "KBFT \<Rightarrow> bool" where
  "kbft_moved k \<longleftrightarrow> (prevote_majority k \<noteq> None \<longrightarrow> ViewStepPrecommit \<le> kb_Step k)
     \<and> (\<forall>h. precommit_majority k = Some h \<longrightarrow> h \<noteq> NilHash \<longrightarrow> kb_Step k = ViewStepCommit)"

definition kbft_done :: "KBFT \<Rightarrow> bool" where
  "kbft_done k \<longleftrightarrow> kb_Step k \<le> ViewStepCommit
     \<and> (kb_Step k = ViewStepCommit \<longrightarrow> precommit_majority k \<noteq> None \<and> (hvs_tsHash (kb_Votes k) \<noteq> [] \<longrightarrow> kb_closed k \<noteq> []))
     \<and> (\<forall>t \<in> set (kb_handled k). kb_Step k = ViewStepCommit \<and> handed_over k t)"

definition kbft_inv :: "Crypto \<Rightarrow> KBFT \<Rightarrow> bool" where
  "kbft_inv cr k \<longleftrightarrow> kbft_base cr k \<and> kbft_voted k \<and> kbft_moved k \<and> kbft_done k"

lemma majority_hash:
  assumes "kbft_base cr k" and "prevote_majority k = Some h \<or> precommit_majority k = Some h"
  shows "h = hvs_tsHash (kb_Votes k)"
  using assms vs_invD(8)
  by (auto simp: kbft_base_def hvs_inv_def prevote_majority_def precommit_majority_def)

lemma vs_inv_rehash:
  assumes "vs_inv cr cs h vs" and "set (vs_votes vs) \<subseteq> {None}" and "vs_maj23TsHash vs = None"
  shows "vs_inv cr cs h' vs"
proof -
  have "vs_votes vs ! i \<noteq> Some v" if "i < length (roster (cs_committee cs))" for i v
    using assms(2) that vs_invD(1) [OF assms(1)] subsetD [OF assms(2) nth_mem, of i] by auto
  with assms(1,3) show ?thesis by (simp add: vs_inv_def Let_def)
qed

lemma SetTSHash_frame [simp]:
  "getVoteSet (SetTSHash h hvs) t = getVoteSet hvs t" "votes_typed view (SetTSHash h hvs) = votes_typed view hvs"
  "hvs_tsHash (SetTSHash h hvs) = h"
  by (simp_all add: votes_typed_def getVoteSet_def SetTSHash_def)

lemma hvs_inv_SetTSHash: "hvs_inv cr (hvs, cs) \<Longrightarrow> votes_fresh hvs \<Longrightarrow> hvs_inv cr (SetTSHash h hvs, cs)"
  using vs_inv_rehash by (auto simp: hvs_inv_def SetTSHash_def votes_fresh_def split: if_splits)

lemma SuperMajority_eq:
  "SuperMajority (Prevotes (kb_Votes k)) = (case prevote_majority k of Some h \<Rightarrow> (h, True) | None \<Rightarrow> (NilHash, False))"
  "SuperMajority (Precommits (kb_Votes k)) = (case precommit_majority k of Some h \<Rightarrow> (h, True) | None \<Rightarrow> (NilHash, False))"
  by (simp_all add: SuperMajority_def Prevotes_def Precommits_def getVoteSet_def prevote_majority_def precommit_majority_def)

lemma base_proposal:
  assumes "kbft_base cr k" and "kb_Proposal k = Some p"
  obtains t where "prop_Tesseract p = Some t" and "ts_hash t = Some (hvs_tsHash (kb_Votes k))" and "kb_ProposalTS k = Some t"
    and "ViewStepPrevote \<le> kb_Step k"
  using assms by (auto simp: kbft_base_def kb_ProposalTS_def)

lemma base_ProposalTS:
  assumes "kbft_base cr k" and "kb_ProposalTS k = Some t"
  shows "ts_hash t = Some (hvs_tsHash (kb_Votes k))" and "kb_Proposal k \<noteq> None" and "ViewStepPrevote \<le> kb_Step k"
  using assms by (auto simp: kbft_base_def kb_ProposalTS_def bind_eq_Some_conv)

text \<open>Sending keeps the parts of the invariant that do not speak of the sent votes.\<close>

lemma sends_base: "sends t vs k k' \<Longrightarrow> kbft_base cr k \<Longrightarrow> kbft_base cr k'"
  using sends_msgs [of t vs k k'] by (cases "kb_Proposal k") (simp_all add: kbft_base_def sendsD)

lemma sends_done: "sends t vs k k' \<Longrightarrow> kbft_done k' = kbft_done k"
  by (simp add: kbft_done_def handed_over_def precommit_majority_def sendsD)

lemma sends_moved: "sends t vs k k' \<Longrightarrow> kbft_moved k' = kbft_moved k"
  by (simp add: kbft_moved_def precommit_majority_def prevote_majority_def sendsD)

lemma sends_voted: "sends t [] k k' \<Longrightarrow> kbft_voted k' = kbft_voted k"
  by (simp add: kbft_voted_def prevote_majority_def sendsD sends_own)

section \<open>Every handler keeps the invariant\<close>

lemma kbft_inv_low:
  assumes "kbft_inv cr k" and "kb_Step k < ViewStepPrevote"
  shows "kb_Proposal k = None" and "votes_fresh (kb_Votes k)" and "own_votes PREVOTE k = {#}" and "own_votes PRECOMMIT k = {#}"
    and "kb_handled k = []" and "prevote_majority k = None" and "precommit_majority k = None"
proof -
  have lt: "\<not> ViewStepPrevote \<le> kb_Step k" "\<not> ViewStepPrecommit \<le> kb_Step k" "kb_Step k \<noteq> ViewStepCommit"
    using assms(2) by (auto simp: word_less_nat_alt word_le_nat_alt)
  show p: "kb_Proposal k = None" and f: "votes_fresh (kb_Votes k)"
    using assms lt by (auto simp: kbft_inv_def kbft_base_def split: option.splits)
  show "own_votes PREVOTE k = {#}" "own_votes PRECOMMIT k = {#}" "kb_handled k = []"
    using assms lt by (auto simp: kbft_inv_def kbft_voted_def kbft_done_def)
  show "prevote_majority k = None" "precommit_majority k = None"
    using f by (auto simp: votes_fresh_def prevote_majority_def precommit_majority_def)
qed

lemma handleTimeout_result:
  assumes "kbft_inv cr k" and "ti \<in> set (kb_timeouts k)" and "handleTimeout ke ti k = Some k'" and "k' \<noteq> k"
  obtains k1 where "sends PREVOTE [] k k1" and "k' = stepChange (updateViewStep (kb_View k) ViewStepPropose k1)"
    and "kb_Step k < ViewStepPrevote"
proof -
  have ti: "ti = (kb_View k, ViewStepNewHeight)" using assms(1,2) by (auto simp: kbft_inv_def kbft_base_def)
  then have step: "kb_Step k = ViewStepNewHeight"
    using assms(3,4) by (auto simp: handleTimeout_def enterNewView_def split: if_splits)
  have none: "kb_Proposal k = None" using kbft_inv_low(1) [OF assms(1)] step by simp
  define k1 where "k1 = (if ke_Sign ke = None then k else if \<not> isLeader k (kb_id k) then k else createProposal k)"
  have "sends PREVOTE [] k k1"
    by (auto simp: k1_def createProposal_def sendInternalMessage_def sends_def own_votes_def wf_msg_def)
  moreover have "k' = stepChange (updateViewStep (kb_View k) ViewStepPropose k1)"
    using assms(3) step none
    by (auto simp: handleTimeout_def enterNewView_def enterPropose_def ti updateViewStep_def stepChange_def isProposalReceived_def
        k1_def Let_def createProposal_def sendInternalMessage_def isLeader_def split: if_splits)
  ultimately show ?thesis using that step by simp
qed

lemma handleTimeout_inv:
  assumes "kbft_inv cr k" and "ti \<in> set (kb_timeouts k)" and "handleTimeout ke ti k = Some k'"
  shows "kbft_inv cr k'"
proof (cases "k' = k")
  case True
  then show ?thesis using assms(1) by simp
next
  case False
  obtain k1 where k1: "sends PREVOTE [] k k1" "k' = stepChange (updateViewStep (kb_View k) ViewStepPropose k1)" "kb_Step k < ViewStepPrevote"
    by (rule handleTimeout_result [OF assms False])
  note low = kbft_inv_low [OF assms(1) k1(3)] and D = sendsD [OF k1(1)]
  have k': "k' = k1\<lparr>kb_View := kb_View k, kb_Step := ViewStepPropose, kb_nSteps := kb_nSteps k1 + 1\<rparr>"
    by (simp add: k1(2) stepChange_def updateViewStep_def)
  have "kbft_base cr k'"
    using assms(1) sends_base [OF k1(1), of cr] low(1,2) by (auto simp: k' kbft_inv_def kbft_base_def D)
  moreover have "own_votes t k' = own_votes t k" for t using sends_own [OF k1(1), of t] by (simp add: k' own_votes_def)
  ultimately show ?thesis
    using low assms(1)
    by (auto simp: kbft_inv_def kbft_voted_def kbft_moved_def kbft_done_def k' D prevote_majority_def precommit_majority_def)
qed

text \<open>A proposal that is accepted: its hash is the one under vote, and the node prevotes for it.\<close>

lemma setProposal_result:
  assumes "kbft_inv cr k" and "setProposal ke p k = Some (err, k')" and "k' \<noteq> k"
  obtains h t' vs k3 where "kb_Proposal k = None" and "kb_Step k < ViewStepPrevote" and "ts_hash t' = Some h"
    and "sends PREVOTE vs (k\<lparr>kb_Proposal := Some (p\<lparr>prop_Tesseract := Some t'\<rparr>), kb_Votes := SetTSHash h (kb_Votes k)\<rparr>) k3"
    and "length vs \<le> 1" and "\<forall>v \<in> set vs. vote_View v = kb_View k \<and> vote_TSHash v = h"
    and "k' = stepChange (updateViewStep (kb_View k) ViewStepPrevote k3)"
proof -
  have none: "kb_Proposal k = None" using assms(2,3) by (cases "kb_Proposal k") (auto simp: setProposal_def)
  then have step: "kb_Step k < ViewStepPrevote" using assms(1) by (simp add: kbft_inv_def kbft_base_def)
  then have step': "kb_Step k \<le> ViewStepPropose" by (simp add: word_le_nat_alt word_less_nat_alt)
  obtain t h t' where t: "prop_Tesseract p = Some t" "Tesseract_Hash (ts_codec ke) t = Some (h, t')"
    using assms(2,3) none by (auto simp: setProposal_def bind_eq_Some_conv split: if_splits)
  define p' where "p' = p\<lparr>prop_Tesseract := Some t'\<rparr>"
  define k1 where "k1 = k\<lparr>kb_Proposal := Some p', kb_Votes := SetTSHash h (kb_Votes k)\<rparr>"
  let ?A = "if isLeader k1 (kb_id k1) then map_option (\<lambda>c. sendExternalMessage
        \<lparr>cm_PeerID = kb_id k1, cm_Recipient = '''', cm_Payload = PayloadProposal c\<rparr> k1) (Proposal_Copy p') else Some k1"
  let ?B = "\<lambda>k2. if kb_Step k2 \<le> ViewStepPropose \<and> isProposalReceived k2 then enterPrevote ke (kb_View k2) k2 else Some k2"
  have checks: "kb_IsTSStored k \<or> areHeightsEqual (kb_Heights k) (Tesseract_Heights t)" "Proposal_View p = Some (kb_View k)"
    using assms(2,3) none t by (auto simp: setProposal_def bind_eq_Some_conv split: if_splits)
  then have "setProposal ke p k = Option.bind ?A (\<lambda>k2. Option.bind (?B k2) (\<lambda>k3. Some (None, k3)))"
    using none t by (auto simp: setProposal_def Let_def p'_def k1_def)
  then have "Option.bind ?A (\<lambda>k2. Option.bind (?B k2) (\<lambda>k3. Some (None, k3))) = Some (err, k')" using assms(2) by (rule subst)
  then obtain k2 where k2: "?A = Some k2" "?B k2 = Some k'" unfolding bind_eq_Some_conv by blast
  have s2: "sends PREVOTE [] k1 k2"
    using k2(1) by (auto simp: sendExternalMessage_def sends_def own_votes_def split: if_splits)
  note D = sendsD [OF s2]
  have ts: "kb_ProposalTS k2 = Some t'" "ts_hash t' = Some h"
    using D Tesseract_Hash_cached(1) [OF t(2)] by (simp_all add: kb_ProposalTS_def k1_def p'_def)
  have "isProposalReceived k2" using ts(1) D by (simp add: isProposalReceived_def k1_def)
  then have "enterPrevote ke (kb_View k2) k2 = Some k'" using k2(2) D step' by (simp add: k1_def)
  moreover have "\<not> ViewStepPrevote \<le> kb_Step k2" using D(5) step by (simp add: k1_def not_le)
  ultimately obtain k3 where k3: "sendVote ke PREVOTE h (isLeader k2 (kb_id k2)) k2 = Some k3"
      "k' = stepChange (updateViewStep (kb_View k2) ViewStepPrevote k3)"
    using Tesseract_Hash_of_cache [OF ts(2)] by (auto simp: enterPrevote_def ts(1) bind_eq_Some_conv)
  obtain vs where vs: "sends PREVOTE vs k2 k3" "length vs \<le> 1"
      "\<forall>v \<in> set vs. vote_View v = kb_View k2 \<and> vote_TSHash v = h \<and> vote_Type v = PREVOTE"
    by (rule sendVote_sends [OF k3(1)])
  have s3: "sends PREVOTE vs k1 k3" using sends_trans [OF s2 vs(1)] by simp
  show ?thesis using that [OF none step ts(2) s3 [unfolded k1_def p'_def] vs(2)] vs(3) k3(2) D(4) by (simp add: k1_def)
qed

lemma setProposal_inv:
  assumes "kbft_inv cr k" and "setProposal ke p k = Some (err, k')"
  shows "kbft_inv cr k'"
proof (cases "k' = k")
  case True
  then show ?thesis using assms(1) by simp
next
  case False
  obtain h t' vs k3 where r: "kb_Proposal k = None" "kb_Step k < ViewStepPrevote" "ts_hash t' = Some h"
      "sends PREVOTE vs (k\<lparr>kb_Proposal := Some (p\<lparr>prop_Tesseract := Some t'\<rparr>), kb_Votes := SetTSHash h (kb_Votes k)\<rparr>) k3"
      "length vs \<le> 1" "\<forall>v \<in> set vs. vote_View v = kb_View k \<and> vote_TSHash v = h"
      "k' = stepChange (updateViewStep (kb_View k) ViewStepPrevote k3)"
    by (rule setProposal_result [OF assms False])
  note low = kbft_inv_low [OF assms(1) r(2)] and D = sendsD [OF r(4), simplified] and O = sends_own [OF r(4)]
  have own: "own_votes u k' = (if u = PREVOTE then mset vs else own_votes u k)" for u
    using O [of u] low(3) by (simp add: r(7) stepChange_def updateViewStep_def own_votes_def)
  have k': "kb_Votes k' = SetTSHash h (kb_Votes k)" "kb_ics k' = kb_ics k" "kb_Proposal k' = Some (p\<lparr>prop_Tesseract := Some t'\<rparr>)"
      "kb_View k' = kb_View k" "kb_Step k' = ViewStepPrevote" "kb_timeouts k' = kb_timeouts k" "kb_handled k' = []" "kb_self k' = kb_self k3"
    using D low(5) by (simp_all add: r(7) stepChange_def updateViewStep_def)
  have wf: "\<forall>m \<in> set (kb_self k'). wf_msg m"
    using sends_msgs [OF r(4)] assms(1) by (simp add: kbft_inv_def kbft_base_def k'(8))
  have fresh: "votes_fresh (SetTSHash h (kb_Votes k))" using low(2) by (simp add: votes_fresh_def SetTSHash_def)
  have "kbft_base cr k'"
    using assms(1) hvs_inv_SetTSHash [OF _ low(2)] wf r(3) by (auto simp: kbft_inv_def kbft_base_def k')
  moreover have maj: "prevote_majority k' = None" "precommit_majority k' = None"
    using fresh by (auto simp: votes_fresh_def prevote_majority_def precommit_majority_def k')
  ultimately show ?thesis
    using r(5,6) low(4) own
    by (auto simp: kbft_inv_def kbft_voted_def kbft_moved_def kbft_done_def k' SetTSHash_def)
qed

section \<open>Precommits\<close>

lemma preCommit_body_sends:
  assumes "preCommit_body ke k = Some k'"
  obtains vs where "sends PRECOMMIT vs k k'" and "length vs \<le> 1"
    and "\<forall>v \<in> set vs. vote_View v = kb_View k \<and> prevote_majority k = Some (vote_TSHash v)"
proof (cases "prevote_majority k")
  case None
  then have "k' = k" using assms by (simp add: preCommit_body_def SuperMajority_eq)
  with that [of "[]"] sends_refl show ?thesis by simp
next
  case (Some h)
  define k1 where "k1 = (if isLeader k (kb_id k) then sendQc ke PREVOTE h k else k)"
  have s1: "sends PRECOMMIT [] k k1" by (simp add: k1_def sendQc_sends sends_refl)
  have "k' = k1 \<or> (\<exists>db b. sendVote ke PRECOMMIT h b (k1\<lparr>kb_safety := db\<rparr>) = Some k') \<or> (\<exists>db. k' = k1\<lparr>kb_safety := db\<rparr>)"
  proof -
    obtain same where c: "CompareHash (ts_codec ke) (kb_ProposalTS k1) h = Some same"
      using assms by (auto simp: preCommit_body_def SuperMajority_eq Some k1_def [symmetric] bind_eq_Some_conv)
    note run = assms [unfolded preCommit_body_def SuperMajority_eq Some, simplified, folded k1_def]
    show ?thesis
    proof (cases same)
      case False
      then show ?thesis using run c by (auto simp: bind_eq_Some_conv)
    next
      case True
      obtain r where r: "hvs_GetQC (kb_Votes k1) h (kb_View k1) PREVOTE = Some r" using run True c by (auto simp: bind_eq_Some_conv)
      show ?thesis
      proof (cases r)
        case (Inl e)
        then show ?thesis using run True c r by simp
      next
        case (Inr qc)
        show ?thesis
        proof (cases "kb_IsTSStored k1")
          case True
          then have "sendVote ke PRECOMMIT h (isLeader k1 (kb_id k1)) (k1\<lparr>kb_safety := kb_safety k1\<rparr>) = Some k'"
            using run \<open>same\<close> c r Inr by simp
          then show ?thesis by blast
        next
          case False
          then obtain p err db where "kb_Proposal k1 = Some p" "UpdateSafetyInfo (ke_safety ke) p qc (kb_safety k1) = Some (err, db)"
            using run \<open>same\<close> c r Inr by (auto simp: bind_eq_Some_conv)
          then show ?thesis using run \<open>same\<close> c r Inr False by (auto simp: Let_def split: if_splits)
        qed
      qed
    qed
  qed
  then consider "k' = k1" | db b where "sendVote ke PRECOMMIT h b (k1\<lparr>kb_safety := db\<rparr>) = Some k'" | db where "k' = k1\<lparr>kb_safety := db\<rparr>"
    by blast
  then show ?thesis
  proof cases
    case 1
    with that [of "[]"] s1 show ?thesis by simp
  next
    case 2
    obtain vs where vs: "sends PRECOMMIT vs (k1\<lparr>kb_safety := db\<rparr>) k'" "length vs \<le> 1"
        "\<forall>v \<in> set vs. vote_View v = kb_View (k1\<lparr>kb_safety := db\<rparr>) \<and> vote_TSHash v = h \<and> vote_Type v = PRECOMMIT"
      by (rule sendVote_sends [OF 2])
    have "sends PRECOMMIT vs k k'" using sends_trans [OF sends_trans [OF s1 sends_safety] vs(1)] by simp
    with that [of vs] vs Some sendsD(4) [OF s1] show ?thesis by simp
  next
    case 3
    with that [of "[]"] sends_trans [OF s1 sends_safety, of db] show ?thesis by simp
  qed
qed

lemma enterPreCommit_inv:
  assumes "kbft_base cr k" and "kbft_voted k" and "kbft_done k" and "ViewStepPrevote \<le> kb_Step k" and "view = kb_View k"
    and "\<forall>h. precommit_majority k = Some h \<longrightarrow> h \<noteq> NilHash \<longrightarrow> kb_Step k = ViewStepCommit"
    and "enterPreCommit ke view k = Some k'"
  shows "kbft_inv cr k'"
proof (cases "ViewStepPrecommit \<le> kb_Step k")
  case True
  then have "k' = k" using assms(7) by (simp add: enterPreCommit_def)
  then show ?thesis using assms True by (simp add: kbft_inv_def kbft_moved_def)
next
  case False
  then obtain k1 where k1: "preCommit_body ke k = Some k1" "k' = stepChange (updateViewStep view ViewStepPrecommit k1)"
    using assms(7) by (auto simp: enterPreCommit_def bind_eq_Some_conv)
  obtain vs where vs: "sends PRECOMMIT vs k k1" "length vs \<le> 1"
      "\<forall>v \<in> set vs. vote_View v = kb_View k \<and> prevote_majority k = Some (vote_TSHash v)"
    by (rule preCommit_body_sends [OF k1(1)])
  note D = sendsD [OF vs(1)] and O = sends_own [OF vs(1)]
  have k': "kb_Votes k' = kb_Votes k" "kb_ics k' = kb_ics k" "kb_Proposal k' = kb_Proposal k" "kb_View k' = kb_View k"
      "kb_Step k' = ViewStepPrecommit" "kb_timeouts k' = kb_timeouts k" "kb_handled k' = kb_handled k" "kb_self k' = kb_self k1"
    using D assms(5) by (simp_all add: k1(2) stepChange_def updateViewStep_def)
  have maj: "prevote_majority k' = prevote_majority k" "precommit_majority k' = precommit_majority k"
    by (simp_all add: prevote_majority_def precommit_majority_def k')
  have own: "own_votes u k' = own_votes u k + (if u = PRECOMMIT then mset vs else {#})" for u
    using O [of u] by (simp add: k1(2) stepChange_def updateViewStep_def own_votes_def)
  have step: "kb_Step k \<noteq> ViewStepCommit" "\<not> ViewStepPrecommit \<le> kb_Step k" using False by auto
  have base: "kbft_base cr k'"
    using assms(1) sends_msgs [OF vs(1)] by (cases "kb_Proposal k") (auto simp: kbft_base_def k' not_le [symmetric] assms(4))
  have voted: "kbft_voted k'"
    using assms(2) step assms(4) vs(2,3) by (auto simp: kbft_voted_def own k' maj)
  have "kb_handled k = []" using assms(3) step by (auto simp: kbft_done_def)
  then show ?thesis
    using base voted assms(6) step by (auto simp: kbft_inv_def kbft_moved_def kbft_done_def k' maj)
qed

section \<open>Committing\<close>

lemma commit_body_sends:
  assumes "commit_body ke k = Some k'"
  shows "sends PRECOMMIT [] k k'"
proof -
  obtain h where h: "precommit_majority k = Some h"
    using assms by (cases "precommit_majority k") (auto simp: commit_body_def SuperMajority_eq)
  note run = assms [unfolded commit_body_def SuperMajority_eq h, simplified]
  obtain r where r: "hvs_GetQC (kb_Votes k) h (kb_View k) PRECOMMIT = Some r" using run by (auto simp: bind_eq_Some_conv)
  show ?thesis
  proof (cases r)
    case (Inl e)
    then show ?thesis using run r by (simp add: sends_refl)
  next
    case (Inr qc)
    have "\<exists>db. k' = k\<lparr>kb_safety := db\<rparr> \<or> k' = sendQc ke PRECOMMIT h (k\<lparr>kb_safety := db\<rparr>)"
    proof (cases "kb_IsTSStored k")
      case True
      then show ?thesis using run r Inr by (intro exI [of _ "kb_safety k"]) (auto split: if_splits)
    next
      case False
      then obtain p err db where "kb_Proposal k = Some p" "UpdateSafetyInfo (ke_safety ke) p qc (kb_safety k) = Some (err, db)"
        using run r Inr by (auto simp: bind_eq_Some_conv)
      then show ?thesis using run r Inr False by (intro exI [of _ db]) (auto split: if_splits)
    qed
    then show ?thesis using sends_safety sends_trans [OF sends_safety sendQc_sends] by fastforce
  qed
qed

lemma updateConsensusInfo_result:
  assumes "updateConsensusInfoInTesseracts ke b sig k = Some (err, k')" and "kb_ProposalTS k = Some t" and "ts_hash t = Some h"
  obtains d t' where "k' = put_tesseract t' (k\<lparr>kb_ics := (kb_ics k)\<lparr>cs_dirty := d\<rparr>\<rparr>)" and "ts_hash t' = Some h"
    and "err = None \<Longrightarrow> \<exists>ci qc. ts_commitInfo t' = Some ci \<and> ci_QC ci = Some qc \<and> qc_Type qc = PRECOMMIT
           \<and> qc_View qc = kb_View k \<and> qc_TSHash qc = h"
proof (cases "ke_encEvidence ke (kb_evidence k)")
  case (Inl e)
  then have "k' = k" "err = Some e" using assms(1) by (auto simp: updateConsensusInfoInTesseracts_def)
  moreover obtain p where "kb_Proposal k = Some p" "prop_Tesseract p = Some t"
    using assms(2) by (auto simp: kb_ProposalTS_def bind_eq_Some_conv)
  moreover have "p\<lparr>prop_Tesseract := Some t\<rparr> = p" using \<open>prop_Tesseract p = Some t\<close> by (cases p) simp
  ultimately have "k' = put_tesseract t (k\<lparr>kb_ics := (kb_ics k)\<lparr>cs_dirty := cs_dirty (kb_ics k)\<rparr>\<rparr>)"
    by (cases k) (simp add: put_tesseract_def)
  with that assms(3) \<open>err = Some e\<close> show ?thesis by blast
next
  case (Inr data)
  define d where "d = (cs_dirty (kb_ics k))(ke_GetHash ke data \<mapsto> data)"
  define k1 where "k1 = k\<lparr>kb_ics := (kb_ics k)\<lparr>cs_dirty := d\<rparr>\<rparr>"
  define qc where "qc = \<lparr>qc_Type = PRECOMMIT, qc_ID = [], qc_LockType = MutateLock, qc_View = kb_View k, qc_TSHash = h,
        qc_SignerIndices = b, qc_Signature = sig\<rparr>"
  have dirty: "AddDirty (ke_GetHash ke data) data (kb_ics k) = (kb_ics k)\<lparr>cs_dirty := d\<rparr>" by (simp add: AddDirty_def d_def)
  note run = assms(1) [unfolded updateConsensusInfoInTesseracts_def Inr assms(2), simplified,
      unfolded Tesseract_Hash_of_cache [OF assms(3)], simplified, folded qc_def]
  obtain t1 where t1: "SetCommitQc qc t = Some t1" using run by (auto simp: bind_eq_Some_conv Let_def)
  then have c: "ts_hash t1 = Some h" "\<exists>ci. ts_commitInfo t1 = Some ci \<and> ci_QC ci = Some qc"
    using assms(3) by (auto simp: SetCommitQc_def)
  have "(\<exists>e. err = Some e \<and> k' = put_tesseract t1 k1) \<or> (\<exists>seal s. k' = put_tesseract (t1\<lparr>ts_seal := seal, ts_sealBy := s\<rparr>) k1)"
  proof (cases "Tesseract_SignBytes (ts_codec ke) t1")
    case (Inl e)
    then show ?thesis using run t1 by (auto simp: Let_def dirty k1_def)
  next
    case (Inr raw)
    then obtain sign where "ke_Sign ke = Some sign" using run t1 by (auto simp: Let_def bind_eq_Some_conv)
    then show ?thesis using run t1 Inr by (cases "sign raw") (auto simp: Let_def dirty k1_def)
  qed
  then show ?thesis
  proof
    assume "\<exists>e. err = Some e \<and> k' = put_tesseract t1 k1"
    with that [of t1 d] c show ?thesis by (auto simp: k1_def)
  next
    assume "\<exists>seal s. k' = put_tesseract (t1\<lparr>ts_seal := seal, ts_sealBy := s\<rparr>) k1"
    then obtain seal s where "k' = put_tesseract (t1\<lparr>ts_seal := seal, ts_sealBy := s\<rparr>) k1" by blast
    with that [of "t1\<lparr>ts_seal := seal, ts_sealBy := s\<rparr>" d] c show ?thesis by (auto simp: k1_def qc_def)
  qed
qed

lemma hvs_inv_dirty: "hvs_inv cr (hvs, cs) \<Longrightarrow> hvs_inv cr (hvs, cs\<lparr>cs_dirty := d\<rparr>)"
  by (auto simp: hvs_inv_def cluster_ok_def intro: vs_inv_cs [rotated 2])

text \<open>The state after a commit is finalized, and the tesseract that was handed over.\<close>

definition commits :: "u64 \<Rightarrow> Hash \<Rightarrow> Tesseract \<Rightarrow> bool" where
  "commits view h t \<longleftrightarrow> (\<exists>ci qc. ts_commitInfo t = Some ci \<and> ci_QC ci = Some qc \<and> qc_Type qc = PRECOMMIT
     \<and> qc_View qc = view \<and> qc_TSHash qc = h)"

lemma put_tesseract_id: "kb_ProposalTS k = Some t \<Longrightarrow> put_tesseract t k = k"
  by (cases k) (auto simp: put_tesseract_def kb_ProposalTS_def bind_eq_Some_conv)

lemma finalizeCommit_result:
  assumes "finalizeCommit ke k = Some k'" and "kb_ProposalTS k = Some t" and "ts_hash t = Some h"
    and "precommit_majority k = Some h" and "h \<noteq> NilHash" and "kb_Step k = ViewStepCommit" and "kb_handled k = []"
  obtains d t' c H where "k' = put_tesseract t' (k\<lparr>kb_ics := (kb_ics k)\<lparr>cs_dirty := d\<rparr>, kb_closed := c, kb_handled := H\<rparr>)"
    and "ts_hash t' = Some h" and "h \<noteq> [] \<Longrightarrow> c \<noteq> []" and "\<forall>s \<in> set H. s = Tesseract_Copy t' \<and> commits (kb_View k) h t'"
proof -
  obtain p where p: "kb_Proposal k = Some p" "prop_Tesseract p = Some t"
    using assms(2) by (auto simp: kb_ProposalTS_def bind_eq_Some_conv)
  note cmp = CompareHash_cached [OF assms(3), of "ts_codec ke" h]
  note run = assms(1) [unfolded finalizeCommit_def SuperMajority_eq assms(4) p(1), simplified]
  show ?thesis
  proof (cases "h = []")
    case True
    then have "k' = k" using run assms(5) p(2) cmp by simp
    then have "k' = put_tesseract t (k\<lparr>kb_ics := (kb_ics k)\<lparr>cs_dirty := cs_dirty (kb_ics k)\<rparr>, kb_closed := kb_closed k, kb_handled := []\<rparr>)"
      using put_tesseract_id [OF assms(2)] assms(7) by (cases k) simp
    with that assms(3) True show ?thesis by (metis empty_iff list.set(1))
  next
    case False
    obtain b sig where q: "vs_GetQC (hvs_Precommits (kb_Votes k)) = (b, sig)" by fastforce
    obtain err k1 where u: "updateConsensusInfoInTesseracts ke b sig k = Some (err, k1)"
      using run assms(5,6) False q p(2) cmp by (auto simp: bind_eq_Some_conv)
    obtain d t' where r: "k1 = put_tesseract t' (k\<lparr>kb_ics := (kb_ics k)\<lparr>cs_dirty := d\<rparr>\<rparr>)" "ts_hash t' = Some h"
        "err = None \<Longrightarrow> commits (kb_View k) h t'"
      using updateConsensusInfo_result [OF u assms(2,3)] unfolding commits_def by metis
    have k1: "kb_handled k1 = []" "kb_ProposalTS k1 = Some t'" using assms(7) p by (simp_all add: r(1) put_tesseract_def kb_ProposalTS_def)
    have "\<exists>c H. k' = k1\<lparr>kb_closed := c, kb_handled := H\<rparr> \<and> c \<noteq> [] \<and> (\<forall>s \<in> set H. s = Tesseract_Copy t' \<and> commits (kb_View k) h t')"
    proof (cases err)
      case (Some e)
      then have "k' = k1\<lparr>kb_closed := kb_closed k1 @ [Some e], kb_handled := []\<rparr>"
        using run assms(5,6) False q u k1 p(2) cmp by (cases k1) (auto simp: kb_Close_def)
      then show ?thesis by (intro exI conjI) (assumption, simp_all)
    next
      case None
      then have "(\<exists>e. k' = kb_Close (Some e) k1) \<or> k' = kb_Close None (k1\<lparr>kb_handled := kb_handled k1 @ [Tesseract_Copy t']\<rparr>)"
        using run assms(5,6) False q u k1 p(2) cmp by (auto split: option.splits)
      then show ?thesis
      proof
        assume "\<exists>e. k' = kb_Close (Some e) k1"
        then obtain e where "k' = k1\<lparr>kb_closed := kb_closed k1 @ [Some e], kb_handled := []\<rparr>" using k1(1) by (cases k1) (auto simp: kb_Close_def)
        then show ?thesis by (intro exI conjI) (assumption, simp_all)
      next
        assume "k' = kb_Close None (k1\<lparr>kb_handled := kb_handled k1 @ [Tesseract_Copy t']\<rparr>)"
        then have "k' = k1\<lparr>kb_closed := kb_closed k1 @ [None], kb_handled := [Tesseract_Copy t']\<rparr>" using k1(1) by (simp add: kb_Close_def)
        then show ?thesis using r(3) [OF None] by (intro exI conjI) (assumption, simp_all)
      qed
    qed
    then obtain c H where "k' = k1\<lparr>kb_closed := c, kb_handled := H\<rparr>" "c \<noteq> []"
        "\<forall>s \<in> set H. s = Tesseract_Copy t' \<and> commits (kb_View k) h t'" by blast
    then show ?thesis using that [where t' = t' and d = d and c = c and H = H] r(1,2) by (simp add: put_tesseract_def)
  qed
qed

lemma enterCommit_inv:
  assumes "kbft_base cr k" and "kbft_voted k" and "kbft_done k" and "kb_Proposal k \<noteq> None" and "precommit_majority k = Some h"
    and "h \<noteq> NilHash" and "prevote_majority k \<noteq> None \<longrightarrow> ViewStepPrecommit \<le> kb_Step k" and "enterCommit ke view k = Some k'"
  shows "kbft_inv cr k'"
proof (cases "ViewStepCommit \<le> kb_Step k")
  case True
  then have "k' = k" "kb_Step k = ViewStepCommit" using assms(3,8) by (auto simp: enterCommit_def kbft_done_def)
  then show ?thesis using assms by (simp add: kbft_inv_def kbft_moved_def)
next
  case False
  have h: "h = hvs_tsHash (kb_Votes k)" using majority_hash [OF assms(1)] assms(5) by blast
  obtain t where t: "kb_ProposalTS k = Some t" "ts_hash t = Some h"
    using base_proposal [OF assms(1)] assms(4) h by (metis not_None_eq)
  obtain k1 where k1: "commit_body ke k = Some k1" using assms(8) False by (auto simp: enterCommit_def bind_eq_Some_conv)
  define k2 where "k2 = stepChange ((updateViewStep (kb_View k1) ViewStepCommit k1)\<lparr>kb_CommitView := view, kb_CommitTime := ke_now ke\<rparr>)"
  note S = commit_body_sends [OF k1]
  note D = sendsD [OF S] and O = sends_own [OF S]
  have handled: "kb_handled k = []" using assms(3) False by (auto simp: kbft_done_def)
  have k2: "kb_Votes k2 = kb_Votes k" "kb_ics k2 = kb_ics k" "kb_Proposal k2 = kb_Proposal k" "kb_View k2 = kb_View k"
      "kb_Step k2 = ViewStepCommit" "kb_timeouts k2 = kb_timeouts k" "kb_handled k2 = []" "kb_self k2 = kb_self k1"
      "kb_IsTSStored k2 = kb_IsTSStored k"
    using D handled by (simp_all add: k2_def stepChange_def updateViewStep_def)
  have own2: "own_votes u k2 = own_votes u k" for u
    using O [of u] by (simp add: k2_def stepChange_def updateViewStep_def own_votes_def)
  have "kb_ProposalTS k2 = Some t" "precommit_majority k2 = Some h"
    using t(1) assms(5) by (simp_all add: kb_ProposalTS_def precommit_majority_def k2)
  note fin = finalizeCommit_result [OF _ this(1) t(2) this(2) assms(6) k2(5,7)]
  have "\<exists>d t' c H. k' = put_tesseract t' (k2\<lparr>kb_ics := (kb_ics k2)\<lparr>cs_dirty := d\<rparr>, kb_closed := c, kb_handled := H\<rparr>) \<and> ts_hash t' = Some h
      \<and> (h \<noteq> [] \<longrightarrow> c \<noteq> []) \<and> (\<forall>s \<in> set H. s = Tesseract_Copy t' \<and> commits (kb_View k2) h t')"
  proof (cases "kb_IsTSStored k2")
    case True
    then have "k' = kb_Close None k2" using assms(8) False k1 by (simp add: enterCommit_def k2_def [symmetric] Let_def)
    then have "k' = put_tesseract t (k2\<lparr>kb_ics := (kb_ics k2)\<lparr>cs_dirty := cs_dirty (kb_ics k2)\<rparr>, kb_closed := kb_closed k2 @ [None], kb_handled := []\<rparr>)"
      using put_tesseract_id [of k2 t] \<open>kb_ProposalTS k2 = Some t\<close> k2(7) by (cases k2) (simp add: kb_Close_def put_tesseract_def)
    then show ?thesis using t(2) by (intro exI conjI) (assumption, simp_all)
  next
    case False
    then have "finalizeCommit ke k2 = Some k'" using assms(8) \<open>\<not> ViewStepCommit \<le> kb_Step k\<close> k1
      by (simp add: enterCommit_def k2_def [symmetric] Let_def)
    from fin [OF this] show ?thesis by metis
  qed
  then obtain d t' c H where k': "k' = put_tesseract t' (k2\<lparr>kb_ics := (kb_ics k2)\<lparr>cs_dirty := d\<rparr>, kb_closed := c, kb_handled := H\<rparr>)"
    and t': "ts_hash t' = Some h" "h \<noteq> [] \<longrightarrow> c \<noteq> []" "\<forall>s \<in> set H. s = Tesseract_Copy t' \<and> commits (kb_View k2) h t'" by blast
  obtain p where p: "kb_Proposal k = Some p" using assms(4) by blast
  have r: "kb_Votes k' = kb_Votes k" "kb_ics k' = (kb_ics k)\<lparr>cs_dirty := d\<rparr>" "kb_Proposal k' = Some (p\<lparr>prop_Tesseract := Some t'\<rparr>)"
      "kb_View k' = kb_View k" "kb_Step k' = ViewStepCommit" "kb_timeouts k' = kb_timeouts k" "kb_handled k' = H" "kb_closed k' = c"
      "kb_self k' = kb_self k1" "own_votes u k' = own_votes u k" for u
    using own2 by (simp_all add: k' k2 p put_tesseract_def own_votes_def)
  have maj: "prevote_majority k' = prevote_majority k" "precommit_majority k' = Some h"
    using assms(5) by (simp_all add: prevote_majority_def precommit_majority_def r)
  have base: "kbft_base cr k'"
    using assms(1) hvs_inv_dirty [of cr "kb_Votes k" "kb_ics k" d] sends_msgs [OF S] t'(1) h
    by (auto simp: kbft_base_def r p)
  have voted: "kbft_voted k'" using assms(2) by (auto simp: kbft_voted_def r maj split: if_splits)
  have "handed_over k' s" if "s \<in> set H" for s
    using t'(3) that h by (auto simp: handed_over_def r maj Tesseract_Copy_def TSHeader.truncate_def commits_def k2)
  then have "kbft_done k'" using t'(2) h by (auto simp: kbft_done_def r maj)
  moreover have "kbft_moved k'" by (simp add: kbft_moved_def r)
  ultimately show ?thesis using base voted by (simp add: kbft_inv_def)
qed

section \<open>Votes\<close>

text \<open>A vote that is not added, or is refused with an error, leaves the vote sets as they are.\<close>

lemma addVerifiedVote_not_added: "addVerifiedVote cr v p i slots isQc vs cs = Some (False, vs', cs') \<Longrightarrow> vs' = vs \<and> cs' = cs"
  by (auto simp: addVerifiedVote_def bind_eq_Some_conv split: if_splits)

lemma AddVote_not_added:
  "AddVote cr (Some v) h vs cs = Some ((a, e), vs', cs') \<Longrightarrow> \<not> a \<or> e \<noteq> None \<Longrightarrow> vs' = vs \<and> cs' = cs"
  by (auto simp: AddVote_def Let_def bind_eq_Some_conv sum.case_eq_if prod.case_eq_if option.case_eq_if dest!: addVerifiedVote_not_added split: if_splits)

lemma AddQc_not_added:
  "AddQc cr (Some v) h vs cs = Some ((a, e), vs', cs') \<Longrightarrow> \<not> a \<or> e \<noteq> None \<Longrightarrow> vs' = vs \<and> cs' = cs"
  by (auto simp: AddQc_def bind_eq_Some_conv sum.case_eq_if prod.case_eq_if option.case_eq_if split: if_splits)

lemma add_any_not_added:
  assumes "add_any cr v hvs cs = Some ((a, e), hvs', cs')" and "\<not> a \<or> e \<noteq> None"
  shows "hvs' = hvs \<and> cs' = cs"
  using assms AddVote_not_added AddQc_not_added
  by (auto simp: add_any_def hvs_AddVote_def hvs_AddQC_def bind_eq_Some_conv getVoteSet_def putVoteSet_def split: if_splits)

lemma add_any_other:
  assumes "add_any cr v hvs cs = Some (r, hvs', cs')"
  shows "vote_Type v = PREVOTE \<and> hvs_Precommits hvs' = hvs_Precommits hvs \<or> vote_Type v = PRECOMMIT \<and> hvs_Prevotes hvs' = hvs_Prevotes hvs"
  using assms
  by (auto simp: add_any_def hvs_AddVote_def hvs_AddQC_def bind_eq_Some_conv getVoteSet_def putVoteSet_def split: if_splits)

lemma HasMajorityAny_inv:
  assumes "hvs_inv cr (hvs, cs)" and "HasMajorityAny (Some vs) cs = Some (b, cs')"
  shows "hvs_inv cr (hvs, cs')"
proof (cases "vs_sum vs = []")
  case True
  then show ?thesis using assms by (simp add: HasMajorityAny_def)
next
  case False
  have ok: "cluster_ok cs" using assms(1) by (simp add: hvs_inv_def)
  obtain q where q: "GetQuorum cs = Some (q, cs')" using assms(2) False by (auto simp: HasMajorityAny_def bind_eq_Some_conv)
  obtain r where r: "GetQuorum cs = Some (r, cs\<lparr>cs_quorum := Some r\<rparr>)" "cluster_ok (cs\<lparr>cs_quorum := Some r\<rparr>)"
    by (rule GetQuorum_total [OF ok])
  then have cs': "cs' = cs\<lparr>cs_quorum := Some r\<rparr>" using q by simp
  have "cs_quorum cs' = Some p" if "cs_quorum cs = Some p" for p using that r(1) cs' by (simp add: GetQuorum_def)
  then show ?thesis using assms(1) r(2) by (auto simp: hvs_inv_def cs' intro: vs_inv_cs [rotated 2])
qed

lemma kbft_inv_frame [simp]:
  "kbft_inv cr (k\<lparr>kb_evidence := e\<rparr>) = kbft_inv cr k" "kbft_inv cr (k\<lparr>kb_selfRead := n\<rparr>) = kbft_inv cr k"
  by (cases "kb_Proposal k"; simp add: kbft_inv_def kbft_base_def kbft_voted_def kbft_moved_def kbft_done_def handed_over_def
      prevote_majority_def precommit_majority_def own_votes_def)+

lemma add_any_mid:
  assumes "kbft_inv cr k" and "add_any cr v (kb_Votes k) (kb_ics k) = Some (r, votes, ics)" and "vote_View v = kb_View k"
    and "kb_Proposal k \<noteq> None" and "\<forall>b. vote_SignerIndices v = Some b \<longrightarrow> wf_bits b \<and> Size b < 2 ^ 31"
    and k1: "k1 = k\<lparr>kb_Votes := votes, kb_ics := ics\<rparr>"
  shows "kbft_base cr k1" and "kbft_voted k1" and "kbft_done k1"
    and "vote_Type v = PREVOTE \<and> precommit_majority k1 = precommit_majority k
      \<or> vote_Type v = PRECOMMIT \<and> prevote_majority k1 = prevote_majority k"
proof -
  have inv: "hvs_inv cr (kb_Votes k, kb_ics k)" and typed: "votes_typed (kb_View k) (kb_Votes k)"
    using assms(1) by (auto simp: kbft_inv_def kbft_base_def)
  have next': "hvs_inv cr (votes, ics)" "hvs_tsHash votes = hvs_tsHash (kb_Votes k)"
      "hvs_majority (kb_Votes k, kb_ics k) u = Some h \<Longrightarrow> hvs_majority (votes, ics) u = Some h" for u h
    using add_any_step [OF assms(2,5)] hvs_step_next [OF _ inv, of "(votes, ics)"] inv by auto
  have keeps: "prevote_majority k1 = Some h" if "prevote_majority k = Some h" for h
    using next'(3) [of PREVOTE h] that by (simp add: prevote_majority_def hvs_majority_def getVoteSet_def k1)
  have keepc: "precommit_majority k1 = Some h" if "precommit_majority k = Some h" for h
    using next'(3) [of PRECOMMIT h] that by (simp add: precommit_majority_def hvs_majority_def getVoteSet_def k1)
  have own: "own_votes u k1 = own_votes u k" for u by (simp add: own_votes_def k1)
  show "kbft_base cr k1"
    using assms(1,4) next'(1,2) add_any_typed [OF assms(2) typed assms(3)] by (auto simp: kbft_inv_def kbft_base_def k1)
  show "kbft_voted k1"
    using assms(1) keeps unfolding kbft_inv_def kbft_voted_def own by (auto simp: k1 next'(2))
  have "handed_over k1 t" if "handed_over k t" for t
    using that keepc by (auto simp: handed_over_def k1 next'(2))
  then show "kbft_done k1"
    using assms(1) keepc by (auto simp: kbft_inv_def kbft_done_def k1 next'(2))
  show "vote_Type v = PREVOTE \<and> precommit_majority k1 = precommit_majority k
      \<or> vote_Type v = PRECOMMIT \<and> prevote_majority k1 = prevote_majority k"
    using add_any_other [OF assms(2)] by (auto simp: k1 precommit_majority_def prevote_majority_def)
qed

lemma after_vote_inv:
  assumes "kbft_base cr k" and "kbft_voted k" and "kbft_done k" and "kb_Proposal k \<noteq> None" and "vote_View v = kb_View k"
    and "vote_Type v = PREVOTE \<and> (\<forall>h. precommit_majority k = Some h \<longrightarrow> h \<noteq> NilHash \<longrightarrow> kb_Step k = ViewStepCommit)
      \<or> vote_Type v = PRECOMMIT \<and> (prevote_majority k \<noteq> None \<longrightarrow> ViewStepPrecommit \<le> kb_Step k)"
    and "after_vote ke v k = Some k'"
  shows "kbft_inv cr k'"
proof -
  obtain t where "kb_ProposalTS k = Some t" using base_proposal [OF assms(1)] assms(4) by blast
  then have got: "isProposalReceived k" and step: "ViewStepPrevote \<le> kb_Step k"
    using assms(4) base_ProposalTS(3) [OF assms(1)] by (auto simp: isProposalReceived_def)
  from assms(6) show ?thesis
  proof
    assume pre: "vote_Type v = PREVOTE \<and> (\<forall>h. precommit_majority k = Some h \<longrightarrow> h \<noteq> NilHash \<longrightarrow> kb_Step k = ViewStepCommit)"
    show ?thesis
    proof (cases "prevote_majority k")
      case None
      then have "k' = k" using assms(7) pre by (simp add: after_vote_def SuperMajority_eq split: if_splits)
      then show ?thesis using assms(1-3) pre None by (simp add: kbft_inv_def kbft_moved_def)
    next
      case (Some h)
      then have "enterPreCommit ke (vote_View v) k = Some k'"
        using assms(5,7) pre step got by (simp add: after_vote_def SuperMajority_eq)
      then show ?thesis using enterPreCommit_inv [OF assms(1-3) step assms(5)] pre by blast
    qed
  next
    assume com: "vote_Type v = PRECOMMIT \<and> (prevote_majority k \<noteq> None \<longrightarrow> ViewStepPrecommit \<le> kb_Step k)"
    show ?thesis
    proof (cases "precommit_majority k")
      case None
      then have "map_option (\<lambda>(any, ics). k\<lparr>kb_ics := ics\<rparr>) (HasMajorityAny (Precommits (kb_Votes k)) (kb_ics k)) = Some k'"
        using assms(5,7) com by (simp add: after_vote_def SuperMajority_eq)
      then obtain b ics where b: "HasMajorityAny (Some (hvs_Precommits (kb_Votes k))) (kb_ics k) = Some (b, ics)" "k' = k\<lparr>kb_ics := ics\<rparr>"
        by (auto simp: Precommits_def getVoteSet_def)
      have own: "own_votes u k' = own_votes u k" for u by (simp add: own_votes_def b(2))
      have "hvs_inv cr (kb_Votes k, ics)" using HasMajorityAny_inv [OF _ b(1)] assms(1) by (auto simp: kbft_base_def)
      then have "kbft_base cr k'" using assms(1,4) by (auto simp: kbft_base_def b(2))
      moreover have "kbft_voted k'" using assms(2) unfolding kbft_voted_def own by (simp add: b(2) prevote_majority_def)
      moreover have "kbft_done k'" using assms(3) by (simp add: b(2) kbft_done_def handed_over_def precommit_majority_def)
      moreover have "kbft_moved k'" using com None by (simp add: kbft_moved_def b(2) prevote_majority_def precommit_majority_def)
      ultimately show ?thesis by (simp add: kbft_inv_def)
    next
      case (Some h)
      show ?thesis
      proof (cases "h = NilHash")
        case True
        then have "k' = k" using assms(7) com Some got by (simp add: after_vote_def SuperMajority_eq)
        then show ?thesis using assms(1-3) com Some True by (simp add: kbft_inv_def kbft_moved_def)
      next
        case False
        then have "enterCommit ke (vote_View v) k = Some k'"
          using assms(7) com Some got by (simp add: after_vote_def SuperMajority_eq)
        then show ?thesis using enterCommit_inv [OF assms(1-4) Some False] com by blast
      qed
    qed
  qed
qed

text \<open>A vote that changes the state: a conflicting one is kept as evidence, any other one is added and
  the step that follows from it is taken.\<close>

lemma addVote_result:
  assumes "kbft_base cr k" and "addVote ke v peer k = Some (r, k')" and "ke_crypto ke = cr" and "k' \<noteq> k"
  shows "(\<exists>e. k' = k\<lparr>kb_evidence := e\<rparr>) \<or> (\<exists>r votes ics. add_any cr v (kb_Votes k) (kb_ics k) = Some (r, votes, ics)
    \<and> vote_View v = kb_View k \<and> kb_Proposal k \<noteq> None \<and> after_vote ke v (k\<lparr>kb_Votes := votes, kb_ics := ics\<rparr>) = Some k')"
proof -
  obtain t where t: "kb_View k = vote_View v" "kb_ProposalTS k = Some t"
    using assms(2,4) by (auto simp: addVote_def split: if_splits option.splits)
  note hash = base_ProposalTS [OF assms(1) t(2)]
  have guards: "vote_TSHash v = hvs_tsHash (kb_Votes k)" "\<not> (vote_IsQC v \<and> \<not> isLeader k peer)"
    using assms(2,4) t Tesseract_Hash_of_cache [OF hash(1)] by (auto simp: addVote_def split: if_splits)
  have add: "(if vote_IsQC v then hvs_AddQC (ke_crypto ke) v (kb_Votes k) (kb_ics k)
      else hvs_AddVote (ke_crypto ke) v (kb_Votes k) (kb_ics k)) = add_any cr v (kb_Votes k) (kb_ics k)"
    by (simp add: add_any_def assms(3))
  obtain added err votes ics where a: "add_any cr v (kb_Votes k) (kb_ics k) = Some ((added, err), votes, ics)"
    using assms(2) t guards Tesseract_Hash_of_cache [OF hash(1)] unfolding addVote_def add by (auto simp: bind_eq_Some_conv)
  note run = assms(2) [unfolded addVote_def add a, simplified]
  show ?thesis
  proof (cases "err = Some ErrConflictingVote \<or> \<not> added")
    case True
    then have "votes = kb_Votes k \<and> ics = kb_ics k" using add_any_not_added [OF a] by auto
    then show ?thesis
      using run t guards Tesseract_Hash_of_cache [OF hash(1)] True assms(4) by (auto simp: bind_eq_Some_conv split: if_splits)
  next
    case False
    then have "after_vote ke v (k\<lparr>kb_Votes := votes, kb_ics := ics\<rparr>) = Some k'"
      using run t guards Tesseract_Hash_of_cache [OF hash(1)] by (auto simp: bind_eq_Some_conv)
    with a t(1) hash(2) show ?thesis by auto
  qed
qed

lemma addVote_inv:
  assumes "kbft_inv cr k" and "addVote ke v peer k = Some (r, k')" and "ke_crypto ke = cr"
    and "\<forall>b. vote_SignerIndices v = Some b \<longrightarrow> wf_bits b \<and> Size b < 2 ^ 31"
  shows "kbft_inv cr k'"
proof (cases "k' = k \<or> (\<exists>e. k' = k\<lparr>kb_evidence := e\<rparr>)")
  case True
  then show ?thesis using assms(1) by auto
next
  case False
  have base: "kbft_base cr k" using assms(1) by (simp add: kbft_inv_def)
  obtain r votes ics where a: "add_any cr v (kb_Votes k) (kb_ics k) = Some (r, votes, ics)" "vote_View v = kb_View k"
      "kb_Proposal k \<noteq> None" "after_vote ke v (k\<lparr>kb_Votes := votes, kb_ics := ics\<rparr>) = Some k'"
    using addVote_result [OF base assms(2,3)] False by blast
  define k1 where "k1 = k\<lparr>kb_Votes := votes, kb_ics := ics\<rparr>"
  note mid = add_any_mid [OF assms(1) a(1-3) assms(4) k1_def]
  have same: "kb_Step k1 = kb_Step k" by (simp add: k1_def)
  have "vote_Type v = PREVOTE \<and> (\<forall>h. precommit_majority k1 = Some h \<longrightarrow> h \<noteq> NilHash \<longrightarrow> kb_Step k1 = ViewStepCommit)
      \<or> vote_Type v = PRECOMMIT \<and> (prevote_majority k1 \<noteq> None \<longrightarrow> ViewStepPrecommit \<le> kb_Step k1)"
    using mid(4) assms(1) same unfolding kbft_inv_def kbft_moved_def by metis
  then show ?thesis using after_vote_inv [OF mid(1-3) _ _ _ a(4) [folded k1_def]] a(2,3) by (simp add: k1_def)
qed

lemma handleMsg_inv:
  assumes "kbft_inv cr k" and "wf_msg msg" and "ke_crypto ke = cr" and "handleMsg ke msg k = Some k'"
  shows "kbft_inv cr k'"
proof (cases "cm_Payload msg")
  case (PayloadProposal p)
  then obtain err where "setProposal ke p k = Some (err, k')" using assms(4) by (auto simp: handleMsg_def)
  then show ?thesis by (rule setProposal_inv [OF assms(1)])
next
  case (PayloadVote v)
  then obtain r where "addVote ke v (cm_PeerID msg) k = Some (r, k')" using assms(4) by (auto simp: handleMsg_def)
  moreover have "\<forall>b. vote_SignerIndices v = Some b \<longrightarrow> wf_bits b \<and> Size b < 2 ^ 31"
    using assms(2) PayloadVote by (auto simp: wf_msg_def)
  ultimately show ?thesis using addVote_inv [OF assms(1) _ assms(3)] by blast
qed

lemma kbft_step_inv: "kbft_step cr k k' \<Longrightarrow> kbft_inv cr k \<Longrightarrow> kbft_inv cr k'"
proof (induction rule: kbft_step.induct)
  case (inbound ke msg k k')
  then show ?case using handleMsg_inv by blast
next
  case (self ke k k')
  then have "wf_msg (kb_self k ! kb_selfRead k)" by (simp add: kbft_inv_def kbft_base_def)
  moreover have "kbft_inv cr (k\<lparr>kb_selfRead := Suc (kb_selfRead k)\<rparr>)" using self(4) by simp
  ultimately show ?case using self handleMsg_inv by blast
next
  case (timeout ke ti k k')
  then show ?case using handleTimeout_inv by blast
qed

end
