(* ===== verification/Kbft_Agreement.thy ===== *)
theory Kbft_Agreement
  imports Kbft_Inv
begin

text \<open>
  Runs of the agreement service: what a turn of its loop keeps, that a quorum of precommits is always
  noticed, and what two nodes with a majority have in common.
\<close>

section \<open>What a handler keeps\<close>

text \<open>The vote sets stay, the node and its committee are the same, and what was sent stays sent.\<close>

definition evolves :: "KBFT \<Rightarrow> KBFT \<Rightarrow> bool" where
  "evolves k k' \<longleftrightarrow> kb_Votes k' = kb_Votes k \<and> kb_View k' = kb_View k \<and> kb_id k' = kb_id k
     \<and> cs_committee (kb_ics k') = cs_committee (kb_ics k)
     \<and> (\<forall>q. cs_quorum (kb_ics k) = Some q \<longrightarrow> cs_quorum (kb_ics k') = Some q)
     \<and> (\<forall>u. own_votes u k \<subseteq># own_votes u k')"

lemma evolves_refl [simp]: "evolves k k"
  by (simp add: evolves_def)

lemma evolves_trans: "evolves k k1 \<Longrightarrow> evolves k1 k2 \<Longrightarrow> evolves k k2"
  unfolding evolves_def by (metis subset_mset.trans)

lemma sends_id: "sends t vs k k' \<Longrightarrow> kb_id k' = kb_id k"
proof -
  assume "sends t vs k k'"
  then have e: "k' = k\<lparr>kb_self := kb_self k', kb_out := kb_out k', kb_safety := kb_safety k'\<rparr>" by (simp add: sends_def)
  show ?thesis by (subst e) simp
qed

lemma sends_evolves: "sends t vs k k' \<Longrightarrow> evolves k k'"
  by (auto simp: evolves_def sendsD sends_own sends_id)

lemma evolves_step [simp]: "view = kb_View k \<Longrightarrow> evolves k (stepChange (updateViewStep view s k))"
  by (simp add: evolves_def stepChange_def updateViewStep_def own_votes_def)

lemma evolves_commit [simp]: "evolves k (stepChange ((updateViewStep (kb_View k) s k)\<lparr>kb_CommitView := v, kb_CommitTime := c\<rparr>))"
  by (simp add: evolves_def stepChange_def updateViewStep_def own_votes_def)

lemma evolves_close [simp]: "evolves k (kb_Close err k)" "evolves k (kb_Close err (k\<lparr>kb_handled := H\<rparr>))"
  by (simp_all add: evolves_def kb_Close_def own_votes_def)

lemma evolves_put [simp]: "evolves k (put_tesseract t (k\<lparr>kb_ics := (kb_ics k)\<lparr>cs_dirty := d\<rparr>\<rparr>))"
  by (simp add: evolves_def put_tesseract_def own_votes_def)

lemma enterPreCommit_evolves:
  assumes "enterPreCommit ke (kb_View k) k = Some k'"
  shows "evolves k k'"
proof (cases "ViewStepPrecommit \<le> kb_Step k")
  case True
  then show ?thesis using assms by (simp add: enterPreCommit_def)
next
  case False
  then obtain k1 where k1: "preCommit_body ke k = Some k1" "k' = stepChange (updateViewStep (kb_View k) ViewStepPrecommit k1)"
    using assms by (auto simp: enterPreCommit_def bind_eq_Some_conv)
  obtain vs where vs: "sends PRECOMMIT vs k k1" by (rule preCommit_body_sends [OF k1(1)])
  show ?thesis using evolves_trans [OF sends_evolves [OF vs]] sendsD(4) [OF vs] k1(2) by simp
qed

lemma updateConsensusInfo_evolves:
  assumes "updateConsensusInfoInTesseracts ke b sig k = Some (err, k')"
  shows "evolves k k'"
proof (cases "ke_encEvidence ke (kb_evidence k)")
  case (Inl e)
  then show ?thesis using assms by (simp add: updateConsensusInfoInTesseracts_def)
next
  case (Inr data)
  note run = assms [unfolded updateConsensusInfoInTesseracts_def Inr, simplified]
  obtain t h t0 where t: "kb_ProposalTS k = Some t" "Tesseract_Hash (ts_codec ke) t = Some (h, t0)"
    using run by (auto simp: bind_eq_Some_conv)
  obtain t1 where t1: "SetCommitQc \<lparr>qc_Type = PRECOMMIT, qc_ID = [], qc_LockType = MutateLock, qc_View = kb_View k, qc_TSHash = h,
                  qc_SignerIndices = b, qc_Signature = sig\<rparr> t0 = Some t1"
    using run t by (auto simp: bind_eq_Some_conv Let_def)
  have "\<exists>d t'. k' = put_tesseract t' (k\<lparr>kb_ics := (kb_ics k)\<lparr>cs_dirty := d\<rparr>\<rparr>)"
  proof (cases "Tesseract_SignBytes (ts_codec ke) t1")
    case (Inl e)
    then show ?thesis using run t t1 by (auto simp: Let_def AddDirty_def)
  next
    case (Inr raw)
    then obtain sign where "ke_Sign ke = Some sign" using run t t1 by (auto simp: Let_def bind_eq_Some_conv)
    then show ?thesis using run t t1 Inr by (cases "sign raw") (auto simp: Let_def AddDirty_def)
  qed
  then show ?thesis by auto
qed

lemma finalizeCommit_evolves:
  assumes "finalizeCommit ke k = Some k'"
  shows "evolves k k'"
proof (cases "k' = k")
  case False
  obtain tsHash ok where s: "SuperMajority (Precommits (kb_Votes k)) = (tsHash, ok)" by fastforce
  obtain p where p: "kb_Proposal k = Some p" using assms False s by (auto simp: finalizeCommit_def split: if_splits option.splits)
  obtain b sig where q: "vs_GetQC (hvs_Precommits (kb_Votes k)) = (b, sig)" by fastforce
  obtain err k1 where u: "updateConsensusInfoInTesseracts ke b sig k = Some (err, k1)"
    using assms False s p q by (auto simp: finalizeCommit_def bind_eq_Some_conv split: if_splits)
  have "k' = kb_Close err k1 \<or> (\<exists>e. k' = kb_Close e k1) \<or> (\<exists>H. k' = kb_Close None (k1\<lparr>kb_handled := H\<rparr>))"
    using assms False s p q u
    by (cases err) (auto simp: finalizeCommit_def bind_eq_Some_conv option.case_eq_if split: if_splits)
  then have "evolves k1 k'" by auto
  then show ?thesis using evolves_trans updateConsensusInfo_evolves [OF u] by blast
qed simp

lemma enterCommit_evolves:
  assumes "enterCommit ke view k = Some k'"
  shows "evolves k k'"
proof (cases "ViewStepCommit \<le> kb_Step k")
  case True
  then show ?thesis using assms by (simp add: enterCommit_def)
next
  case False
  then obtain k1 where k1: "commit_body ke k = Some k1" using assms by (auto simp: enterCommit_def bind_eq_Some_conv)
  define k2 where "k2 = stepChange ((updateViewStep (kb_View k1) ViewStepCommit k1)\<lparr>kb_CommitView := view, kb_CommitTime := ke_now ke\<rparr>)"
  have "k' = kb_Close None k2 \<or> finalizeCommit ke k2 = Some k'"
    using assms False k1 by (auto simp: enterCommit_def k2_def [symmetric] Let_def split: if_splits)
  then have "evolves k2 k'" using finalizeCommit_evolves by auto
  moreover have "evolves k k2" unfolding k2_def
    using evolves_trans [OF sends_evolves [OF commit_body_sends [OF k1]]] by simp
  ultimately show ?thesis using evolves_trans by blast
qed

section \<open>A quorum is noticed\<close>

text \<open>Without a majority either no vote is stored, or the sums were compared with the quorum and one of
  them is below it.\<close>

definition below_quorum :: "VoteSet \<Rightarrow> ClusterState \<Rightarrow> bool" where
  "below_quorum vs cs \<longleftrightarrow> (vs_maj23TsHash vs = None \<longrightarrow>
     set (vs_votes vs) \<subseteq> {None} \<or> (\<exists>q. cs_quorum cs = Some q \<and> areGreater (vs_sum vs) q = Some False))"

lemma GetQuorum_caches: "GetQuorum cs = Some (q, cs') \<Longrightarrow> cs_quorum cs' = Some q \<and> (\<forall>p. cs_quorum cs = Some p \<longrightarrow> p = q)
    \<and> cs_committee cs' = cs_committee cs"
  by (cases "cs_quorum cs") (auto simp: GetQuorum_def Let_def bind_eq_Some_conv)

text \<open>What adding a vote keeps, on one vote set and its cluster.\<close>

definition quorum_kept :: "VoteSet \<times> ClusterState \<Rightarrow> VoteSet \<times> ClusterState \<Rightarrow> bool" where
  "quorum_kept = (\<lambda>(vs, cs) (vs', cs'). (below_quorum vs cs \<longrightarrow> below_quorum vs' cs')
     \<and> (\<forall>q. cs_quorum cs = Some q \<longrightarrow> cs_quorum cs' = Some q) \<and> cs_committee cs' = cs_committee cs)"

lemma quorum_kept_refl [simp]: "quorum_kept x x"
  by (simp add: quorum_kept_def split_beta)

lemma quorum_kept_trans: "quorum_kept x y \<Longrightarrow> quorum_kept y z \<Longrightarrow> quorum_kept x z"
  by (auto simp: quorum_kept_def split_beta)

lemma addVerifiedVote_quorum:
  assumes "addVerifiedVote cr v p i slots isQc vs cs = Some (a, vs', cs')"
  shows "quorum_kept (vs, cs) (vs', cs')"
proof (cases "vs' = vs \<and> cs' = cs")
  case False
  obtain ex where ex: "go_index (vs_votes vs) i = Some ex" using assms by (auto simp: addVerifiedVote_def bind_eq_Some_conv)
  then have "ex = None" using assms False by (cases ex) (auto simp: addVerifiedVote_def)
  note run = assms [unfolded addVerifiedVote_def ex \<open>ex = None\<close>, simplified]
  obtain votes where u: "go_update (vs_votes vs) i (Some v) = Some votes" using run by (auto simp: bind_eq_Some_conv)
  obtain r bits where s: "SetIndex (vs_votesBitArray vs) i True = Some (r, bits)" using run u by (auto simp: bind_eq_Some_conv)
  obtain vs1 where m: "updateSum slots p (vs\<lparr>vs_votes := votes, vs_votesBitArray := bits\<rparr>) = Some vs1"
    using run u s by (auto simp: bind_eq_Some_conv)
  obtain q where q: "GetQuorum cs = Some (q, cs')" using run u s m by (auto simp: bind_eq_Some_conv split: if_splits)
  have "vs_maj23TsHash vs' = None \<longrightarrow> areGreater (vs_sum vs') q = Some False"
    using run u s m q by (auto simp: bind_eq_Some_conv split: if_splits dest: arg_cong [of _ vs' vs_maj23TsHash])
  then show ?thesis using GetQuorum_caches [OF q] by (auto simp: quorum_kept_def below_quorum_def)
qed auto

lemma AddVote_quorum:
  assumes "AddVote cr (Some v) h vs cs = Some (r, vs', cs')"
  shows "quorum_kept (vs, cs) (vs', cs')"
proof (cases "vs' = vs \<and> cs' = cs")
  case False
  then obtain slots b where "addVerifiedVote cr v 1 (vote_SignerIndex v) slots False vs cs = Some (b, vs', cs')"
    using assms by (auto simp: AddVote_def Let_def bind_eq_Some_conv sum.case_eq_if prod.case_eq_if option.case_eq_if split: if_splits)
  then show ?thesis by (rule addVerifiedVote_quorum)
qed simp

lemma AddQc_quorum:
  assumes "AddQc cr (Some v) h vs cs = Some (r, vs', cs')"
  shows "quorum_kept (vs, cs) (vs', cs')"
proof (cases "vs' = vs \<and> cs' = cs")
  case False
  then obtain sums where "foldM (\<lambda>(valIndex, slots) (vs, cs). do {
        (_, vs', cs') \<leftarrow> addVerifiedVote cr v 1 (int32 valIndex) slots True vs cs;
        Some (vs', cs') }) sums (vs, cs) = Some (vs', cs')"
    using assms False by (auto simp: AddQc_def bind_eq_Some_conv sum.case_eq_if prod.case_eq_if option.case_eq_if split: if_splits)
  then show ?thesis
  proof (rule foldM_invariant)
    show "quorum_kept (vs, cs) (vs, cs)" by simp
  next
    fix x s s'
    assume "quorum_kept (vs, cs) s"
      and "(case x of (valIndex, slots) \<Rightarrow> \<lambda>(vs, cs). do {
        (_, vs', cs') \<leftarrow> addVerifiedVote cr v 1 (int32 valIndex) slots True vs cs;
        Some (vs', cs') }) s = Some s'"
    then show "quorum_kept (vs, cs) s'"
      by (cases s) (auto simp: bind_eq_Some_conv split: prod.splits elim!: quorum_kept_trans dest!: addVerifiedVote_quorum)
  qed
qed simp

definition kbft_notices :: "KBFT \<Rightarrow> bool" where
  "kbft_notices k \<longleftrightarrow> below_quorum (hvs_Prevotes (kb_Votes k)) (kb_ics k) \<and> below_quorum (hvs_Precommits (kb_Votes k)) (kb_ics k)"

lemma below_quorum_cs: "below_quorum vs cs \<Longrightarrow> \<forall>q. cs_quorum cs = Some q \<longrightarrow> cs_quorum cs' = Some q \<Longrightarrow> below_quorum vs cs'"
  by (auto simp: below_quorum_def)

lemma add_any_notices:
  assumes "add_any cr v hvs cs = Some (r, hvs', cs')" and "below_quorum (hvs_Prevotes hvs) cs" "below_quorum (hvs_Precommits hvs) cs"
  shows "below_quorum (hvs_Prevotes hvs') cs'" and "below_quorum (hvs_Precommits hvs') cs'"
proof -
  obtain vs vs' where vs: "getVoteSet hvs (vote_Type v) = Some vs" "hvs' = putVoteSet (vote_Type v) vs' hvs" "quorum_kept (vs, cs) (vs', cs')"
    using assms(1) AddVote_quorum AddQc_quorum
    by (auto simp: add_any_def hvs_AddVote_def hvs_AddQC_def bind_eq_Some_conv split: if_splits)
  then show "below_quorum (hvs_Prevotes hvs') cs'" "below_quorum (hvs_Precommits hvs') cs'"
    using assms(2,3) below_quorum_cs [of "hvs_Prevotes hvs" cs cs'] below_quorum_cs [of "hvs_Precommits hvs" cs cs']
    by (auto simp: quorum_kept_def getVoteSet_def putVoteSet_def split: if_splits)
qed

lemma add_any_committee: "add_any cr v hvs cs = Some (r, hvs', cs') \<Longrightarrow> cs_committee cs' = cs_committee cs"
  using AddVote_quorum AddQc_quorum
  by (fastforce simp: add_any_def hvs_AddVote_def hvs_AddQC_def bind_eq_Some_conv quorum_kept_def split: if_splits)

lemma evolves_notices: "evolves k k' \<Longrightarrow> kbft_notices k \<Longrightarrow> kbft_notices k'"
  using below_quorum_cs by (auto simp: evolves_def kbft_notices_def)

section \<open>Runs\<close>

lemma after_vote_evolves:
  assumes "after_vote ke v k = Some k'" and "vote_View v = kb_View k"
  shows "evolves k k'"
proof -
  have "k' = k \<or> enterPreCommit ke (kb_View k) k = Some k' \<or> enterCommit ke (vote_View v) k = Some k'
      \<or> map_option (\<lambda>(any, ics). k\<lparr>kb_ics := ics\<rparr>) (HasMajorityAny (Precommits (kb_Votes k)) (kb_ics k)) = Some k'"
    using assms by (auto simp: after_vote_def split: if_splits prod.splits)
  moreover have "evolves k k'"
    if m: "map_option (\<lambda>(any, ics). k\<lparr>kb_ics := ics\<rparr>) (HasMajorityAny (Precommits (kb_Votes k)) (kb_ics k)) = Some k'"
  proof -
    obtain any ics where h: "HasMajorityAny (Precommits (kb_Votes k)) (kb_ics k) = Some (any, ics)" "k' = k\<lparr>kb_ics := ics\<rparr>"
      using m by auto
    have "ics = kb_ics k \<or> (\<exists>q. GetQuorum (kb_ics k) = Some (q, ics))"
      using h(1) by (auto simp: HasMajorityAny_def bind_eq_Some_conv split: option.splits if_splits)
    then show ?thesis using GetQuorum_caches by (fastforce simp: evolves_def h(2) own_votes_def)
  qed
  ultimately show ?thesis using enterPreCommit_evolves enterCommit_evolves evolves_refl by blast
qed

text \<open>What a turn of the loop keeps: the view, the committee, the majorities, and what was sent.\<close>

definition kbft_next :: "KBFT \<Rightarrow> KBFT \<Rightarrow> bool" where
  "kbft_next k k' \<longleftrightarrow> kb_View k' = kb_View k \<and> kb_id k' = kb_id k \<and> cs_committee (kb_ics k') = cs_committee (kb_ics k)
     \<and> (\<forall>h. prevote_majority k = Some h \<longrightarrow> prevote_majority k' = Some h)
     \<and> (\<forall>h. precommit_majority k = Some h \<longrightarrow> precommit_majority k' = Some h)
     \<and> (\<forall>u. own_votes u k \<subseteq># own_votes u k') \<and> (kbft_notices k \<longrightarrow> kbft_notices k')"

lemma kbft_next_refl [simp]: "kbft_next k k"
  by (simp add: kbft_next_def)

lemma kbft_next_trans: "kbft_next k k1 \<Longrightarrow> kbft_next k1 k2 \<Longrightarrow> kbft_next k k2"
  unfolding kbft_next_def by (auto intro: subset_mset.trans)

lemma evolves_next: "evolves k k' \<Longrightarrow> kbft_next k k'"
  using evolves_notices by (auto simp: kbft_next_def evolves_def prevote_majority_def precommit_majority_def)

lemma kbft_next_other [simp]: "kbft_next k (k\<lparr>kb_evidence := e\<rparr>)" "kbft_next k (k\<lparr>kb_selfRead := n\<rparr>)"
  by (simp_all add: evolves_next evolves_def own_votes_def)

lemma handleTimeout_next:
  assumes "kbft_inv cr k" and "ti \<in> set (kb_timeouts k)" and "handleTimeout ke ti k = Some k'"
  shows "kbft_next k k'"
proof (cases "k' = k")
  case False
  obtain k1 where k1: "sends PREVOTE [] k k1" "k' = stepChange (updateViewStep (kb_View k) ViewStepPropose k1)"
    by (rule handleTimeout_result [OF assms False])
  show ?thesis using evolves_next [OF evolves_trans [OF sends_evolves [OF k1(1)]]] sendsD(4) [OF k1(1)] k1(2) by simp
qed simp

lemma setProposal_next:
  assumes "kbft_inv cr k" and "setProposal ke p k = Some (err, k')"
  shows "kbft_next k k'"
proof (cases "k' = k")
  case False
  obtain h t' vs k3 where r: "kb_Step k < ViewStepPrevote"
      "sends PREVOTE vs (k\<lparr>kb_Proposal := Some (p\<lparr>prop_Tesseract := Some t'\<rparr>), kb_Votes := SetTSHash h (kb_Votes k)\<rparr>) k3"
      "k' = stepChange (updateViewStep (kb_View k) ViewStepPrevote k3)"
    by (rule setProposal_result [OF assms False])
  let ?k1 = "k\<lparr>kb_Proposal := Some (p\<lparr>prop_Tesseract := Some t'\<rparr>), kb_Votes := SetTSHash h (kb_Votes k)\<rparr>"
  have "kbft_next k ?k1"
    by (simp add: kbft_next_def prevote_majority_def precommit_majority_def SetTSHash_def kbft_notices_def own_votes_def)
  moreover have "kbft_next ?k1 k'"
    using evolves_next [OF evolves_trans [OF sends_evolves [OF r(2)]]] sendsD(4) [OF r(2)] r(3) by simp
  ultimately show ?thesis by (rule kbft_next_trans)
qed simp

lemma addVote_next:
  assumes "kbft_inv cr k" and "addVote ke v peer k = Some (r, k')" and "ke_crypto ke = cr"
    and "\<forall>b. vote_SignerIndices v = Some b \<longrightarrow> wf_bits b \<and> Size b < 2 ^ 31"
  shows "kbft_next k k'"
proof (cases "k' = k \<or> (\<exists>e. k' = k\<lparr>kb_evidence := e\<rparr>)")
  case False
  have base: "kbft_base cr k" and inv: "hvs_inv cr (kb_Votes k, kb_ics k)" using assms(1) by (auto simp: kbft_inv_def kbft_base_def)
  obtain r votes ics where a: "add_any cr v (kb_Votes k) (kb_ics k) = Some (r, votes, ics)" "vote_View v = kb_View k"
      "after_vote ke v (k\<lparr>kb_Votes := votes, kb_ics := ics\<rparr>) = Some k'"
    using addVote_result [OF base assms(2,3)] False by blast
  let ?k1 = "k\<lparr>kb_Votes := votes, kb_ics := ics\<rparr>"
  have keeps: "hvs_majority (kb_Votes k, kb_ics k) u = Some h \<Longrightarrow> hvs_majority (votes, ics) u = Some h" for u h
    using add_any_step [OF a(1) assms(4)] hvs_step_next [OF _ inv, of "(votes, ics)"] by auto
  have "kbft_next k ?k1"
    using keeps [of PREVOTE] keeps [of PRECOMMIT] add_any_notices(1,2) [OF a(1)] add_any_committee [OF a(1)]
    by (simp add: kbft_next_def prevote_majority_def precommit_majority_def hvs_majority_def getVoteSet_def kbft_notices_def own_votes_def)
  moreover have "kbft_next ?k1 k'" using evolves_next [OF after_vote_evolves [OF a(3)]] a(2) by simp
  ultimately show ?thesis by (rule kbft_next_trans)
qed auto

lemma handleMsg_next:
  assumes "kbft_inv cr k" and "wf_msg msg" and "ke_crypto ke = cr" and "handleMsg ke msg k = Some k'"
  shows "kbft_next k k'"
proof (cases "cm_Payload msg")
  case (PayloadProposal p)
  then obtain err where "setProposal ke p k = Some (err, k')" using assms(4) by (auto simp: handleMsg_def)
  then show ?thesis by (rule setProposal_next [OF assms(1)])
next
  case (PayloadVote v)
  then obtain r where "addVote ke v (cm_PeerID msg) k = Some (r, k')" using assms(4) by (auto simp: handleMsg_def)
  moreover have "\<forall>b. vote_SignerIndices v = Some b \<longrightarrow> wf_bits b \<and> Size b < 2 ^ 31"
    using assms(2) PayloadVote by (auto simp: wf_msg_def)
  ultimately show ?thesis using addVote_next [OF assms(1) _ assms(3)] by blast
qed

lemma kbft_step_next: "kbft_step cr k k' \<Longrightarrow> kbft_inv cr k \<Longrightarrow> kbft_next k k'"
proof (induction rule: kbft_step.induct)
  case (inbound ke msg k k')
  then show ?case using handleMsg_next by blast
next
  case (self ke k k')
  then have "wf_msg (kb_self k ! kb_selfRead k)" by (simp add: kbft_inv_def kbft_base_def)
  moreover have "kbft_inv cr (k\<lparr>kb_selfRead := Suc (kb_selfRead k)\<rparr>)" using self(4) by simp
  ultimately have "kbft_next (k\<lparr>kb_selfRead := Suc (kb_selfRead k)\<rparr>) k'" using self handleMsg_next by blast
  then show ?case using kbft_next_trans kbft_next_other(2) by blast
next
  case (timeout ke ti k k')
  then show ?case using handleTimeout_next by blast
qed

text \<open>The majorities of the service are kept like those of the vote sets.\<close>

definition kbft_majority :: "KBFT \<Rightarrow> ConsensusMsgType \<Rightarrow> Hash option" where
  "kbft_majority k t = (if t = PREVOTE then prevote_majority k else if t = PRECOMMIT then precommit_majority k else None)"

interpretation kb: majority_keeper "kbft_step cr" "kbft_inv cr" kbft_majority for cr
proof
  fix k k' t h
  show "kbft_inv cr k \<Longrightarrow> kbft_step cr k k' \<Longrightarrow> kbft_inv cr k'" by (rule kbft_step_inv)
  show "kbft_inv cr k \<Longrightarrow> kbft_step cr k k' \<Longrightarrow> kbft_majority k t = Some h \<Longrightarrow> kbft_majority k' t = Some h"
    using kbft_step_next [of cr k k'] by (auto simp: kbft_next_def kbft_majority_def split: if_splits)
qed

lemma kbft_run_next: "(kbft_step cr)\<^sup>*\<^sup>* k k' \<Longrightarrow> kbft_inv cr k \<Longrightarrow> kbft_next k k'"
proof (induction rule: rtranclp_induct)
  case (step y z)
  then show ?case using kb.run_valid kbft_step_next kbft_next_trans by blast
qed simp

section \<open>The start\<close>

definition kbft_start :: "KramaID \<Rightarrow> ClusterState \<Rightarrow> Tesseract option \<Rightarrow> SafetyStore \<Rightarrow> bool \<Rightarrow> Evidence option \<Rightarrow> KBFT" where
  "kbft_start operator ics ts safety isTSStored evidence =
     scheduleView (NewKBFTService operator ics ts (NewHeightVoteSet ics) safety isTSStored evidence)"

lemma NewHeightVoteSet_fresh: "votes_fresh (NewHeightVoteSet cs)" "votes_typed view (NewHeightVoteSet cs)"
  by (auto simp: votes_fresh_def votes_typed_def getVoteSet_def NewHeightVoteSet_def Reset_def NewVoteSet_def split: if_splits)

lemma kbft_start_simps [simp]:
  "kb_Votes (kbft_start op ics ts safety stored ev) = NewHeightVoteSet ics" "kb_ics (kbft_start op ics ts safety stored ev) = ics"
  "kb_View (kbft_start op ics ts safety stored ev) = cs_currentView ics" "kb_Step (kbft_start op ics ts safety stored ev) = ViewStepNewHeight"
  "kb_Proposal (kbft_start op ics ts safety stored ev) = None" "kb_id (kbft_start op ics ts safety stored ev) = cs_selfID ics"
  "kb_self (kbft_start op ics ts safety stored ev) = []" "kb_out (kbft_start op ics ts safety stored ev) = []"
  "kb_handled (kbft_start op ics ts safety stored ev) = []" "kb_closed (kbft_start op ics ts safety stored ev) = []"
  "kb_timeouts (kbft_start op ics ts safety stored ev) = [(cs_currentView ics, ViewStepNewHeight)]"
  by (simp_all add: kbft_start_def scheduleView_def scheduleTimeout_def NewKBFTService_def updateToState_def stepChange_def updateViewStep_def)

lemma kbft_start_inv:
  assumes "cluster_ok ics" and "sets_distinct (cs_committee ics)"
  shows "kbft_inv cr (kbft_start op ics ts safety stored ev)" and "kbft_notices (kbft_start op ics ts safety stored ev)"
proof -
  have same: "SetTSHash NilHash (NewHeightVoteSet ics) = NewHeightVoteSet ics"
    by (simp add: SetTSHash_def NewHeightVoteSet_def Reset_def)
  have h: "hvs_inv cr (NewHeightVoteSet ics, ics)" using hvs_inv_start [OF assms, of cr NilHash] unfolding same .
  have "kbft_base cr (kbft_start op ics ts safety stored ev)" using h NewHeightVoteSet_fresh by (simp add: kbft_base_def)
  then show "kbft_inv cr (kbft_start op ics ts safety stored ev)"
    using NewHeightVoteSet_fresh(1) [of ics]
    by (simp add: kbft_inv_def kbft_voted_def kbft_moved_def kbft_done_def own_votes_def prevote_majority_def precommit_majority_def votes_fresh_def)
  show "kbft_notices (kbft_start op ics ts safety stored ev)"
    using NewHeightVoteSet_fresh(1) [of ics] by (simp add: kbft_notices_def below_quorum_def votes_fresh_def)
qed

text \<open>A run of a node that was started on a sound cluster.\<close>

definition kbft_reachable :: "Crypto \<Rightarrow> ClusterState \<Rightarrow> KBFT \<Rightarrow> bool" where
  "kbft_reachable cr ics k \<longleftrightarrow> cluster_ok ics \<and> sets_distinct (cs_committee ics)
     \<and> (\<exists>op ts safety stored ev. (kbft_step cr)\<^sup>*\<^sup>* (kbft_start op ics ts safety stored ev) k)"

lemma kbft_reachableD:
  assumes "kbft_reachable cr ics k"
  shows "kbft_inv cr k" and "kbft_notices k" and "kb_View k = cs_currentView ics" and "cs_committee (kb_ics k) = cs_committee ics"
proof -
  obtain op ts safety stored ev where run: "(kbft_step cr)\<^sup>*\<^sup>* (kbft_start op ics ts safety stored ev) k"
    and ok: "cluster_ok ics" "sets_distinct (cs_committee ics)" using assms by (auto simp: kbft_reachable_def)
  note s = kbft_start_inv [OF ok, where op = op and ts = ts and safety = safety and stored = stored and ev = ev]
  show "kbft_inv cr k" by (rule kb.run_valid [OF run s(1)])
  show "kbft_notices k" "kb_View k = cs_currentView ics" "cs_committee (kb_ics k) = cs_committee ics"
    using kbft_run_next [OF run s(1)] s(2) by (simp_all add: kbft_next_def)
qed

lemma own_votes_once:
  assumes "kbft_reachable cr ics k"
  shows "size (own_votes PREVOTE k) \<le> 1" and "size (own_votes PRECOMMIT k) \<le> 1"
  using kbft_reachableD(1) [OF assms] by (auto simp: kbft_inv_def kbft_voted_def split: if_splits)

section \<open>Two majorities\<close>

lemma counted_votes:
  assumes "kbft_reachable cr ics k" and "i \<in> counted (cs_committee ics) (hvs_Precommits (kb_Votes k)) s"
  obtains v where "authentic cr (cs_committee ics) i v" and "vote_Type v = PRECOMMIT" and "vote_View v = cs_currentView ics"
    and "vote_TSHash v = hvs_tsHash (kb_Votes k)"
proof -
  note r = kbft_reachableD [OF assms(1)]
  let ?vs = "hvs_Precommits (kb_Votes k)"
  have inv: "hvs_inv cr (kb_Votes k, kb_ics k)" and typed: "votes_typed (kb_View k) (kb_Votes k)"
    using r(1) by (simp_all add: kbft_inv_def kbft_base_def)
  have vs: "vs_inv cr (kb_ics k) (hvs_tsHash (kb_Votes k)) ?vs"
    using hvs_getVoteSet_inv [OF inv, of PRECOMMIT ?vs] by (simp add: getVoteSet_def)
  obtain v where v: "i < length (vs_votes ?vs)" "vs_votes ?vs ! i = Some v" using assms(2) by (auto simp: counted_def)
  have "Some v \<in> set (vs_votes ?vs)" using nth_mem [OF v(1)] v(2) by simp
  then have "vote_Type v = PRECOMMIT \<and> vote_View v = kb_View k"
    using typed [unfolded votes_typed_def, rule_format, of PRECOMMIT ?vs v] by (simp add: getVoteSet_def)
  moreover have "vote_TSHash v = hvs_tsHash (kb_Votes k) \<and> authentic cr (cs_committee ics) i v"
    using vs_invD(1,7) [OF vs] v r(4) by simp
  ultimately show ?thesis using that [of v] r(3) by simp
qed

lemma mset_at_most_one:
  assumes "size M \<le> 1" and "x \<in># M" and "y \<in># M"
  shows "x = y"
proof -
  obtain N where "M = add_mset x N" using assms(2) by (metis mset_add)
  with assms(1,3) show ?thesis by simp
qed

text \<open>The set of a committee at its first or last position: its members by their indices, and the
  quorums of precommits over it.\<close>

definition set_members :: "ICSCommittee \<Rightarrow> nat \<Rightarrow> nat set" where
  "set_members c s = {offset c s..<offset c (Suc s)}"

lemma counted_members:
  assumes "kbft_reachable cr ics k" and "s = 0 \<or> Suc s = length (Sets (cs_committee ics))"
  shows "counted (cs_committee ics) (hvs_Precommits (kb_Votes k)) s \<subseteq> set_members (cs_committee ics) s"
proof -
  note r = kbft_reachableD [OF assms(1)]
  have inv: "hvs_inv cr (kb_Votes k, kb_ics k)" using r(1) by (simp add: kbft_inv_def kbft_base_def)
  have vs: "vs_inv cr (kb_ics k) (hvs_tsHash (kb_Votes k)) (hvs_Precommits (kb_Votes k))"
    and ok: "cluster_ok (kb_ics k)" "sets_distinct (cs_committee (kb_ics k))" using inv by (auto simp: hvs_inv_def)
  show ?thesis
    using slots_of_first_last [OF ok, of _ s] assms(2) vs_invD(1) [OF vs] r(4)
    by (auto simp: counted_def set_members_def)
qed

lemma common_precommit:
  assumes "kbft_reachable cr ics1 k1" and "kbft_reachable cr ics2 k2" and "cs_committee ics1 = c" and "cs_committee ics2 = c"
    and "s < length (Sets c)" and "s = 0 \<or> Suc s = length (Sets c)" and "Sets c ! s = Some ns" and "\<not> ns_ExcludedFromICS ns"
    and "unat (ns_SetSizeWithOutDelta ns) = length (ns_Infos ns)" and "ns_Infos ns \<noteq> []"
    and "finite F" and "3 * card F \<le> length (ns_Infos ns)"
    and "precommit_majority k1 \<noteq> None" and "precommit_majority k2 \<noteq> None"
  obtains i where "i \<in> set_members c s" and "i \<notin> F" and "i \<in> counted c (hvs_Precommits (kb_Votes k1)) s"
    and "i \<in> counted c (hvs_Precommits (kb_Votes k2)) s"
proof -
  let ?n = "length (ns_Infos ns)"
  have quorum: "quorum_of c s = ?n * 2 div 3 + 1" using assms(7-10) by (simp add: quorum_of_def)
  have many: "quorum_of c s \<le> card (counted c (hvs_Precommits (kb_Votes k)) s)"
    if k: "kbft_reachable cr ics k" "cs_committee ics = c" "precommit_majority k \<noteq> None" for ics k
  proof -
    note r = kbft_reachableD [OF k(1)]
    have "hvs_inv cr (kb_Votes k, kb_ics k)" using r(1) by (simp add: kbft_inv_def kbft_base_def)
    then show ?thesis
      using majority_quorum(2) [of cr "kb_Votes k" "kb_ics k" PRECOMMIT "hvs_Precommits (kb_Votes k)" _ s] k(2,3) r(4) assms(5)
      by (auto simp: precommit_majority_def getVoteSet_def)
  qed
  have card: "card (set_members c s) = ?n" using offset_Suc [OF assms(5,7)] by (simp add: set_members_def)
  have sub: "counted c (hvs_Precommits (kb_Votes k1)) s \<subseteq> set_members c s" "counted c (hvs_Precommits (kb_Votes k2)) s \<subseteq> set_members c s"
    using counted_members [OF assms(1), of s] counted_members [OF assms(2), of s] assms(3,4,6) by simp_all
  have fin: "finite (set_members c s)" by (simp add: set_members_def)
  obtain x where x: "x \<in> counted c (hvs_Precommits (kb_Votes k1)) s" "x \<in> counted c (hvs_Precommits (kb_Votes k2)) s" "x \<notin> F"
    by (rule tq.common_honest [OF fin sub, of F])
      (use many [OF assms(1,3,13)] many [OF assms(2,4,14)] assms(11,12) card quorum in auto)
  with that sub show ?thesis by blast
qed

section \<open>Properties\<close>

text \<open>C2: In a view a node sends at most one prevote and at most one precommit, to itself and to its
  peers together. Its prevote is for the proposal it holds, and it precommits only a hash that has a
  super majority of the prevotes it has seen.\<close>

theorem kbft_votes_once:
  assumes "kbft_reachable cr ics k"
  shows "size (own_votes PREVOTE k) \<le> 1 \<and> size (own_votes PRECOMMIT k) \<le> 1
    \<and> (\<forall>v \<in># own_votes PREVOTE k. vote_View v = cs_currentView ics
        \<and> (\<exists>t. kb_ProposalTS k = Some t \<and> ts_hash t = Some (vote_TSHash v)))
    \<and> (\<forall>v \<in># own_votes PRECOMMIT k. vote_View v = cs_currentView ics
        \<and> SuperMajority (Prevotes (kb_Votes k)) = (vote_TSHash v, True))"
proof -
  note r = kbft_reachableD [OF assms]
  have voted: "kbft_voted k" and base: "kbft_base cr k" using r(1) by (simp_all add: kbft_inv_def)
  have "\<exists>t. kb_ProposalTS k = Some t \<and> ts_hash t = Some (vote_TSHash v)" if v: "v \<in># own_votes PREVOTE k" for v
  proof -
    have "own_votes PREVOTE k \<noteq> {#}" using v by auto
    then have "ViewStepPrevote \<le> kb_Step k" using voted by (auto simp: kbft_voted_def split: if_splits)
    then obtain p where p: "kb_Proposal k = Some p" using base by (auto simp: kbft_base_def not_le [symmetric] split: option.splits)
    then show ?thesis using base_proposal [OF base p] voted v by (metis kbft_voted_def)
  qed
  with voted r(3) own_votes_once [OF assms] show ?thesis by (simp add: kbft_voted_def SuperMajority_eq)
qed

text \<open>The quorum is reached for every node set.\<close>

definition has_quorum :: "ICSCommittee \<Rightarrow> VoteSet \<Rightarrow> bool" where
  "has_quorum c vs \<longleftrightarrow> (\<forall>j < length (Sets c). quorum_of c j \<le> card (counted c vs j))"

lemma quorum_noticed:
  assumes "hvs_inv cr (hvs, cs)" and "getVoteSet hvs t = Some vs" and "below_quorum vs cs" and "has_quorum (cs_committee cs) vs"
  shows "vs_maj23TsHash vs = Some (hvs_tsHash hvs)"
proof (rule ccontr)
  let ?c = "cs_committee cs"
  assume "vs_maj23TsHash vs \<noteq> Some (hvs_tsHash hvs)"
  have ok: "cluster_ok cs" and inv: "vs_inv cr cs (hvs_tsHash hvs) vs" using hvs_getVoteSet_inv [OF assms(1,2)] by auto
  have none: "vs_maj23TsHash vs = None"
    using vs_invD(8) [OF inv] \<open>vs_maj23TsHash vs \<noteq> Some (hvs_tsHash hvs)\<close> by (cases "vs_maj23TsHash vs") auto
  obtain n where n: "length (Sets ?c) = Suc n" using cluster_okD(2) [OF ok] by (cases "length (Sets ?c)") auto
  show False
  proof (cases "set (vs_votes vs) \<subseteq> {None}")
    case True
    then have "counted ?c vs n = {}" by (fastforce simp: counted_def dest: nth_mem)
    moreover have "0 < quorum_of ?c n"
      using cluster_okD(1) [OF ok] n nth_mem [of n "Sets ?c"]
      by (auto simp: quorum_of_def Let_def committee_inv_def split: option.splits)
    ultimately show False using assms(4) n by (auto simp: has_quorum_def dest: spec [of _ n])
  next
    case False
    then obtain q where q: "cs_quorum cs = Some q" "areGreater (vs_sum vs) q = Some False"
      using assms(3) none by (auto simp: below_quorum_def)
    have mq: "map unat q = map (quorum_of ?c) [0..<length (Sets ?c)]" using ok q(1) by (simp add: cluster_ok_def)
    from arg_cong [OF mq, of length] have len: "length q = length (Sets ?c)" by simp
    have "q ! j \<le> vs_sum vs ! j" if "j < length (Sets ?c)" for j
      using arg_cong [OF mq, of "\<lambda>l. l ! j"] that len vs_invD(6) [OF inv that] assms(4)
      by (simp add: has_quorum_def word_le_nat_alt)
    then show False using q(2) areGreater_eq [of "vs_sum vs" q] vs_invD(4) [OF inv] len by simp
  qed
qed

text \<open>C3: A node never misses its commit: whenever the precommits it has stored reach the quorum of
  every node set, it has the super majority, is in the commit step and has closed, and what it handed
  over is the proposal with a certificate of precommits for its hash.\<close>

theorem kbft_quorum_commits:
  assumes "kbft_reachable cr ics k" and "kb_ProposalTS k = Some t" and "ts_hash t = Some h" and "h \<noteq> NilHash" and "h \<noteq> []"
    and "has_quorum (cs_committee ics) (hvs_Precommits (kb_Votes k))"
  shows "SuperMajority (Precommits (kb_Votes k)) = (h, True) \<and> kb_Step k = ViewStepCommit \<and> kb_closed k \<noteq> []
    \<and> (\<forall>s \<in> set (kb_handled k). TSHeader.truncate s = TSHeader.truncate t \<and> commits (cs_currentView ics) h s)"
proof -
  note r = kbft_reachableD [OF assms(1)]
  have base: "kbft_base cr k" and hvs: "hvs_inv cr (kb_Votes k, kb_ics k)" using r(1) by (simp_all add: kbft_inv_def kbft_base_def)
  have h: "h = hvs_tsHash (kb_Votes k)" using base_ProposalTS(1) [OF base assms(2)] assms(3) by simp
  have "precommit_majority k = Some h"
    using quorum_noticed [OF hvs, of PRECOMMIT "hvs_Precommits (kb_Votes k)"] r(2,4) assms(6) h
    by (simp add: precommit_majority_def kbft_notices_def getVoteSet_def)
  moreover then have "kb_Step k = ViewStepCommit" using r(1) assms(4) by (simp add: kbft_inv_def kbft_moved_def)
  moreover obtain p where "kb_Proposal k = Some p" "prop_Tesseract p = Some t"
    using assms(2) by (auto simp: kb_ProposalTS_def bind_eq_Some_conv)
  ultimately show ?thesis
    using r(1,3) h assms(5) by (auto simp: kbft_inv_def kbft_done_def SuperMajority_eq handed_over_def commits_def)
qed

section \<open>An example run\<close>

text \<open>A cluster of one validator, which is also the operator, and its run: the view starts, the node
  proposes, prevotes, precommits and commits.\<close>

definition solo_ics :: ICSCommittee where
  "solo_ics = AppendNodeSet NilHash (Some (NewNodeSet [example_validator ''a''] 1)) NewICSCommittee"

definition solo_cluster :: ClusterState where
  "solo_cluster = (NewICS ''c'' ''a'' ''a'' solo_ics [] [] 1 False)
     \<lparr>cs_preparedQc := Some \<lparr>pi_View = 1, pi_PeerViews = [], pi_SignerIndices = None, pi_Signature = []\<rparr>\<rparr>"

definition solo_crypto :: Crypto where
  "solo_crypto = example_crypto\<lparr>cr_SignBytes := (\<lambda>cv. if cv_TSHash cv = [7] then Inr [7] else Inl '''')\<rparr>"

definition solo_env :: KEnv where
  "solo_env = \<lparr>ke_crypto = solo_crypto, ke_safety = example_safety_env\<lparr>se_encProposal := (\<lambda>_. Inr [])\<rparr>, ke_Sign = Some (\<lambda>_. Inr [1]),
     ke_encEvidence = (\<lambda>_. Inr []), ke_GetHash = (\<lambda>x. x), ke_handler = (\<lambda>_. None), ke_now = 0\<rparr>"

definition solo_start :: KBFT where
  "solo_start = kbft_start ''a'' solo_cluster (Some (example_tesseract [])) example_store False None"

definition self_turn :: "KEnv \<Rightarrow> KBFT \<Rightarrow> KBFT option" where
  "self_turn ke k = (if kb_selfRead k < length (kb_self k)
     then handleMsg ke (kb_self k ! kb_selfRead k) (k\<lparr>kb_selfRead := Suc (kb_selfRead k)\<rparr>) else None)"

definition solo_run :: "KBFT option" where
  "solo_run = do {
     k1 \<leftarrow> handleTimeout solo_env (1, ViewStepNewHeight) solo_start;
     k2 \<leftarrow> self_turn solo_env k1;
     k3 \<leftarrow> self_turn solo_env k2;
     self_turn solo_env k3
   }"

definition solo_facts :: "KBFT \<Rightarrow> bool" where
  "solo_facts k \<longleftrightarrow> precommit_majority k = Some [7] \<and> map vote_TSHash (sent_votes PRECOMMIT (kb_self k)) = [[7]]
     \<and> map vote_TSHash (sent_votes PREVOTE (kb_self k)) = [[7]] \<and> map_option ts_hash (kb_ProposalTS k) = Some (Some [7]) \<and> length (kb_handled k) = 1"

lemma solo_run_eval: "(case solo_run of None \<Rightarrow> False | Some k \<Rightarrow> solo_facts k)"
  by code_simp

lemma solo_cluster_ok: "cluster_ok solo_cluster \<and> sets_distinct (cs_committee solo_cluster)"
proof -
  have sets: "Sets solo_ics = [Some (NewNodeSet [example_validator ''a''] 1)]"
    by (simp add: solo_ics_def AppendNodeSet_def NewICSCommittee_def Let_def)
  have "committee_reachable solo_ics"
    unfolding solo_ics_def by (rule committee_reachable.step [OF committee_reachable.start committee_step.append]) simp
  then have inv: "committee_inv solo_ics" by (rule committee_reachable_inv)
  have roster: "roster solo_ics = [(example_validator ''a'', \<lambda>_. False)]"
    using set_ok_NewNodeSet [of "[example_validator ''a'']" 1] by (simp add: roster_def sets)
  with inv have "totalNodes solo_ics = 1" by (simp add: committee_inv_def)
  with inv show ?thesis
    by (auto simp: cluster_ok_def sets_distinct_def solo_cluster_def NewICS_def sets roster example_validator_def NewNodeSet_def)
qed

definition solo_end :: KBFT where
  "solo_end = (case solo_run of Some k \<Rightarrow> k | None \<Rightarrow> solo_start)"

lemma self_turn_step: "self_turn ke k = Some k' \<Longrightarrow> kbft_step (ke_crypto ke) k k'"
  by (auto simp: self_turn_def intro: kbft_step.self [OF refl] split: if_splits)

lemma solo_end:
  shows "kbft_reachable solo_crypto solo_cluster solo_end" and "solo_facts solo_end"
proof -
  obtain k where k: "solo_run = Some k" using solo_run_eval by (auto split: option.splits)
  have "solo_facts k" using solo_run_eval unfolding k by simp
  then show "solo_facts solo_end" unfolding solo_end_def k by simp
  obtain k1 k2 k3 where r: "handleTimeout solo_env (1, ViewStepNewHeight) solo_start = Some k1" "self_turn solo_env k1 = Some k2"
      "self_turn solo_env k2 = Some k3" "self_turn solo_env k3 = Some k"
    using k by (auto simp: solo_run_def bind_eq_Some_conv)
  have cr: "ke_crypto solo_env = solo_crypto" by (simp add: solo_env_def)
  have "(1, ViewStepNewHeight) \<in> set (kb_timeouts solo_start)" by (simp add: solo_start_def solo_cluster_def NewICS_def)
  then have "kbft_step solo_crypto solo_start k1" by (rule kbft_step.timeout [OF cr _ r(1)])
  moreover have "kbft_step solo_crypto k1 k2" "kbft_step solo_crypto k2 k3" "kbft_step solo_crypto k3 k"
    using r(2-4) self_turn_step [of solo_env] cr by auto
  ultimately have "(kbft_step solo_crypto)\<^sup>*\<^sup>* solo_start k" by (meson converse_rtranclp_into_rtranclp r_into_rtranclp)
  then show "kbft_reachable solo_crypto solo_cluster solo_end"
    using solo_cluster_ok unfolding kbft_reachable_def solo_end_def k solo_start_def by simp blast
qed

lemma solo_quorum: "has_quorum (cs_committee solo_cluster) (hvs_Precommits (kb_Votes solo_end))"
proof -
  note r = kbft_reachableD [OF solo_end(1)]
  have "hvs_inv solo_crypto (kb_Votes solo_end, kb_ics solo_end)" using r(1) by (simp add: kbft_inv_def kbft_base_def)
  moreover have "vs_maj23TsHash (hvs_Precommits (kb_Votes solo_end)) = Some [7]"
    using solo_end(2) by (simp add: solo_facts_def precommit_majority_def)
  ultimately show ?thesis
    using majority_quorum(2) [where t = PRECOMMIT] r(4) by (fastforce simp: has_quorum_def getVoteSet_def)
qed

theorem kbft_votes_once_witness:
  "\<exists>v. own_votes PRECOMMIT solo_end = {#v#} \<and> SuperMajority (Prevotes (kb_Votes solo_end)) = (vote_TSHash v, True)"
proof -
  note once = kbft_votes_once [OF solo_end(1)]
  obtain w where "sent_votes PRECOMMIT (kb_self solo_end) = [w]" using solo_end(2) by (auto simp: solo_facts_def)
  then have "w \<in># own_votes PRECOMMIT solo_end" by (simp add: own_votes_def)
  moreover then have "own_votes PRECOMMIT solo_end = {#w#}" using once by (auto dest!: multi_member_split)
  ultimately show ?thesis using once by auto
qed

theorem kbft_quorum_commits_witness:
  "SuperMajority (Precommits (kb_Votes solo_end)) = ([7], True) \<and> kb_closed solo_end \<noteq> []
    \<and> (\<exists>s. s \<in> set (kb_handled solo_end) \<and> commits 1 [7] s)"
proof -
  obtain t where t: "kb_ProposalTS solo_end = Some t" "ts_hash t = Some [7]" using solo_end(2) by (auto simp: solo_facts_def)
  have "[7] \<noteq> NilHash" by (auto simp: NilHash_def dest: arg_cong [of _ _ length])
  note c = kbft_quorum_commits [OF solo_end(1) t this _ solo_quorum]
  obtain s where "kb_handled solo_end = [s]" using solo_end(2) by (auto simp: solo_facts_def length_Suc_conv)
  moreover have "cs_currentView solo_cluster = 1" by (simp add: solo_cluster_def NewICS_def)
  ultimately show ?thesis using c by auto
qed

end
