(* ===== verification/Asset_State.thy ===== *)
theory Asset_State
  imports Interactions "HOL-Library.AList"
begin

text \<open>
  The assets of an account: src/state/asset.go and the asset operations of src/state/object.go, with
  the descriptors of src/common/asset.go. An asset object and the meta data of a token are shared by
  pointers: the transaction of an account, a snapshot of it and the code that changes a balance in
  place can hold the same object. So they live in a memory, and the transaction holds addresses. The
  hash trees of the account (src/state/tree, over a third-party sparse Merkle tree and codec) are data
  of the account: what they return for a key. A number is a value: each call is assumed to be
  given a \<^verbatim>\<open>big.Int\<close> of its own, since \<^verbatim>\<open>AddBalance\<close> and \<^verbatim>\<open>CreateLockup\<close> store the pointer they are given.
\<close>

section \<open>Results\<close>

text \<open>An operation that changes a state and returns a value, an error, or panics.\<close>

datatype state_error =
    ErrAssetNotFound | ErrAssetAlreadyRegistered | ErrTokenNotFound | ErrInsufficientFunds | ErrInvalidAmount | ErrInvalidAccess
  | ErrInvalidBeneficiary | ErrBeneficiaryNotRegistered | ErrMandateNotFound | ErrMandateExpired | ErrLockupNotFound
  | ErrManagerMismatch | ErrMaxSupplyReached | ErrKeyNotFound | ErrKeyExists | ErrObjectNotFound | ErrAccountAlreadyRegistered
  | ErrLogicStorageTreeNotFound | ErrState string

type_synonym ('s, 'a) gom = "'s \<Rightarrow> ((state_error + 'a) \<times> 's) option"

definition gret :: "'a \<Rightarrow> ('s, 'a) gom" where
  "gret x = (\<lambda>s. Some (Inr x, s))"

definition gerr :: "state_error \<Rightarrow> ('s, 'a) gom" where
  "gerr e = (\<lambda>s. Some (Inl e, s))"

definition gpanic :: "('s, 'a) gom" where
  "gpanic = (\<lambda>s. None)"

definition gbind :: "('s, 'a) gom \<Rightarrow> ('a \<Rightarrow> ('s, 'b) gom) \<Rightarrow> ('s, 'b) gom" where
  "gbind m f = (\<lambda>s. case m s of
     None \<Rightarrow> None
   | Some (Inl e, s') \<Rightarrow> Some (Inl e, s')
   | Some (Inr x, s') \<Rightarrow> f x s')"

text \<open>The error branch \<^verbatim>\<open>if err != nil\<close> of a call.\<close>

definition gcatch :: "('s, 'a) gom \<Rightarrow> (state_error \<Rightarrow> ('s, 'a) gom) \<Rightarrow> ('s, 'a) gom" where
  "gcatch m h = (\<lambda>s. case m s of
     None \<Rightarrow> None
   | Some (Inl e, s') \<Rightarrow> h e s'
   | Some (Inr x, s') \<Rightarrow> Some (Inr x, s'))"

definition gthen :: "('s, 'a) gom \<Rightarrow> ('s, 'b) gom \<Rightarrow> ('s, 'b) gom" where
  "gthen m n = gbind m (\<lambda>_. n)"

definition gguard :: "bool \<Rightarrow> state_error \<Rightarrow> ('s, unit) gom" where
  "gguard b e = (if b then gret () else gerr e)"

definition gcheck :: "state_error option \<Rightarrow> ('s, unit) gom" where
  "gcheck e = (case e of None \<Rightarrow> gret () | Some err \<Rightarrow> gerr err)"

section \<open>Asset objects\<close>

type_synonym TokenID = u64

record AmountWithExpiry =
  aw_Amount :: int
  aw_ExpiresAt :: u64

record AssetDescriptor =
  ad_AssetID :: Identifier
  ad_Symbol :: string
  ad_Decimals :: u8
  ad_Dimension :: u8
  ad_Creator :: Identifier
  ad_Manager :: Identifier
  ad_MaxSupply :: int
  ad_CirculatingSupply :: int
  ad_EnableEvents :: bool
  ad_StaticMetaData :: "string \<rightharpoonup> u8 list"
  ad_DynamicMetaData :: "string \<rightharpoonup> u8 list"
  ad_LogicID :: Identifier

definition NewAssetDescriptor ::
  "Identifier \<Rightarrow> string \<Rightarrow> u8 \<Rightarrow> u8 \<Rightarrow> Identifier \<Rightarrow> Identifier \<Rightarrow> int \<Rightarrow> (string \<rightharpoonup> u8 list) \<Rightarrow> (string \<rightharpoonup> u8 list) \<Rightarrow> bool
    \<Rightarrow> Identifier \<Rightarrow> AssetDescriptor" where
  "NewAssetDescriptor assetID symbol decimals dimension manager creator maxSupply staticMetadata dynamicMetadata enableEvents logicID =
     \<lparr>ad_AssetID = assetID, ad_Symbol = symbol, ad_Decimals = decimals, ad_Dimension = dimension, ad_Creator = creator,
      ad_Manager = manager, ad_MaxSupply = maxSupply, ad_CirculatingSupply = 0, ad_EnableEvents = enableEvents,
      ad_StaticMetaData = staticMetadata, ad_DynamicMetaData = dynamicMetadata, ad_LogicID = logicID\<rparr>"

text \<open>A nil map is \<^const>\<open>None\<close> where the code writes to it: that panics. The meta data of a token is a
  pointer, nil or an address (or, in the tree, a value).\<close>

record MetaData =
  md_static :: "(string \<rightharpoonup> u8 list) option"
  md_dynamic :: "(string \<rightharpoonup> u8 list) option"

type_synonym Allowances = "(Identifier \<times> (TokenID \<times> AmountWithExpiry) list) list"

record 'm AssetObject =
  ao_Balance :: "(TokenID \<times> int) list"
  ao_TokenMetaData :: "(TokenID \<times> 'm option) list option"
  ao_Lockup :: Allowances
  ao_Mandate :: Allowances
  ao_Properties :: "AssetDescriptor option"

definition NewAssetObject :: "AssetDescriptor option \<Rightarrow> 'm AssetObject" where
  "NewAssetObject properties =
     \<lparr>ao_Balance = [], ao_TokenMetaData = Some [], ao_Lockup = [], ao_Mandate = [], ao_Properties = properties\<rparr>"

definition hasTokenID :: "TokenID \<Rightarrow> 'm AssetObject \<Rightarrow> bool" where
  "hasTokenID tokenID ao \<longleftrightarrow> map_of (ao_Balance ao) tokenID \<noteq> None
     \<or> list_ex (\<lambda>(_, tokens). map_of tokens tokenID \<noteq> None) (ao_Lockup ao)"

definition deleteTokenMetadata :: "TokenID \<Rightarrow> 'm AssetObject \<Rightarrow> 'm AssetObject" where
  "deleteTokenMetadata tokenID ao =
     (if \<not> hasTokenID tokenID ao then ao\<lparr>ao_TokenMetaData := map_option (AList.delete tokenID) (ao_TokenMetaData ao)\<rparr> else ao)"

definition GetBalance :: "TokenID \<Rightarrow> 'm AssetObject \<Rightarrow> int" where
  "GetBalance tokenID ao = (case map_of (ao_Balance ao) tokenID of None \<Rightarrow> 0 | Some bal \<Rightarrow> bal)"

definition HasBalance :: "TokenID \<Rightarrow> int \<Rightarrow> 'm AssetObject \<Rightarrow> state_error option" where
  "HasBalance tokenID amount ao =
     (case map_of (ao_Balance ao) tokenID of
        None \<Rightarrow> Some ErrTokenNotFound
      | Some bal \<Rightarrow> if bal < amount then Some ErrInsufficientFunds else None)"

text \<open>The properties of an account that is not the asset account are a nil pointer.\<close>

definition updateStaticMetadata :: "string \<Rightarrow> u8 list \<Rightarrow> 'm AssetObject \<Rightarrow> (state_error option \<times> 'm AssetObject) option" where
  "updateStaticMetadata key val ao = map_option (\<lambda>p.
     if ad_StaticMetaData p key \<noteq> None then (Some ErrKeyExists, ao)
     else (None, ao\<lparr>ao_Properties := Some (p\<lparr>ad_StaticMetaData := (ad_StaticMetaData p)(key \<mapsto> val)\<rparr>)\<rparr>)) (ao_Properties ao)"

definition updateDynamicMetadata :: "string \<Rightarrow> u8 list \<Rightarrow> 'm AssetObject \<Rightarrow> 'm AssetObject option" where
  "updateDynamicMetadata key val ao = map_option (\<lambda>p.
     ao\<lparr>ao_Properties := Some (p\<lparr>ad_DynamicMetaData := (ad_DynamicMetaData p)(key \<mapsto> val)\<rparr>)\<rparr>) (ao_Properties ao)"

section \<open>Accounts\<close>

record Memory =
  mem_asset :: "nat \<Rightarrow> nat AssetObject"
  mem_meta :: "nat \<Rightarrow> MetaData"
  mem_next :: nat

text \<open>The part of \<^verbatim>\<open>Object\<close> that assets need: the transaction and the tree of the assets, the deeds or the
  error of loading them, the transactions and trees of the storage of a logic, and what creating a tree
  gives: an error, or an empty tree and the error of entering it in the meta storage tree.\<close>

type_synonym StorageTree = "u8 list \<Rightarrow> state_error + u8 list"

record Object =
  ob_id :: Identifier
  ob_isGenesis :: bool
  ob_assetTreeTxn :: "(Identifier \<rightharpoonup> nat) option"
  ob_assetTree :: "Identifier \<Rightarrow> state_error + MetaData AssetObject"
  ob_deeds :: "state_error + Identifier set"
  ob_storageTreeTxns :: "Identifier \<rightharpoonup> (u8 list \<rightharpoonup> u8 list)"
  ob_storageTrees :: "Identifier \<Rightarrow> state_error + StorageTree"
  ob_newTree :: "Identifier \<Rightarrow> state_error + StorageTree \<times> state_error option"

type_synonym ostate = "Memory \<times> Object"

text \<open>Pointers: a new object, reading and writing through a pointer.\<close>

definition new_asset :: "nat AssetObject \<Rightarrow> (ostate, nat) gom" where
  "new_asset ao = (\<lambda>(mem, ob). Some (Inr (mem_next mem),
     mem\<lparr>mem_asset := (mem_asset mem)(mem_next mem := ao), mem_next := Suc (mem_next mem)\<rparr>, ob))"

definition new_meta :: "MetaData \<Rightarrow> (ostate, nat) gom" where
  "new_meta md = (\<lambda>(mem, ob). Some (Inr (mem_next mem),
     mem\<lparr>mem_meta := (mem_meta mem)(mem_next mem := md), mem_next := Suc (mem_next mem)\<rparr>, ob))"

definition read_asset :: "nat \<Rightarrow> (ostate, nat AssetObject) gom" where
  "read_asset r = (\<lambda>(mem, ob). Some (Inr (mem_asset mem r), mem, ob))"

definition write_asset :: "nat \<Rightarrow> nat AssetObject \<Rightarrow> (ostate, unit) gom" where
  "write_asset r ao = (\<lambda>(mem, ob). Some (Inr (), mem\<lparr>mem_asset := (mem_asset mem)(r := ao)\<rparr>, ob))"

definition write_meta :: "nat \<Rightarrow> MetaData \<Rightarrow> (ostate, unit) gom" where
  "write_meta r md = (\<lambda>(mem, ob). Some (Inr (), mem\<lparr>mem_meta := (mem_meta mem)(r := md)\<rparr>, ob))"

text \<open>An asset object that is decoded from the tree is a new object, with new meta data.\<close>

definition decoded_asset :: "MetaData AssetObject \<Rightarrow> nat \<Rightarrow> nat AssetObject" where
  "decoded_asset st n = \<lparr>ao_Balance = ao_Balance st,
     ao_TokenMetaData = map_option (\<lambda>ms. map (\<lambda>((t, m), i). (t, map_option (\<lambda>_. i) m)) (zip ms [Suc n..<Suc n + length ms]))
       (ao_TokenMetaData st),
     ao_Lockup = ao_Lockup st, ao_Mandate = ao_Mandate st, ao_Properties = ao_Properties st\<rparr>"

definition stored_meta :: "MetaData AssetObject \<Rightarrow> MetaData option list" where
  "stored_meta st = (case ao_TokenMetaData st of None \<Rightarrow> [] | Some ms \<Rightarrow> map snd ms)"

definition load_asset :: "MetaData AssetObject \<Rightarrow> (ostate, nat) gom" where
  "load_asset st = (\<lambda>(mem, ob). let n = mem_next mem; ms = stored_meta st in
     Some (Inr n, mem\<lparr>mem_asset := (mem_asset mem)(n := decoded_asset st n),
       mem_meta := (\<lambda>i. if n < i \<and> i \<le> n + length ms then (case ms ! (i - Suc n) of Some md \<Rightarrow> md | None \<Rightarrow> mem_meta mem i)
                       else mem_meta mem i),
       mem_next := Suc n + length ms\<rparr>, ob))"

definition updateAssetTree :: "Identifier \<Rightarrow> nat \<Rightarrow> (ostate, unit) gom" where
  "updateAssetTree assetID r = (\<lambda>(mem, ob). Some (Inr (), mem,
     ob\<lparr>ob_assetTreeTxn := Some ((case ob_assetTreeTxn ob of None \<Rightarrow> Map.empty | Some txn \<Rightarrow> txn)(assetID \<mapsto> r))\<rparr>))"

definition getAssetObject :: "Identifier \<Rightarrow> bool \<Rightarrow> (ostate, nat) gom" where
  "getAssetObject assetID checkTxn = (\<lambda>(mem, ob).
     case (if checkTxn then Option.bind (ob_assetTreeTxn ob) (\<lambda>txn. txn assetID) else None) of
       Some r \<Rightarrow> Some (Inr r, mem, ob)
     | None \<Rightarrow> (case ob_assetTree ob assetID of
           Inl e \<Rightarrow> Some (Inl e, mem, ob)
         | Inr st \<Rightarrow> load_asset st (mem, ob)))"

text \<open>The meta data pointer of a token; a missing key is nil.\<close>

definition token_meta :: "TokenID \<Rightarrow> 'm AssetObject \<Rightarrow> 'm option" where
  "token_meta tokenID ao = Option.bind (ao_TokenMetaData ao) (\<lambda>ms. Option.bind (map_of ms tokenID) (\<lambda>m. m))"

text \<open>\<^verbatim>\<open>isAssetRegistered\<close> is the call in the condition.\<close>

definition InsertNewAssetObject :: "Identifier \<Rightarrow> nat \<Rightarrow> (ostate, unit) gom" where
  "InsertNewAssetObject assetID r = (\<lambda>s. case getAssetObject assetID True s of
     None \<Rightarrow> None
   | Some (Inr _, s') \<Rightarrow> Some (Inl ErrAssetAlreadyRegistered, s')
   | Some (Inl _, s') \<Rightarrow> updateAssetTree assetID r s')"

text \<open>The asset object of an operation, or \<^verbatim>\<open>ErrAssetNotFound\<close>.\<close>

definition fetch_asset :: "Identifier \<Rightarrow> (ostate, nat) gom" where
  "fetch_asset assetID = gcatch (getAssetObject assetID True) (\<lambda>_. gerr ErrAssetNotFound)"

section \<open>Balances\<close>

definition BalanceOf :: "Identifier \<Rightarrow> TokenID \<Rightarrow> (ostate, int) gom" where
  "BalanceOf assetID tokenID =
     gbind (gcatch (getAssetObject assetID False) (\<lambda>_. gerr ErrAssetNotFound)) (\<lambda>r.
     gbind (read_asset r) (\<lambda>ao. case map_of (ao_Balance ao) tokenID of None \<Rightarrow> gerr ErrTokenNotFound | Some amount \<Rightarrow> gret amount))"

text \<open>A token the account does not hold yet: the code replaces the whole map of balances.\<close>

definition credit :: "TokenID \<Rightarrow> int \<Rightarrow> 'm AssetObject \<Rightarrow> 'm AssetObject" where
  "credit tokenID amount ao = (case map_of (ao_Balance ao) tokenID of
     None \<Rightarrow> ao\<lparr>ao_Balance := [(tokenID, amount)]\<rparr>
   | Some bal \<Rightarrow> ao\<lparr>ao_Balance := AList.update tokenID (bal + amount) (ao_Balance ao)\<rparr>)"

definition AddBalance :: "Identifier \<Rightarrow> TokenID \<Rightarrow> int \<Rightarrow> nat option \<Rightarrow> (ostate, unit) gom" where
  "AddBalance assetID tokenID amount metadata =
     gbind (gcatch (getAssetObject assetID True)
              (\<lambda>_. gbind (new_asset (NewAssetObject None)) (\<lambda>r. gthen (InsertNewAssetObject assetID r) (gret r)))) (\<lambda>r.
     gbind (read_asset r) (\<lambda>ao.
     gthen (case metadata of
              None \<Rightarrow> write_asset r (credit tokenID amount ao)
            | Some m \<Rightarrow> (case ao_TokenMetaData ao of
                None \<Rightarrow> gpanic
              | Some ms \<Rightarrow> write_asset r ((credit tokenID amount ao)\<lparr>ao_TokenMetaData := Some (AList.update tokenID (Some m) ms)\<rparr>)))
     (updateAssetTree assetID r)))"

definition SubBalance :: "Identifier \<Rightarrow> TokenID \<Rightarrow> int \<Rightarrow> (ostate, nat option) gom" where
  "SubBalance assetID tokenID amount =
     gbind (fetch_asset assetID) (\<lambda>r.
     gbind (read_asset r) (\<lambda>ao.
     case map_of (ao_Balance ao) tokenID of
       None \<Rightarrow> gerr ErrTokenNotFound
     | Some bal \<Rightarrow>
         (let ao1 = ao\<lparr>ao_Balance := AList.update tokenID (bal - amount) (ao_Balance ao)\<rparr>;
              metadata = token_meta tokenID ao;
              ao2 = (if bal - amount = 0
                     then deleteTokenMetadata tokenID (ao1\<lparr>ao_Balance := AList.delete tokenID (ao_Balance ao1)\<rparr>) else ao1)
          in gthen (write_asset r ao2) (gthen (updateAssetTree assetID r) (gret metadata)))))"

section \<open>Lockups\<close>

text \<open>The entry of a beneficiary and a token in a table of lockups or mandates.\<close>

definition allowance :: "Allowances \<Rightarrow> Identifier \<Rightarrow> TokenID \<Rightarrow> AmountWithExpiry option" where
  "allowance as i t = Option.bind (map_of as i) (\<lambda>tokens. map_of tokens t)"

definition put_allowance :: "Identifier \<Rightarrow> TokenID \<Rightarrow> AmountWithExpiry \<Rightarrow> Allowances \<Rightarrow> Allowances" where
  "put_allowance i t a as = AList.update i (AList.update t a (case map_of as i of None \<Rightarrow> [] | Some tokens \<Rightarrow> tokens)) as"

text \<open>An entry that is dropped; a beneficiary without entries is dropped too.\<close>

definition drop_allowance :: "Identifier \<Rightarrow> TokenID \<Rightarrow> Allowances \<Rightarrow> Allowances" where
  "drop_allowance i t as = (case map_of as i of
     None \<Rightarrow> AList.delete i as
   | Some tokens \<Rightarrow> (let rest = AList.delete t tokens in if rest = [] then AList.delete i as else AList.update i rest as))"

text \<open>A beneficiary that has lockups, but none of this token: the expiry of a nil pointer is read.\<close>

definition CreateLockup :: "Identifier \<Rightarrow> TokenID \<Rightarrow> Identifier \<Rightarrow> int \<Rightarrow> (ostate, unit) gom" where
  "CreateLockup assetID tokenID beneficiary amount =
     gbind (fetch_asset assetID) (\<lambda>r.
     gbind (read_asset r) (\<lambda>ao.
     case map_of (ao_Balance ao) tokenID of
       None \<Rightarrow> gerr ErrTokenNotFound
     | Some bal \<Rightarrow>
         (let ao1 = ao\<lparr>ao_Balance := (if bal - amount = 0 then AList.delete tokenID (ao_Balance ao)
                                      else AList.update tokenID (bal - amount) (ao_Balance ao))\<rparr>
          in gbind (case map_of (ao_Lockup ao) beneficiary of
                 Some lockups \<Rightarrow> (case map_of lockups tokenID of
                     None \<Rightarrow> gpanic
                   | Some lockup \<Rightarrow> gret \<lparr>aw_Amount = aw_Amount lockup + amount, aw_ExpiresAt = aw_ExpiresAt lockup\<rparr>)
               | None \<Rightarrow> gret \<lparr>aw_Amount = amount, aw_ExpiresAt = 0\<rparr>) (\<lambda>lockup.
             gthen (write_asset r (ao1\<lparr>ao_Lockup := put_allowance beneficiary tokenID lockup (ao_Lockup ao)\<rparr>))
               (updateAssetTree assetID r)))))"

definition ReleaseLockup :: "Identifier \<Rightarrow> TokenID \<Rightarrow> Identifier \<Rightarrow> int \<Rightarrow> (ostate, nat option) gom" where
  "ReleaseLockup assetID tokenID beneficiary amount =
     gbind (fetch_asset assetID) (\<lambda>r.
     gbind (read_asset r) (\<lambda>ao.
     case allowance (ao_Lockup ao) beneficiary tokenID of
       None \<Rightarrow> gpanic
     | Some lockup \<Rightarrow>
         (let metadata = token_meta tokenID ao;
              left = aw_Amount lockup - amount;
              ao1 = (if left = 0
                     then deleteTokenMetadata tokenID (ao\<lparr>ao_Lockup := drop_allowance beneficiary tokenID (ao_Lockup ao)\<rparr>)
                     else ao\<lparr>ao_Lockup := put_allowance beneficiary tokenID (lockup\<lparr>aw_Amount := left\<rparr>) (ao_Lockup ao)\<rparr>)
          in gthen (write_asset r ao1) (gthen (updateAssetTree assetID r) (gret metadata)))))"

definition GetLockup :: "Identifier \<Rightarrow> TokenID \<Rightarrow> Identifier \<Rightarrow> (ostate, AmountWithExpiry) gom" where
  "GetLockup assetID tokenID operatorID =
     gbind (fetch_asset assetID) (\<lambda>r.
     gbind (read_asset r) (\<lambda>ao.
     case allowance (ao_Lockup ao) operatorID tokenID of None \<Rightarrow> gerr ErrLockupNotFound | Some a \<Rightarrow> gret a))"

section \<open>Mandates\<close>

text \<open>A beneficiary without mandates: the code starts a new table, so the other mandates are gone.\<close>

definition CreateMandate :: "Identifier \<Rightarrow> TokenID \<Rightarrow> Identifier \<Rightarrow> int \<Rightarrow> u64 \<Rightarrow> (ostate, unit) gom" where
  "CreateMandate assetID tokenID beneficiary amount expiresAt =
     gbind (fetch_asset assetID) (\<lambda>r.
     gbind (read_asset r) (\<lambda>ao.
     gthen (write_asset r (case map_of (ao_Mandate ao) beneficiary of
         Some mandates \<Rightarrow>
           (let amount' = (case map_of mandates tokenID of None \<Rightarrow> amount | Some mandate \<Rightarrow> aw_Amount mandate + amount)
            in ao\<lparr>ao_Mandate := put_allowance beneficiary tokenID \<lparr>aw_Amount = amount', aw_ExpiresAt = expiresAt\<rparr> (ao_Mandate ao)\<rparr>)
       | None \<Rightarrow> ao\<lparr>ao_Mandate := [(beneficiary, [(tokenID, \<lparr>aw_Amount = amount, aw_ExpiresAt = expiresAt\<rparr>)])]\<rparr>))
     (updateAssetTree assetID r)))"

definition SubMandateBalance :: "Identifier \<Rightarrow> TokenID \<Rightarrow> Identifier \<Rightarrow> int \<Rightarrow> (ostate, unit) gom" where
  "SubMandateBalance assetID tokenID operatorID amount =
     gbind (fetch_asset assetID) (\<lambda>r.
     gbind (read_asset r) (\<lambda>ao.
     case allowance (ao_Mandate ao) operatorID tokenID of
       None \<Rightarrow> gerr ErrMandateNotFound
     | Some mandate \<Rightarrow>
         (let left = aw_Amount mandate - amount
          in gthen (write_asset r (ao\<lparr>ao_Mandate := (if left = 0 then drop_allowance operatorID tokenID (ao_Mandate ao)
                      else put_allowance operatorID tokenID (mandate\<lparr>aw_Amount := left\<rparr>) (ao_Mandate ao))\<rparr>))
             (updateAssetTree assetID r))))"

definition ConsumeMandate :: "Identifier \<Rightarrow> TokenID \<Rightarrow> Identifier \<Rightarrow> int \<Rightarrow> (ostate, nat option) gom" where
  "ConsumeMandate assetID tokenID operatorID amount =
     gthen (SubMandateBalance assetID tokenID operatorID amount) (SubBalance assetID tokenID amount)"

definition DeleteMandate :: "Identifier \<Rightarrow> TokenID \<Rightarrow> Identifier \<Rightarrow> (ostate, unit) gom" where
  "DeleteMandate assetID tokenID beneficiary =
     gbind (fetch_asset assetID) (\<lambda>r.
     gbind (read_asset r) (\<lambda>ao.
     gthen (write_asset r (ao\<lparr>ao_Mandate := drop_allowance beneficiary tokenID (ao_Mandate ao)\<rparr>)) (updateAssetTree assetID r)))"

definition GetMandate :: "Identifier \<Rightarrow> TokenID \<Rightarrow> Identifier \<Rightarrow> (ostate, AmountWithExpiry) gom" where
  "GetMandate assetID tokenID beneficiary =
     gbind (fetch_asset assetID) (\<lambda>r.
     gbind (read_asset r) (\<lambda>ao.
     case allowance (ao_Mandate ao) beneficiary tokenID of None \<Rightarrow> gerr ErrMandateNotFound | Some a \<Rightarrow> gret a))"

section \<open>Properties and meta data\<close>

definition GetProperties :: "Identifier \<Rightarrow> (ostate, AssetDescriptor option) gom" where
  "GetProperties assetID = gbind (fetch_asset assetID) (\<lambda>r. gbind (read_asset r) (\<lambda>ao. gret (ao_Properties ao)))"

text \<open>The field of a nil pointer panics.\<close>

definition deref :: "'a option \<Rightarrow> ('s, 'a) gom" where
  "deref p = (case p of None \<Rightarrow> gpanic | Some x \<Rightarrow> gret x)"

text \<open>The deferred \<^verbatim>\<open>updateAssetTree\<close> also runs when the key exists.\<close>

definition SetAssetMetadata :: "Identifier \<Rightarrow> bool \<Rightarrow> string \<Rightarrow> u8 list \<Rightarrow> (ostate, unit) gom" where
  "SetAssetMetadata assetID isStatic key val =
     gbind (fetch_asset assetID) (\<lambda>r.
     gbind (read_asset r) (\<lambda>ao.
     if isStatic
     then gbind (deref (updateStaticMetadata key val ao)) (\<lambda>(e, ao').
       gthen (write_asset r ao') (gthen (updateAssetTree assetID r) (gcheck e)))
     else gbind (deref (updateDynamicMetadata key val ao)) (\<lambda>ao'.
       gthen (write_asset r ao') (updateAssetTree assetID r))))"

definition GetAssetMetadata :: "Identifier \<Rightarrow> bool \<Rightarrow> string \<Rightarrow> (ostate, u8 list) gom" where
  "GetAssetMetadata assetID isStatic key =
     gbind (GetProperties assetID) (\<lambda>p.
     gbind (deref p) (\<lambda>properties.
     case (if isStatic then ad_StaticMetaData properties key else ad_DynamicMetaData properties key) of
       None \<Rightarrow> gerr ErrKeyNotFound | Some val \<Rightarrow> gret val))"

definition updateStaticTokenMetaData :: "nat \<Rightarrow> string \<Rightarrow> u8 list \<Rightarrow> (ostate, state_error option) gom" where
  "updateStaticTokenMetaData m key val = (\<lambda>(mem, ob).
     let md = mem_meta mem m in
     if Option.bind (md_static md) (\<lambda>f. f key) \<noteq> None then Some (Inr (Some ErrKeyExists), mem, ob)
     else gbind (deref (md_static md)) (\<lambda>f. gthen (write_meta m (md\<lparr>md_static := Some (f(key \<mapsto> val))\<rparr>)) (gret None)) (mem, ob))"

definition updateDynamicTokenMetaData :: "nat \<Rightarrow> string \<Rightarrow> u8 list \<Rightarrow> (ostate, state_error option) gom" where
  "updateDynamicTokenMetaData m key val = (\<lambda>(mem, ob).
     let md = mem_meta mem m in
     gbind (deref (md_dynamic md)) (\<lambda>f. gthen (write_meta m (md\<lparr>md_dynamic := Some (f(key \<mapsto> val))\<rparr>)) (gret None)) (mem, ob))"

definition SetTokenMetadata :: "Identifier \<Rightarrow> TokenID \<Rightarrow> bool \<Rightarrow> string \<Rightarrow> u8 list \<Rightarrow> (ostate, unit) gom" where
  "SetTokenMetadata assetID tokenID isStatic key val =
     gbind (fetch_asset assetID) (\<lambda>r.
     gbind (read_asset r) (\<lambda>ao.
     gthen (gguard (hasTokenID tokenID ao) ErrTokenNotFound)
     (gbind (case Option.bind (ao_TokenMetaData ao) (\<lambda>ms. map_of ms tokenID) of
           Some m \<Rightarrow> gret m
         | None \<Rightarrow> gbind (deref (ao_TokenMetaData ao)) (\<lambda>ms.
             gbind (new_meta \<lparr>md_static = Some Map.empty, md_dynamic = Some Map.empty\<rparr>) (\<lambda>m.
             gthen (write_asset r (ao\<lparr>ao_TokenMetaData := Some (AList.update tokenID (Some m) ms)\<rparr>)) (gret (Some m))))) (\<lambda>p.
     gbind (deref p) (\<lambda>m.
     gbind (if isStatic then updateStaticTokenMetaData m key val else updateDynamicTokenMetaData m key val) (\<lambda>e.
     gthen (updateAssetTree assetID r) (gcheck e)))))))"

definition GetTokenMetadata :: "Identifier \<Rightarrow> TokenID \<Rightarrow> bool \<Rightarrow> string \<Rightarrow> (ostate, u8 list) gom" where
  "GetTokenMetadata assetID tokenID isStatic key =
     gbind (fetch_asset assetID) (\<lambda>r.
     gbind (read_asset r) (\<lambda>ao.
     case Option.bind (ao_TokenMetaData ao) (\<lambda>ms. map_of ms tokenID) of
       None \<Rightarrow> gerr ErrTokenNotFound
     | Some p \<Rightarrow> gbind (deref p) (\<lambda>m. \<lambda>(mem, ob).
         case Option.bind (if isStatic then md_static (mem_meta mem m) else md_dynamic (mem_meta mem m)) (\<lambda>f. f key) of
           None \<Rightarrow> Some (Inl ErrKeyNotFound, mem, ob)
         | Some val \<Rightarrow> Some (Inr val, mem, ob))))"

section \<open>Supply\<close>

definition CreateAsset :: "Identifier \<Rightarrow> AssetDescriptor \<Rightarrow> (ostate, unit) gom" where
  "CreateAsset ident descriptor =
     gbind (new_asset (NewAssetObject (Some descriptor))) (InsertNewAssetObject (ad_AssetID descriptor))"

text \<open>\<^verbatim>\<open>MintAsset\<close> changes the object in place and does not enter it in the transaction.\<close>

definition MintAsset :: "Identifier \<Rightarrow> int \<Rightarrow> (ostate, int) gom" where
  "MintAsset assetID amount =
     gbind (fetch_asset assetID) (\<lambda>r.
     gbind (read_asset r) (\<lambda>ao.
     gbind (deref (ao_Properties ao)) (\<lambda>p.
     let supply = ad_CirculatingSupply p + amount in
     gthen (write_asset r (ao\<lparr>ao_Properties := Some (p\<lparr>ad_CirculatingSupply := supply\<rparr>)\<rparr>)) (gret supply))))"

definition BurnAsset :: "Identifier \<Rightarrow> int \<Rightarrow> (ostate, int) gom" where
  "BurnAsset assetID amount =
     gbind (fetch_asset assetID) (\<lambda>r.
     gbind (read_asset r) (\<lambda>ao.
     gbind (deref (ao_Properties ao)) (\<lambda>p.
     let supply = ad_CirculatingSupply p - amount in
     gthen (write_asset r (ao\<lparr>ao_Properties := Some (p\<lparr>ad_CirculatingSupply := supply\<rparr>)\<rparr>))
       (gthen (updateAssetTree assetID r) (gret supply)))))"

section \<open>Deeds, storage and registration\<close>

definition CreateDeedsEntry :: "Identifier \<Rightarrow> (ostate, unit) gom" where
  "CreateDeedsEntry key = (\<lambda>(mem, ob). case ob_deeds ob of
     Inl e \<Rightarrow> Some (Inl e, mem, ob)
   | Inr entries \<Rightarrow> if key \<in> entries then Some (Inl ErrAssetAlreadyRegistered, mem, ob)
       else Some (Inr (), mem, ob\<lparr>ob_deeds := Inr (insert key entries)\<rparr>))"

definition createStorageTreeForLogic :: "Identifier \<Rightarrow> (ostate, unit) gom" where
  "createStorageTreeForLogic logicID = (\<lambda>(mem, ob). case ob_newTree ob logicID of
     Inl e \<Rightarrow> Some (Inl e, mem, ob)
   | Inr (tree, e) \<Rightarrow> gcheck e (mem, ob\<lparr>ob_storageTrees := (ob_storageTrees ob)(logicID := Inr tree)\<rparr>))"

text \<open>A value of length zero deletes the pending entry.\<close>

definition put_entry :: "Identifier \<Rightarrow> u8 list \<Rightarrow> u8 list \<Rightarrow> (ostate, unit) gom" where
  "put_entry logicID key val = (\<lambda>(mem, ob). case ob_storageTreeTxns ob logicID of
     None \<Rightarrow> None
   | Some txn \<Rightarrow> Some (Inr (), mem, ob\<lparr>ob_storageTreeTxns :=
       (ob_storageTreeTxns ob)(logicID \<mapsto> (if val = [] then txn(key := None) else txn(key \<mapsto> val)))\<rparr>))"

definition open_txn :: "Identifier \<Rightarrow> (ostate, unit) gom" where
  "open_txn logicID = (\<lambda>(mem, ob).
     Some (Inr (), mem, ob\<lparr>ob_storageTreeTxns := (ob_storageTreeTxns ob)(logicID \<mapsto> Map.empty)\<rparr>))"

definition SetStorageEntry :: "Identifier \<Rightarrow> u8 list \<Rightarrow> u8 list \<Rightarrow> (ostate, unit) gom" where
  "SetStorageEntry logicID key val = (\<lambda>(mem, ob).
     gthen (case ob_storageTreeTxns ob logicID of
         Some _ \<Rightarrow> gret ()
       | None \<Rightarrow> gthen (case ob_storageTrees ob logicID of
             Inr _ \<Rightarrow> gret ()
           | Inl ErrLogicStorageTreeNotFound \<Rightarrow> createStorageTreeForLogic logicID
           | Inl e \<Rightarrow> gerr e) (open_txn logicID))
     (put_entry logicID key val) (mem, ob))"

definition GetStorageEntry :: "Identifier \<Rightarrow> u8 list \<Rightarrow> (ostate, u8 list) gom" where
  "GetStorageEntry logicID key = (\<lambda>(mem, ob).
     case Option.bind (ob_storageTreeTxns ob logicID) (\<lambda>txn. txn key) of
       Some v \<Rightarrow> Some (Inr v, mem, ob)
     | None \<Rightarrow> (case ob_storageTrees ob logicID of
           Inl e \<Rightarrow> Some (Inl e, mem, ob)
         | Inr tree \<Rightarrow> Some (tree key, mem, ob)))"

text \<open>\<^verbatim>\<open>common.SargaLogicID\<close> and \<^verbatim>\<open>common.SargaAccountID\<close> are the same identifier.\<close>

definition AddAccountGenesisInfo ::
  "(u8 list \<Rightarrow> Hash) \<Rightarrow> (Hash \<Rightarrow> state_error + u8 list) \<Rightarrow> Identifier \<Rightarrow> Hash \<Rightarrow> (ostate, unit) gom" where
  "AddAccountGenesisInfo GetHash encodeGenesis ident ixHash = (case encodeGenesis ixHash of
     Inl e \<Rightarrow> gerr e
   | Inr rawData \<Rightarrow> SetStorageEntry (SargaAccountID GetHash) ident rawData)"

definition IsAccountRegistered :: "(u8 list \<Rightarrow> Hash) \<Rightarrow> Identifier \<Rightarrow> (ostate, bool) gom" where
  "IsAccountRegistered GetHash ident =
     gcatch (gthen (GetStorageEntry (SargaAccountID GetHash) ident) (gret True))
       (\<lambda>e. if e = ErrKeyNotFound then gret False else gerr e)"

section \<open>Fuel\<close>

definition HasSufficientFuel :: "(u8 list \<Rightarrow> Hash) \<Rightarrow> int \<Rightarrow> (ostate, bool) gom" where
  "HasSufficientFuel GetHash amount =
     gthen (gguard (\<not> amount < 0) (ErrState ''invalid transfer amount''))
     (gbind (BalanceOf (KMOITokenAssetID GetHash) 0) (\<lambda>balance. gret (\<not> balance < amount)))"

definition DeductFuel :: "(u8 list \<Rightarrow> Hash) \<Rightarrow> int \<Rightarrow> (ostate, unit) gom" where
  "DeductFuel GetHash amount =
     gcatch (gthen (SubBalance (KMOITokenAssetID GetHash) 0 amount) (gret ())) (\<lambda>_. gret ())"

end
