(* ===== verification/Asset_Engine.thy ===== *)
theory Asset_Engine
  imports Asset_State
begin

text \<open>
  The asset engine of src/compute/asset_engine.go with the checks and operations of
  src/compute/ixasset.go, over the transition of src/state/transition.go: the accounts an execution
  works on. The clock, the hash function and the codec of the genesis information of an account are
  parameters.
\<close>

section \<open>Transitions\<close>

record Transition =
  tr_mem :: Memory
  tr_objects :: "Identifier \<rightharpoonup> Object"
  tr_systemObject :: "Object option"
  tr_auxiliaryObjects :: "Identifier \<rightharpoonup> Object"

record AssetEnv =
  ae_GetHash :: "u8 list \<Rightarrow> Hash"
  ae_now :: u64
  ae_genesisBytes :: "Hash \<Rightarrow> state_error + u8 list"

text \<open>A pointer to an account of a transition.\<close>

datatype ObjectPtr = InObjects Identifier | InAuxiliary Identifier

definition tr_GetObject :: "Identifier \<Rightarrow> (Transition, ObjectPtr) gom" where
  "tr_GetObject ident = (\<lambda>tr. case tr_objects tr ident of
     None \<Rightarrow> Some (Inl ErrObjectNotFound, tr) | Some _ \<Rightarrow> Some (Inr (InObjects ident), tr))"

definition GetAuxiliaryObject :: "Identifier \<Rightarrow> (Transition, ObjectPtr) gom" where
  "GetAuxiliaryObject ident = (\<lambda>tr. case tr_auxiliaryObjects tr ident of
     None \<Rightarrow> Some (Inl (ErrState ''object not found''), tr) | Some _ \<Rightarrow> Some (Inr (InAuxiliary ident), tr))"

text \<open>\<^verbatim>\<open>Object.Copy\<close> copies the transaction, not the asset objects it points to: in this model the copy of
  an account is the account. A snapshot has no auxiliary accounts; it shares the memory.\<close>

definition Snapshot :: "Transition \<Rightarrow> Transition" where
  "Snapshot tr = tr\<lparr>tr_auxiliaryObjects := Map.empty\<rparr>"

definition UpdateSnapshot :: "Transition \<Rightarrow> Transition \<Rightarrow> Transition" where
  "UpdateSnapshot snap tr = tr\<lparr>tr_objects := tr_objects snap, tr_systemObject := tr_systemObject snap\<rparr>"

definition on_object :: "ObjectPtr \<Rightarrow> (ostate, 'a) gom \<Rightarrow> (Transition, 'a) gom" where
  "on_object ptr m = (\<lambda>tr. case ptr of
     InObjects ident \<Rightarrow> (case tr_objects tr ident of
         None \<Rightarrow> None
       | Some ob \<Rightarrow> map_option (\<lambda>(res, mem, ob'). (res, tr\<lparr>tr_mem := mem, tr_objects := (tr_objects tr)(ident \<mapsto> ob')\<rparr>))
           (m (tr_mem tr, ob)))
   | InAuxiliary ident \<Rightarrow> (case tr_auxiliaryObjects tr ident of
         None \<Rightarrow> None
       | Some ob \<Rightarrow> map_option (\<lambda>(res, mem, ob'). (res, tr\<lparr>tr_mem := mem, tr_auxiliaryObjects := (tr_auxiliaryObjects tr)(ident \<mapsto> ob')\<rparr>))
           (m (tr_mem tr, ob))))"

definition Object_Identifier :: "ObjectPtr \<Rightarrow> (Transition, Identifier) gom" where
  "Object_Identifier ptr = on_object ptr (\<lambda>(mem, ob). Some (Inr (ob_id ob), mem, ob))"

definition tr_IsGenesis :: "Identifier \<Rightarrow> (Transition, bool) gom" where
  "tr_IsGenesis ident = (\<lambda>tr. case tr_systemObject tr of
     Some sys \<Rightarrow> if ob_id sys = ident then Some (Inr (ob_isGenesis sys), tr)
       else map_option (\<lambda>ob. (Inr (ob_isGenesis ob), tr)) (tr_objects tr ident)
   | None \<Rightarrow> map_option (\<lambda>ob. (Inr (ob_isGenesis ob), tr)) (tr_objects tr ident))"

text \<open>The variadic \<^verbatim>\<open>ids\<close> is a list.\<close>

fun addNewAccountsToSargaAccount :: "AssetEnv \<Rightarrow> Hash \<Rightarrow> Identifier list \<Rightarrow> (Transition, unit) gom" where
  "addNewAccountsToSargaAccount env ixHash [] = gret ()"
| "addNewAccountsToSargaAccount env ixHash (ident # ids) =
     gbind (tr_IsGenesis ident) (\<lambda>genesis.
     if \<not> genesis then addNewAccountsToSargaAccount env ixHash ids
     else gbind (gcatch (tr_GetObject (SargaAccountID (ae_GetHash env))) (\<lambda>_. gerr (ErrState ''sarga object not found''))) (\<lambda>sarga.
       gbind (on_object sarga (IsAccountRegistered (ae_GetHash env) ident)) (\<lambda>registered.
       if registered then gerr ErrAccountAlreadyRegistered
       else gthen (on_object sarga (AddAccountGenesisInfo (ae_GetHash env) (ae_genesisBytes env) ident ixHash))
         (addNewAccountsToSargaAccount env ixHash ids))))"

section \<open>Access\<close>

type_synonym Access = "Identifier \<rightharpoonup> int"

definition hasReadAccess :: "Access \<Rightarrow> Identifier list \<Rightarrow> bool" where
  "hasReadAccess access ids \<longleftrightarrow>
     list_all (\<lambda>ident. case access ident of None \<Rightarrow> False | Some a \<Rightarrow> \<not> a > int (lock_number ReadLock)) ids"

definition hasMutateAccess :: "Access \<Rightarrow> Identifier list \<Rightarrow> bool" where
  "hasMutateAccess access ids \<longleftrightarrow>
     list_all (\<lambda>ident. case access ident of None \<Rightarrow> False | Some a \<Rightarrow> a = int (lock_number MutateLock)) ids"

section \<open>Checks and operations\<close>

text \<open>The asset object that a check reads, with \<^verbatim>\<open>ErrAssetNotFound\<close> for an error.\<close>

definition fetched :: "ObjectPtr \<Rightarrow> Identifier \<Rightarrow> (Transition, nat AssetObject) gom" where
  "fetched ptr assetID = on_object ptr (gbind (fetch_asset assetID) read_asset)"

definition createAsset :: "ObjectPtr \<Rightarrow> ObjectPtr \<Rightarrow> AssetDescriptor \<Rightarrow> (Transition, Identifier) gom" where
  "createAsset sender assetacc descriptor =
     gbind (Object_Identifier assetacc) (\<lambda>ident.
     gthen (on_object assetacc (CreateAsset ident descriptor))
     (gthen (on_object sender (CreateDeedsEntry (ad_AssetID descriptor))) (gret (ad_AssetID descriptor))))"

definition validateAssetTransfer ::
  "AssetEnv \<Rightarrow> ObjectPtr \<Rightarrow> ObjectPtr \<Rightarrow> ObjectPtr \<Rightarrow> Identifier \<Rightarrow> TokenID \<Rightarrow> int \<Rightarrow> Access \<Rightarrow> (Transition, unit) gom" where
  "validateAssetTransfer env benefactor beneficiary sarga assetID tokenID amount access =
     gthen (gguard (\<not> amount < 1) ErrInvalidAmount)
     (gbind (Object_Identifier benefactor) (\<lambda>b. gbind (Object_Identifier beneficiary) (\<lambda>c.
     gthen (gguard (hasMutateAccess access [b, c]) ErrInvalidAccess)
     (gbind (gcatch (on_object sarga (IsAccountRegistered (ae_GetHash env) c)) (\<lambda>_. gret False)) (\<lambda>ok.
     gthen (gguard ok ErrBeneficiaryNotRegistered)
     (gbind (fetched benefactor assetID) (\<lambda>ao. gcheck (HasBalance tokenID amount ao))))))))"

definition transferAsset :: "ObjectPtr \<Rightarrow> ObjectPtr \<Rightarrow> Identifier \<Rightarrow> TokenID \<Rightarrow> int \<Rightarrow> (Transition, unit) gom" where
  "transferAsset sender target assetID tokenID amount =
     gbind (on_object sender (SubBalance assetID tokenID amount)) (\<lambda>metadata.
     on_object target (AddBalance assetID tokenID amount metadata))"

definition validateAssetConsume ::
  "AssetEnv \<Rightarrow> Identifier \<Rightarrow> ObjectPtr \<Rightarrow> ObjectPtr \<Rightarrow> ObjectPtr \<Rightarrow> Identifier \<Rightarrow> TokenID \<Rightarrow> int \<Rightarrow> Access \<Rightarrow> (Transition, unit) gom" where
  "validateAssetConsume env operatorID beneficiary benefactor sarga assetID tokenID amount access =
     gbind (Object_Identifier beneficiary) (\<lambda>c. gbind (Object_Identifier benefactor) (\<lambda>b.
     gthen (gcatch (gthen (on_object sarga (GetStorageEntry (SargaAccountID (ae_GetHash env)) c)) (gret ()))
              (\<lambda>_. gerr ErrBeneficiaryNotRegistered))
     (gthen (gguard (hasMutateAccess access [c, b]) ErrInvalidAccess)
     (gbind (fetched benefactor assetID) (\<lambda>ao.
     gthen (gcheck (HasBalance tokenID amount ao))
     (case allowance (ao_Mandate ao) operatorID tokenID of
        None \<Rightarrow> gerr ErrMandateNotFound
      | Some mandate \<Rightarrow>
          gthen (gguard (\<not> aw_ExpiresAt mandate < ae_now env) ErrMandateExpired)
            (gguard (\<not> aw_Amount mandate < amount) ErrInsufficientFunds)))))))"

definition consumeMandate ::
  "Identifier \<Rightarrow> ObjectPtr \<Rightarrow> ObjectPtr \<Rightarrow> Identifier \<Rightarrow> TokenID \<Rightarrow> int \<Rightarrow> (Transition, unit) gom" where
  "consumeMandate operatorID benefactor beneficiary assetID tokenID amount =
     gbind (on_object benefactor (ConsumeMandate assetID tokenID operatorID amount)) (\<lambda>metadata.
     on_object beneficiary (AddBalance assetID tokenID amount metadata))"

definition validateAssetApprove :: "ObjectPtr \<Rightarrow> Identifier \<Rightarrow> TokenID \<Rightarrow> int \<Rightarrow> Access \<Rightarrow> (Transition, unit) gom" where
  "validateAssetApprove sender assetID tokenID amount access =
     gbind (Object_Identifier sender) (\<lambda>s.
     gthen (gguard (hasMutateAccess access [s]) ErrInvalidAccess)
     (gthen (gguard (\<not> amount < 1) ErrInvalidAmount)
     (gbind (fetched sender assetID) (\<lambda>ao. gcheck (HasBalance tokenID amount ao)))))"

definition validateAssetRevoke :: "ObjectPtr \<Rightarrow> Identifier \<Rightarrow> Identifier \<Rightarrow> TokenID \<Rightarrow> Access \<Rightarrow> (Transition, unit) gom" where
  "validateAssetRevoke benefactor beneficiary assetID tokenID access =
     gbind (Object_Identifier benefactor) (\<lambda>b.
     gthen (gguard (hasMutateAccess access [b]) ErrInvalidAccess)
     (gthen (on_object benefactor (GetMandate assetID tokenID beneficiary)) (gret ())))"

definition revokeAsset :: "ObjectPtr \<Rightarrow> Identifier \<Rightarrow> Identifier \<Rightarrow> TokenID \<Rightarrow> (Transition, unit) gom" where
  "revokeAsset benefactor beneficiary assetID tokenID = on_object benefactor (DeleteMandate assetID tokenID beneficiary)"

definition validateAssetMint ::
  "Identifier \<Rightarrow> Identifier \<Rightarrow> ObjectPtr \<Rightarrow> Identifier \<Rightarrow> int \<Rightarrow> Access \<Rightarrow> (Transition, unit) gom" where
  "validateAssetMint senderID beneficiaryID assetacc assetID amount access =
     gthen (gguard (hasMutateAccess access [assetID, beneficiaryID]) ErrInvalidAccess)
     (gbind (on_object assetacc (GetProperties assetID)) (\<lambda>p.
     gthen (gguard (\<not> amount < 1) ErrInvalidAmount)
     (gbind (deref p) (\<lambda>assetInfo.
     gthen (gguard (senderID = ad_Manager assetInfo) ErrManagerMismatch)
       (gguard (\<not> ad_CirculatingSupply assetInfo + amount > ad_MaxSupply assetInfo) ErrMaxSupplyReached)))))"

definition mintAsset :: "ObjectPtr \<Rightarrow> ObjectPtr \<Rightarrow> Identifier \<Rightarrow> TokenID \<Rightarrow> int \<Rightarrow> (Transition, unit) gom" where
  "mintAsset beneficiary assetacc assetID tokenID amount =
     gthen (on_object assetacc (MintAsset assetID amount)) (on_object beneficiary (AddBalance assetID tokenID amount None))"

definition validateAssetBurn ::
  "ObjectPtr \<Rightarrow> ObjectPtr \<Rightarrow> Identifier \<Rightarrow> TokenID \<Rightarrow> int \<Rightarrow> Access \<Rightarrow> (Transition, unit) gom" where
  "validateAssetBurn benefactor assetacc assetID tokenID amount access =
     gbind (Object_Identifier benefactor) (\<lambda>b.
     gthen (gguard (hasMutateAccess access [assetID, b]) ErrInvalidAccess)
     (gbind (on_object assetacc (GetProperties assetID)) (\<lambda>p.
     gbind (deref p) (\<lambda>assetInfo.
     gthen (gguard (ad_Manager assetInfo = b) ErrManagerMismatch)
     (gbind (fetched benefactor assetID) (\<lambda>ao.
     case map_of (ao_Balance ao) tokenID of
       None \<Rightarrow> gerr ErrTokenNotFound
     | Some bal \<Rightarrow> gthen (gguard (\<not> amount < 1) ErrInvalidAmount) (gguard (\<not> bal < amount) ErrInsufficientFunds)))))))"

definition burnAsset :: "ObjectPtr \<Rightarrow> ObjectPtr \<Rightarrow> Identifier \<Rightarrow> TokenID \<Rightarrow> int \<Rightarrow> (Transition, unit) gom" where
  "burnAsset benefactor assetacc assetID tokenID amount =
     gthen (on_object benefactor (SubBalance assetID tokenID amount))
     (gthen (on_object assetacc (BurnAsset assetID amount)) (gret ()))"

definition validateAssetLockup :: "ObjectPtr \<Rightarrow> Identifier \<Rightarrow> Identifier \<Rightarrow> TokenID \<Rightarrow> int \<Rightarrow> Access \<Rightarrow> (Transition, unit) gom" where
  "validateAssetLockup benefactor beneficiaryID assetID tokenID amount access =
     gbind (Object_Identifier benefactor) (\<lambda>b.
     gthen (gguard (hasMutateAccess access [b]) ErrInvalidAccess)
     (gthen (gguard (\<not> id_IsNil beneficiaryID) ErrInvalidBeneficiary)
     (gthen (gguard (\<not> amount < 1) ErrInvalidAmount)
     (gbind (fetched benefactor assetID) (\<lambda>ao. gcheck (HasBalance tokenID amount ao))))))"

definition lockupAsset :: "ObjectPtr \<Rightarrow> Identifier \<Rightarrow> Identifier \<Rightarrow> TokenID \<Rightarrow> int \<Rightarrow> (Transition, unit) gom" where
  "lockupAsset benefactor beneficiary assetID tokenID amount = on_object benefactor (CreateLockup assetID tokenID beneficiary amount)"

definition validateAssetRelease ::
  "Identifier \<Rightarrow> ObjectPtr \<Rightarrow> Identifier \<Rightarrow> Identifier \<Rightarrow> TokenID \<Rightarrow> int \<Rightarrow> Access \<Rightarrow> (Transition, unit) gom" where
  "validateAssetRelease operatorID benefactor beneficiaryID assetID tokenID amount access =
     gbind (Object_Identifier benefactor) (\<lambda>b.
     gthen (gguard (hasMutateAccess access [b, beneficiaryID]) ErrInvalidAccess)
     (gbind (gcatch (on_object benefactor (GetLockup assetID tokenID operatorID)) (\<lambda>_. gerr ErrLockupNotFound)) (\<lambda>lockup.
     gguard (\<not> aw_Amount lockup < amount) ErrInsufficientFunds)))"

definition releaseAsset ::
  "Identifier \<Rightarrow> ObjectPtr \<Rightarrow> ObjectPtr \<Rightarrow> Identifier \<Rightarrow> TokenID \<Rightarrow> int \<Rightarrow> (Transition, unit) gom" where
  "releaseAsset operatorID benefactor beneficiary assetID tokenID amount =
     gbind (on_object benefactor (ReleaseLockup assetID tokenID operatorID amount)) (\<lambda>metadata.
     on_object beneficiary (AddBalance assetID tokenID amount metadata))"

text \<open>\<^verbatim>\<open>validateSetStaticMetaData\<close> and \<^verbatim>\<open>validateSetDynamicMetaData\<close> are the same code, and so are the two
  checks for the meta data of a token.\<close>

definition validateSetMetaData :: "ObjectPtr \<Rightarrow> Identifier \<Rightarrow> Identifier \<Rightarrow> Access \<Rightarrow> (Transition, unit) gom" where
  "validateSetMetaData assetObject assetID participantID access =
     gthen (gguard (hasMutateAccess access [assetID]) ErrInvalidAccess)
     (gbind (on_object assetObject (GetProperties assetID)) (\<lambda>p.
     gbind (deref p) (\<lambda>properties. gguard (ad_Manager properties = participantID) ErrManagerMismatch)))"

definition validateSetTokenMetaData :: "Identifier \<Rightarrow> Access \<Rightarrow> (Transition, unit) gom" where
  "validateSetTokenMetaData participantID access = gguard (hasMutateAccess access [participantID]) ErrInvalidAccess"

section \<open>The engine: reading\<close>

definition engine_BalanceOf :: "Identifier \<Rightarrow> Identifier \<Rightarrow> TokenID \<Rightarrow> Access \<Rightarrow> (Transition, int) gom" where
  "engine_BalanceOf address assetID tokenID access =
     gthen (gguard (hasReadAccess access [address]) ErrInvalidAccess)
     (gbind (tr_GetObject address) (\<lambda>object. on_object object (BalanceOf assetID tokenID)))"

text \<open>A field of the properties in the asset account.\<close>

definition property :: "(AssetDescriptor \<Rightarrow> 'a) \<Rightarrow> Identifier \<Rightarrow> (Transition, 'a) gom" where
  "property field assetID =
     gbind (tr_GetObject assetID) (\<lambda>object. gbind (on_object object (GetProperties assetID)) (\<lambda>p.
     gbind (deref p) (\<lambda>properties. gret (field properties))))"

definition engine_Symbol :: "Identifier \<Rightarrow> Access \<Rightarrow> (Transition, string) gom" where
  "engine_Symbol assetID access = property ad_Symbol assetID"

definition engine_Creator :: "Identifier \<Rightarrow> Access \<Rightarrow> (Transition, Identifier) gom" where
  "engine_Creator assetID access = property ad_Creator assetID"

definition engine_Manager :: "Identifier \<Rightarrow> Access \<Rightarrow> (Transition, Identifier) gom" where
  "engine_Manager assetID access =
     gthen (gguard (hasReadAccess access [assetID]) ErrInvalidAccess) (property ad_Manager assetID)"

definition engine_Decimals :: "Identifier \<Rightarrow> Access \<Rightarrow> (Transition, u8) gom" where
  "engine_Decimals assetID access = property ad_Decimals assetID"

definition engine_MaxSupply :: "Identifier \<Rightarrow> Access \<Rightarrow> (Transition, int) gom" where
  "engine_MaxSupply assetID access =
     gthen (gguard (hasReadAccess access [assetID]) ErrInvalidAccess) (property ad_MaxSupply assetID)"

definition engine_CirculatingSupply :: "Identifier \<Rightarrow> Access \<Rightarrow> (Transition, int) gom" where
  "engine_CirculatingSupply assetID access =
     gthen (gguard (hasReadAccess access [assetID]) ErrInvalidAccess) (property ad_CirculatingSupply assetID)"

definition engine_LogicID :: "Identifier \<Rightarrow> Access \<Rightarrow> (Transition, Identifier) gom" where
  "engine_LogicID assetID access = property ad_LogicID assetID"

definition engine_EnableEvents :: "Identifier \<Rightarrow> Access \<Rightarrow> (Transition, bool) gom" where
  "engine_EnableEvents assetID access = property ad_EnableEvents assetID"

section \<open>The engine: meta data\<close>

definition SetStaticMetaData :: "Identifier \<Rightarrow> Identifier \<Rightarrow> string \<Rightarrow> u8 list \<Rightarrow> Access \<Rightarrow> (Transition, unit) gom" where
  "SetStaticMetaData assetID participantID key val access =
     gbind (tr_GetObject assetID) (\<lambda>object.
     gthen (validateSetMetaData object assetID participantID access) (on_object object (SetAssetMetadata assetID True key val)))"

definition SetDynamicMetaData :: "Identifier \<Rightarrow> Identifier \<Rightarrow> string \<Rightarrow> u8 list \<Rightarrow> Access \<Rightarrow> (Transition, unit) gom" where
  "SetDynamicMetaData assetID participantID key val access =
     gbind (tr_GetObject assetID) (\<lambda>object.
     gthen (validateSetMetaData object assetID participantID access) (on_object object (SetAssetMetadata assetID False key val)))"

definition GetStaticMetaData :: "Identifier \<Rightarrow> string \<Rightarrow> Access \<Rightarrow> (Transition, u8 list) gom" where
  "GetStaticMetaData assetID key access =
     gthen (gguard (hasReadAccess access [assetID]) ErrInvalidAccess)
     (gbind (tr_GetObject assetID) (\<lambda>object. on_object object (GetAssetMetadata assetID True key)))"

definition GetDynamicMetaData :: "Identifier \<Rightarrow> string \<Rightarrow> Access \<Rightarrow> (Transition, u8 list) gom" where
  "GetDynamicMetaData assetID key access =
     gthen (gguard (hasReadAccess access [assetID]) ErrInvalidAccess)
     (gbind (tr_GetObject assetID) (\<lambda>object. on_object object (GetAssetMetadata assetID False key)))"

definition SetStaticTokenMetaData ::
  "Identifier \<Rightarrow> Identifier \<Rightarrow> TokenID \<Rightarrow> string \<Rightarrow> u8 list \<Rightarrow> Access \<Rightarrow> (Transition, unit) gom" where
  "SetStaticTokenMetaData assetID participantID tokenID key val access =
     gthen (validateSetTokenMetaData participantID access)
     (gbind (tr_GetObject participantID) (\<lambda>participant. on_object participant (SetTokenMetadata assetID tokenID True key val)))"

definition SetDynamicTokenMetaData ::
  "Identifier \<Rightarrow> Identifier \<Rightarrow> TokenID \<Rightarrow> string \<Rightarrow> u8 list \<Rightarrow> Access \<Rightarrow> (Transition, unit) gom" where
  "SetDynamicTokenMetaData assetID participantID tokenID key val access =
     gthen (validateSetTokenMetaData participantID access)
     (gbind (tr_GetObject participantID) (\<lambda>participant. on_object participant (SetTokenMetadata assetID tokenID False key val)))"

definition GetStaticTokenMetaData ::
  "Identifier \<Rightarrow> Identifier \<Rightarrow> TokenID \<Rightarrow> string \<Rightarrow> Access \<Rightarrow> (Transition, u8 list) gom" where
  "GetStaticTokenMetaData assetID participantID tokenID key access =
     gthen (gguard (hasReadAccess access [participantID]) ErrInvalidAccess)
     (gbind (tr_GetObject participantID) (\<lambda>participant. on_object participant (GetTokenMetadata assetID tokenID True key)))"

definition GetDynamicTokenMetaData ::
  "Identifier \<Rightarrow> Identifier \<Rightarrow> TokenID \<Rightarrow> string \<Rightarrow> Access \<Rightarrow> (Transition, u8 list) gom" where
  "GetDynamicTokenMetaData assetID participantID tokenID key access =
     gthen (gguard (hasReadAccess access [participantID]) ErrInvalidAccess)
     (gbind (tr_GetObject participantID) (\<lambda>participant. on_object participant (GetTokenMetadata assetID tokenID False key)))"

section \<open>The engine: operations\<close>

text \<open>An operation returns the fuel also with an error. Every cost of src/compute/fuelparams.go is 100.\<close>

abbreviation (input) FuelAsset :: u64 where "FuelAsset \<equiv> 100"

type_synonym fuelled = "Transition \<Rightarrow> ((u64 \<times> state_error option) \<times> Transition) option"

definition with_fuel :: "u64 \<Rightarrow> (Transition, u64) gom \<Rightarrow> fuelled" where
  "with_fuel fuel m = (\<lambda>tr. case m tr of
     None \<Rightarrow> None
   | Some (Inl e, tr') \<Rightarrow> Some ((fuel, Some e), tr')
   | Some (Inr used, tr') \<Rightarrow> Some ((used, None), tr'))"

definition engine_CreateAsset ::
  "AssetEnv \<Rightarrow> Hash \<Rightarrow> Identifier \<Rightarrow> string \<Rightarrow> u8 \<Rightarrow> u8 \<Rightarrow> Identifier \<Rightarrow> Identifier \<Rightarrow> int \<Rightarrow> (string \<rightharpoonup> u8 list) \<Rightarrow> (string \<rightharpoonup> u8 list)
    \<Rightarrow> bool \<Rightarrow> Identifier \<Rightarrow> Access \<Rightarrow> fuelled" where
  "engine_CreateAsset env ixHash assetID symbol decimals dimension manager creator maxSupply staticMetadata dynamicMetadata
     enableEvents logicID access = with_fuel FuelAsset
     (gbind (tr_GetObject creator) (\<lambda>sender. gbind (tr_GetObject assetID) (\<lambda>assetacc.
      gthen (createAsset sender assetacc (NewAssetDescriptor assetID symbol decimals dimension manager creator maxSupply
               staticMetadata dynamicMetadata enableEvents logicID))
      (gbind (Object_Identifier assetacc) (\<lambda>ident.
      gthen (addNewAccountsToSargaAccount env ixHash [ident]) (gret FuelAsset))))))"

definition engine_Transfer ::
  "AssetEnv \<Rightarrow> Identifier \<Rightarrow> TokenID \<Rightarrow> Identifier \<Rightarrow> Identifier \<Rightarrow> Identifier \<Rightarrow> int \<Rightarrow> Access \<Rightarrow> fuelled" where
  "engine_Transfer env assetID tokenID operatorID benefactorID beneficiaryID amount access = with_fuel FuelAsset
     (gbind (tr_GetObject operatorID) (\<lambda>operator. gbind (tr_GetObject beneficiaryID) (\<lambda>beneficiary.
      gbind (gcatch (tr_GetObject (SargaAccountID (ae_GetHash env)))
               (\<lambda>_. GetAuxiliaryObject (SargaAccountID (ae_GetHash env)))) (\<lambda>sarga.
      if id_IsNil benefactorID
      then gthen (validateAssetTransfer env operator beneficiary sarga assetID tokenID amount access)
        (gthen (transferAsset operator beneficiary assetID tokenID amount) (gret FuelAsset))
      else gbind (tr_GetObject benefactorID) (\<lambda>benefactor.
        gthen (validateAssetConsume env operatorID beneficiary benefactor sarga assetID tokenID amount access)
        (gthen (consumeMandate operatorID benefactor beneficiary assetID tokenID amount) (gret FuelAsset)))))))"

text \<open>The range over \<^verbatim>\<open>staticMetadata\<close> visits its entries in some order: the argument lists them.\<close>

fun set_static_entries :: "Identifier \<Rightarrow> Identifier \<Rightarrow> TokenID \<Rightarrow> (string \<times> u8 list) list \<Rightarrow> Access \<Rightarrow> (Transition, unit) gom" where
  "set_static_entries assetID participantID tokenID [] access = gret ()"
| "set_static_entries assetID participantID tokenID ((k, v) # entries) access =
     gthen (SetStaticTokenMetaData assetID participantID tokenID k v access)
       (set_static_entries assetID participantID tokenID entries access)"

definition engine_Mint ::
  "Identifier \<Rightarrow> TokenID \<Rightarrow> Identifier \<Rightarrow> Identifier \<Rightarrow> int \<Rightarrow> (string \<times> u8 list) list \<Rightarrow> Access \<Rightarrow> fuelled" where
  "engine_Mint assetID tokenID senderID beneficiaryID amount staticMetadata access = with_fuel FuelAsset
     (gbind (tr_GetObject beneficiaryID) (\<lambda>beneficiary. gbind (tr_GetObject assetID) (\<lambda>assetacc.
      gthen (validateAssetMint senderID beneficiaryID assetacc assetID amount access)
      (gthen (mintAsset beneficiary assetacc assetID tokenID amount)
      (gthen (set_static_entries assetID beneficiaryID tokenID staticMetadata access) (gret FuelAsset))))))"

definition engine_Burn :: "Identifier \<Rightarrow> TokenID \<Rightarrow> Identifier \<Rightarrow> int \<Rightarrow> Access \<Rightarrow> fuelled" where
  "engine_Burn assetID tokenID benefactorID amount access = with_fuel FuelAsset
     (gbind (tr_GetObject benefactorID) (\<lambda>benefactor. gbind (tr_GetObject assetID) (\<lambda>assetacc.
      gthen (validateAssetBurn benefactor assetacc assetID tokenID amount access)
      (gthen (burnAsset benefactor assetacc assetID tokenID amount) (gret FuelAsset)))))"

definition engine_Approve ::
  "Identifier \<Rightarrow> TokenID \<Rightarrow> Identifier \<Rightarrow> Identifier \<Rightarrow> int \<Rightarrow> u64 \<Rightarrow> Access \<Rightarrow> fuelled" where
  "engine_Approve assetID tokenID benefactorID beneficiaryID amount expiresAt access = with_fuel FuelAsset
     (gbind (tr_GetObject benefactorID) (\<lambda>benefactor.
      gthen (validateAssetApprove benefactor assetID tokenID amount access)
      (gthen (on_object benefactor (CreateMandate assetID tokenID beneficiaryID amount expiresAt)) (gret FuelAsset))))"

definition engine_Revoke :: "Identifier \<Rightarrow> TokenID \<Rightarrow> Identifier \<Rightarrow> Identifier \<Rightarrow> Access \<Rightarrow> fuelled" where
  "engine_Revoke assetID tokenID benefactorID beneficiaryID access = with_fuel FuelAsset
     (gbind (tr_GetObject benefactorID) (\<lambda>benefactor.
      gthen (validateAssetRevoke benefactor beneficiaryID assetID tokenID access)
      (gthen (revokeAsset benefactor beneficiaryID assetID tokenID) (gret FuelAsset))))"

definition engine_Lockup :: "Identifier \<Rightarrow> TokenID \<Rightarrow> Identifier \<Rightarrow> Identifier \<Rightarrow> int \<Rightarrow> Access \<Rightarrow> fuelled" where
  "engine_Lockup assetID tokenID benefactorID beneficiaryID amount access = with_fuel FuelAsset
     (gbind (tr_GetObject benefactorID) (\<lambda>benefactor.
      gthen (validateAssetLockup benefactor beneficiaryID assetID tokenID amount access)
      (gthen (lockupAsset benefactor beneficiaryID assetID tokenID amount) (gret FuelAsset))))"

text \<open>\<^verbatim>\<open>Release\<close> charges nothing when it succeeds.\<close>

definition engine_Release ::
  "Identifier \<Rightarrow> TokenID \<Rightarrow> Identifier \<Rightarrow> Identifier \<Rightarrow> Identifier \<Rightarrow> int \<Rightarrow> Access \<Rightarrow> fuelled" where
  "engine_Release assetID tokenID operatorID benefactorID beneficiaryID amount access = with_fuel FuelAsset
     (gbind (tr_GetObject benefactorID) (\<lambda>benefactor. gbind (tr_GetObject beneficiaryID) (\<lambda>beneficiary.
      gthen (validateAssetRelease operatorID benefactor beneficiaryID assetID tokenID amount access)
      (gthen (releaseAsset operatorID benefactor beneficiary assetID tokenID amount) (gret 0)))))"

end
