(* ===== verification/Asset_Ledger.thy ===== *)
theory Asset_Ledger
  imports Asset_Engine
begin

text \<open>
  The ledger that the asset engine keeps. A cell of the ledger is what an account holds of an asset,
  with no memory, no transaction and no meta data of tokens; every operation on the asset objects of an
  account refines an operation on one cell. From this the totals follow: what the accounts of a
  transition hold of a token, free and locked, changes by what is minted and burned and by nothing else.
\<close>

section \<open>Results\<close>

lemma gbind_simps [simp]:
  "gbind (gret x) f = f x"
  "gbind (gerr e) f = gerr e"
  "gbind gpanic f = gpanic"
  by (simp_all add: gbind_def gret_def gerr_def gpanic_def)

lemma gthen_simps [simp]:
  "gthen (gret x) m = m"
  "gthen (gerr e) m = gerr e"
  "gthen gpanic m = gpanic"
  by (simp_all add: gthen_def)

lemma gpanic_run [simp]: "gpanic s = None"
  by (simp add: gpanic_def)

lemma gthen_unit [simp]: "gthen m (gret ()) = m"
  by (auto simp: fun_eq_iff gthen_def gbind_def gret_def split: option.splits sum.splits)

lemma read_then: "gbind (read_asset r) f s = f (mem_asset (fst s) r) s"
  by (cases s) (simp add: gbind_def read_asset_def)

lemma gbind_cases:
  assumes "gbind m f s = Some (res, s')"
  obtains (error) e where "m s = Some (Inl e, s')" and "res = Inl e"
        | (returns) x s1 where "m s = Some (Inr x, s1)" and "f x s1 = Some (res, s')"
  using assms by (fastforce simp: gbind_def split: option.splits prod.splits sum.splits)

lemma gthen_cases:
  assumes "gthen m n s = Some (res, s')"
  obtains (error) e where "m s = Some (Inl e, s')" and "res = Inl e"
        | (returns) x s1 where "m s = Some (Inr x, s1)" and "n s1 = Some (res, s')"
  using assms unfolding gthen_def by (rule gbind_cases)

lemma gcatch_cases:
  assumes "gcatch m h s = Some (res, s')"
  obtains (error) e s1 where "m s = Some (Inl e, s1)" and "h e s1 = Some (res, s')"
        | (returns) x where "m s = Some (Inr x, s')" and "res = Inr x"
  using assms by (fastforce simp: gcatch_def split: option.splits prod.splits sum.splits)

definition forget :: "state_error + 'a \<Rightarrow> state_error + unit" where
  "forget res = (case res of Inl e \<Rightarrow> Inl e | Inr _ \<Rightarrow> Inr ())"

lemma forget_simps [simp]: "forget (Inl e) = Inl e" "forget (Inr x) = Inr ()"
  by (simp_all add: forget_def)

lemma forget_iff [simp]: "forget r = Inl e \<longleftrightarrow> r = Inl e" "forget r = Inr u \<longleftrightarrow> (\<exists>x. r = Inr x)"
  by (cases r; simp)+

section \<open>Cells\<close>

type_synonym Cell = "unit AssetObject option"

definition strip :: "'m AssetObject \<Rightarrow> unit AssetObject" where
  "strip ao = \<lparr>ao_Balance = ao_Balance ao, ao_TokenMetaData = None, ao_Lockup = ao_Lockup ao,
     ao_Mandate = ao_Mandate ao, ao_Properties = ao_Properties ao\<rparr>"

lemma strip_fields [simp]:
  "ao_Balance (strip ao) = ao_Balance ao"
  "ao_Lockup (strip ao) = ao_Lockup ao"
  "ao_Mandate (strip ao) = ao_Mandate ao"
  "ao_Properties (strip ao) = ao_Properties ao"
  by (simp_all add: strip_def)

lemma strip_updates [simp]:
  "strip (ao\<lparr>ao_Balance := b\<rparr>) = (strip ao)\<lparr>ao_Balance := b\<rparr>"
  "strip (ao\<lparr>ao_Lockup := l\<rparr>) = (strip ao)\<lparr>ao_Lockup := l\<rparr>"
  "strip (ao\<lparr>ao_Mandate := l\<rparr>) = (strip ao)\<lparr>ao_Mandate := l\<rparr>"
  "strip (ao\<lparr>ao_Properties := p\<rparr>) = (strip ao)\<lparr>ao_Properties := p\<rparr>"
  "strip (ao\<lparr>ao_TokenMetaData := m\<rparr>) = strip ao"
  "strip (strip ao) = strip ao"
  by (simp_all add: strip_def)

lemma strip_deleteTokenMetadata [simp]: "strip (deleteTokenMetadata t ao) = strip ao"
  by (simp add: deleteTokenMetadata_def)

lemma strip_credit [simp]: "strip (credit t n ao) = credit t n (strip ao)"
  by (simp add: credit_def split: option.splits)

definition blank :: "AssetDescriptor option \<Rightarrow> unit AssetObject" where
  "blank p = \<lparr>ao_Balance = [], ao_TokenMetaData = None, ao_Lockup = [], ao_Mandate = [], ao_Properties = p\<rparr>"

lemma strip_NewAssetObject [simp]: "strip (NewAssetObject p) = blank p"
  by (simp add: strip_def NewAssetObject_def blank_def)

lemma strip_decoded [simp]: "strip (decoded_asset st n) = strip st"
  by (simp add: strip_def decoded_asset_def)

definition own_ref :: "Object \<Rightarrow> Identifier \<Rightarrow> nat option" where
  "own_ref ob a = Option.bind (ob_assetTreeTxn ob) (\<lambda>txn. txn a)"

fun cell_of :: "Identifier \<Rightarrow> ostate \<Rightarrow> Cell" where
  "cell_of a (mem, ob) = (case own_ref ob a of
     Some r \<Rightarrow> Some (strip (mem_asset mem r))
   | None \<Rightarrow> (case ob_assetTree ob a of Inl _ \<Rightarrow> None | Inr st \<Rightarrow> Some (strip st)))"

text \<open>A change that touches, of what was there, only the object of one asset.\<close>

fun local_change :: "Identifier \<Rightarrow> ostate \<Rightarrow> ostate \<Rightarrow> bool" where
  "local_change a (mem, ob) (mem', ob') \<longleftrightarrow>
     mem_next mem \<le> mem_next mem'
     \<and> (\<forall>r < mem_next mem. own_ref ob a \<noteq> Some r \<longrightarrow> mem_asset mem' r = mem_asset mem r)
     \<and> (\<forall>b. b \<noteq> a \<longrightarrow> own_ref ob' b = own_ref ob b)
     \<and> (own_ref ob' a = own_ref ob a \<or> (\<exists>r. own_ref ob' a = Some r \<and> mem_next mem \<le> r \<and> r < mem_next mem'))
     \<and> ob_assetTree ob' = ob_assetTree ob"

fun owned :: "Identifier \<Rightarrow> ostate \<Rightarrow> bool" where
  "owned a (mem, ob) \<longleftrightarrow> (\<forall>r. own_ref ob a = Some r \<longrightarrow> r < mem_next mem)"

lemma local_change_refl [simp]: "local_change a s s"
  by (cases s) auto

lemma local_change_trans: "local_change a s s' \<Longrightarrow> local_change a s' s'' \<Longrightarrow> local_change a s s''"
  by (cases s; cases s'; cases s'') (auto; metis leD less_le_trans option.inject order_trans)

lemma local_change_owned: "local_change a s s' \<Longrightarrow> owned a s \<Longrightarrow> owned a s'"
  by (cases s; cases s') (auto; metis less_le_trans option.inject)

definition refines :: "Identifier \<Rightarrow> (ostate, 'a) gom \<Rightarrow> (Cell, unit) gom \<Rightarrow> bool" where
  "refines a m n \<longleftrightarrow> (\<forall>s res s'. owned a s \<longrightarrow> m s = Some (res, s') \<longrightarrow>
     n (cell_of a s) = Some (forget res, cell_of a s') \<and> local_change a s s')"

lemma refinesD:
  assumes "refines a m n" "owned a s" "m s = Some (res, s')"
  shows "n (cell_of a s) = Some (forget res, cell_of a s')" "local_change a s s'" "owned a s'"
  using assms local_change_owned [of a s s'] unfolding refines_def by blast+

lemma refines_gbind:
  assumes m: "refines a m n" and f: "\<And>x. refines a (f x) k"
  shows "refines a (gbind m f) (gthen n k)"
  unfolding refines_def
proof (intro allI impI)
  fix s res s'
  assume s: "owned a s" and run: "gbind m f s = Some (res, s')"
  from run show "gthen n k (cell_of a s) = Some (forget res, cell_of a s') \<and> local_change a s s'"
  proof (cases rule: gbind_cases)
    case (error e)
    then show ?thesis using refinesD [OF m s] by (simp add: gthen_def gbind_def)
  next
    case (returns x s1)
    note 1 = refinesD [OF m s returns(1)] and 2 = refinesD [OF f refinesD(3) [OF m s returns(1)] returns(2)]
    show ?thesis using 1 2 local_change_trans [OF 1(2) 2(2)] by (simp add: gthen_def gbind_def)
  qed
qed

lemma refines_gthen: "refines a m n \<Longrightarrow> refines a m' k \<Longrightarrow> refines a (gthen m m') (gthen n k)"
  unfolding gthen_def [of m] by (rule refines_gbind)

text \<open>Most operations fetch the asset object, change it and enter it in the transaction.\<close>

definition mutate ::
  "Identifier \<Rightarrow> (nat AssetObject \<Rightarrow> (state_error + nat AssetObject \<times> 'a) option) \<Rightarrow> (ostate, 'a) gom" where
  "mutate a g = gbind (fetch_asset a) (\<lambda>r. gbind (read_asset r) (\<lambda>ao. case g ao of
     None \<Rightarrow> gpanic
   | Some (Inl e) \<Rightarrow> gerr e
   | Some (Inr (ao', x)) \<Rightarrow> gthen (write_asset r ao') (gthen (updateAssetTree a r) (gret x))))"

definition cell_mutate :: "(unit AssetObject \<Rightarrow> (state_error + unit AssetObject) option) \<Rightarrow> (Cell, unit) gom" where
  "cell_mutate h = (\<lambda>c. case c of
     None \<Rightarrow> Some (Inl ErrAssetNotFound, None)
   | Some v \<Rightarrow> (case h v of
       None \<Rightarrow> None | Some (Inl e) \<Rightarrow> Some (Inl e, c) | Some (Inr v') \<Rightarrow> Some (Inr (), Some v')))"

text \<open>A cursor: the object that was fetched, with the state before and after.\<close>

definition cursor :: "Identifier \<Rightarrow> ostate \<Rightarrow> ostate \<Rightarrow> nat \<Rightarrow> bool" where
  "cursor a s s1 r \<longleftrightarrow> snd s1 = snd s \<and> cell_of a s = Some (strip (mem_asset (fst s1) r)) \<and> cell_of a s1 = cell_of a s
     \<and> r < mem_next (fst s1) \<and> local_change a s s1
     \<and> (own_ref (snd s) a = Some r \<or> own_ref (snd s) a = None \<and> mem_next (fst s) \<le> r)"

lemma getAssetObject_run:
  assumes "owned a s" "getAssetObject a True s = Some (res, s1)"
  shows "(\<exists>e. res = Inl e \<and> cell_of a s = None \<and> s1 = s) \<or> (\<exists>r. res = Inr r \<and> cursor a s s1 r)"
  using assms
  by (cases s) (auto simp: getAssetObject_def cursor_def own_ref_def load_asset_def Let_def split: option.splits sum.splits)

lemma fetch_asset_run:
  assumes "owned a s" "fetch_asset a s = Some (res, s1)"
  shows "(res = Inl ErrAssetNotFound \<and> cell_of a s = None \<and> s1 = s) \<or> (\<exists>r. res = Inr r \<and> cursor a s s1 r)"
  using assms(2) unfolding fetch_asset_def
  by (cases rule: gcatch_cases) (use getAssetObject_run [OF assms(1)] in \<open>auto simp: gerr_def\<close>)

lemma own_ref_update [simp]:
  "own_ref (ob\<lparr>ob_assetTreeTxn := Some ((case ob_assetTreeTxn ob of None \<Rightarrow> Map.empty | Some txn \<Rightarrow> txn)(a \<mapsto> r))\<rparr>) b
     = (if b = a then Some r else own_ref ob b)"
  by (simp add: own_ref_def split: option.splits)

lemma cursor_write:
  assumes c: "cursor a s s1 r" and run: "gthen (write_asset r ao) (gthen (updateAssetTree a r) m) s1 = Some (res, s')"
  obtains s2 where "m s2 = Some (res, s')" and "cell_of a s2 = Some (strip ao)" and "local_change a s s2"
proof -
  obtain mem ob where s: "s = (mem, ob)" by (cases s)
  obtain mem1 where s1: "s1 = (mem1, ob)" using c by (cases s1) (simp add: cursor_def s)
  let ?s2 = "(mem1\<lparr>mem_asset := (mem_asset mem1)(r := ao)\<rparr>,
    ob\<lparr>ob_assetTreeTxn := Some ((case ob_assetTreeTxn ob of None \<Rightarrow> Map.empty | Some txn \<Rightarrow> txn)(a \<mapsto> r))\<rparr>)"
  have "m ?s2 = Some (res, s')"
    using run by (simp add: s1 gthen_def gbind_def write_asset_def updateAssetTree_def)
  moreover have "cell_of a ?s2 = Some (strip ao)" by simp
  moreover have "local_change a s ?s2"
    using c by (auto simp: cursor_def s s1)
  ultimately show thesis by (rule that)
qed

lemma refines_mutate:
  assumes gh: "\<And>ao. h (strip ao) = map_option (map_sum id (\<lambda>(ao', x). strip ao')) (g ao)"
  shows "refines a (mutate a g) (cell_mutate h)"
  unfolding refines_def
proof (intro allI impI)
  fix s res s'
  assume s: "owned a s" and run: "mutate a g s = Some (res, s')"
  show "cell_mutate h (cell_of a s) = Some (forget res, cell_of a s') \<and> local_change a s s'"
    using run unfolding mutate_def
  proof (cases rule: gbind_cases)
    case (error e)
    then show ?thesis using fetch_asset_run [OF s] by (auto simp: cell_mutate_def)
  next
    case (returns r s1)
    have c: "cursor a s s1 r" using fetch_asset_run [OF s returns(1)] by auto
    let ?ao = "mem_asset (fst s1) r"
    have rest: "(case g ?ao of None \<Rightarrow> gpanic | Some (Inl e) \<Rightarrow> gerr e
        | Some (Inr (ao', x)) \<Rightarrow> gthen (write_asset r ao') (gthen (updateAssetTree a r) (gret x))) s1 = Some (res, s')"
      using returns(2) by (cases s1) (simp add: gbind_def read_asset_def)
    have cell: "cell_of a s = Some (strip ?ao)" "cell_of a s1 = cell_of a s" "local_change a s s1"
      using c by (auto simp: cursor_def)
    show ?thesis
    proof (cases "g ?ao")
      case None
      then show ?thesis using rest by (simp add: gpanic_def)
    next
      case (Some y)
      show ?thesis
      proof (cases y)
        case (Inl e)
        then show ?thesis using rest Some cell gh [of ?ao] by (auto simp: gerr_def cell_mutate_def)
      next
        case (Inr p)
        obtain ao' x where p: "p = (ao', x)" by (cases p)
        obtain s2 where s2: "gret x s2 = Some (res, s')" "cell_of a s2 = Some (strip ao')" "local_change a s s2"
          using cursor_write [OF c, of ao' "gret x"] rest Some Inr p by auto
        then show ?thesis using Some Inr p cell gh [of ?ao] by (auto simp: gret_def cell_mutate_def)
      qed
    qed
  qed
qed

section \<open>The operations on a cell\<close>

definition put_or_drop :: "'k \<Rightarrow> int \<Rightarrow> ('k \<times> int) list \<Rightarrow> ('k \<times> int) list" where
  "put_or_drop k n al = (if n = 0 then AList.delete k al else AList.update k n al)"

definition cell_sub :: "TokenID \<Rightarrow> int \<Rightarrow> unit AssetObject \<Rightarrow> (state_error + unit AssetObject) option" where
  "cell_sub t n v = (case map_of (ao_Balance v) t of
     None \<Rightarrow> Some (Inl ErrTokenNotFound)
   | Some bal \<Rightarrow> Some (Inr (v\<lparr>ao_Balance := put_or_drop t (bal - n) (ao_Balance v)\<rparr>)))"

definition cell_add :: "TokenID \<Rightarrow> int \<Rightarrow> (Cell, unit) gom" where
  "cell_add t n = (\<lambda>c. Some (Inr (), Some (credit t n (case c of None \<Rightarrow> blank None | Some v \<Rightarrow> v))))"

definition cell_lock :: "TokenID \<Rightarrow> Identifier \<Rightarrow> int \<Rightarrow> unit AssetObject \<Rightarrow> (state_error + unit AssetObject) option" where
  "cell_lock t i n v = (case map_of (ao_Balance v) t of
     None \<Rightarrow> Some (Inl ErrTokenNotFound)
   | Some bal \<Rightarrow> map_option (\<lambda>lockup. Inr (v\<lparr>ao_Balance := put_or_drop t (bal - n) (ao_Balance v),
         ao_Lockup := put_allowance i t lockup (ao_Lockup v)\<rparr>))
       (case map_of (ao_Lockup v) i of
          None \<Rightarrow> Some \<lparr>aw_Amount = n, aw_ExpiresAt = 0\<rparr>
        | Some lockups \<Rightarrow> map_option (\<lambda>l. \<lparr>aw_Amount = aw_Amount l + n, aw_ExpiresAt = aw_ExpiresAt l\<rparr>) (map_of lockups t)))"

definition cut_allowance :: "Identifier \<Rightarrow> TokenID \<Rightarrow> int \<Rightarrow> AmountWithExpiry \<Rightarrow> Allowances \<Rightarrow> Allowances" where
  "cut_allowance i t n a as = (if aw_Amount a - n = 0 then drop_allowance i t as
     else put_allowance i t (a\<lparr>aw_Amount := aw_Amount a - n\<rparr>) as)"

definition cell_unlock :: "TokenID \<Rightarrow> Identifier \<Rightarrow> int \<Rightarrow> unit AssetObject \<Rightarrow> (state_error + unit AssetObject) option" where
  "cell_unlock t i n v = map_option (\<lambda>a. Inr (v\<lparr>ao_Lockup := cut_allowance i t n a (ao_Lockup v)\<rparr>)) (allowance (ao_Lockup v) i t)"

definition cell_spend :: "TokenID \<Rightarrow> Identifier \<Rightarrow> int \<Rightarrow> unit AssetObject \<Rightarrow> (state_error + unit AssetObject) option" where
  "cell_spend t i n v = (case allowance (ao_Mandate v) i t of
     None \<Rightarrow> Some (Inl ErrMandateNotFound)
   | Some a \<Rightarrow> Some (Inr (v\<lparr>ao_Mandate := cut_allowance i t n a (ao_Mandate v)\<rparr>)))"

definition cell_mandate :: "TokenID \<Rightarrow> Identifier \<Rightarrow> int \<Rightarrow> u64 \<Rightarrow> unit AssetObject \<Rightarrow> (state_error + unit AssetObject) option" where
  "cell_mandate t i n e v = Some (Inr (v\<lparr>ao_Mandate := (case map_of (ao_Mandate v) i of
     None \<Rightarrow> [(i, [(t, \<lparr>aw_Amount = n, aw_ExpiresAt = e\<rparr>)])]
   | Some mandates \<Rightarrow> put_allowance i t \<lparr>aw_Amount = (case map_of mandates t of None \<Rightarrow> n | Some a \<Rightarrow> aw_Amount a + n),
       aw_ExpiresAt = e\<rparr> (ao_Mandate v))\<rparr>))"

definition cell_revoke :: "TokenID \<Rightarrow> Identifier \<Rightarrow> unit AssetObject \<Rightarrow> (state_error + unit AssetObject) option" where
  "cell_revoke t i v = Some (Inr (v\<lparr>ao_Mandate := drop_allowance i t (ao_Mandate v)\<rparr>))"

definition cell_supply :: "(AssetDescriptor \<Rightarrow> AssetDescriptor) \<Rightarrow> unit AssetObject \<Rightarrow> (state_error + unit AssetObject) option" where
  "cell_supply f v = map_option (\<lambda>p. Inr (v\<lparr>ao_Properties := Some (f p)\<rparr>)) (ao_Properties v)"

lemma delete_update [simp]: "AList.delete k (AList.update k v al) = AList.delete k al"
  by (induction al) (auto simp: AList.delete_eq)

lemma refines_SubBalance: "refines a (SubBalance a t n) (cell_mutate (cell_sub t n))"
proof -
  have "SubBalance a t n = mutate a (\<lambda>ao. case map_of (ao_Balance ao) t of
      None \<Rightarrow> Some (Inl ErrTokenNotFound)
    | Some bal \<Rightarrow> Some (Inr (let ao1 = ao\<lparr>ao_Balance := AList.update t (bal - n) (ao_Balance ao)\<rparr>
        in if bal - n = 0 then deleteTokenMetadata t (ao1\<lparr>ao_Balance := AList.delete t (ao_Balance ao1)\<rparr>) else ao1, token_meta t ao)))"
    unfolding SubBalance_def mutate_def Let_def
    by (intro arg_cong2 [of _ _ _ _ gbind] refl ext) (simp add: map_option_case split: option.split)
  then show ?thesis
    by (simp only:) (rule refines_mutate, simp add: cell_sub_def put_or_drop_def Let_def split: option.splits)
qed

lemma refines_CreateLockup: "refines a (CreateLockup a t i n) (cell_mutate (cell_lock t i n))"
proof -
  have "CreateLockup a t i n = mutate a (\<lambda>ao. case map_of (ao_Balance ao) t of
      None \<Rightarrow> Some (Inl ErrTokenNotFound)
    | Some bal \<Rightarrow> map_option (\<lambda>lockup. Inr (ao\<lparr>ao_Balance := put_or_drop t (bal - n) (ao_Balance ao),
          ao_Lockup := put_allowance i t lockup (ao_Lockup ao)\<rparr>, ()))
        (case map_of (ao_Lockup ao) i of
           None \<Rightarrow> Some \<lparr>aw_Amount = n, aw_ExpiresAt = 0\<rparr>
         | Some lockups \<Rightarrow> map_option (\<lambda>l. \<lparr>aw_Amount = aw_Amount l + n, aw_ExpiresAt = aw_ExpiresAt l\<rparr>) (map_of lockups t)))"
    unfolding CreateLockup_def mutate_def Let_def
    by (intro arg_cong2 [of _ _ _ _ gbind] refl ext)
      (simp add: put_or_drop_def map_option_case split: option.split)
  then show ?thesis
    by (simp only:) (rule refines_mutate, simp add: cell_lock_def map_option_case split: option.splits)
qed

lemma refines_ReleaseLockup: "refines a (ReleaseLockup a t i n) (cell_mutate (cell_unlock t i n))"
proof -
  have "ReleaseLockup a t i n = mutate a (\<lambda>ao. map_option (\<lambda>l. Inr
      (if aw_Amount l - n = 0 then deleteTokenMetadata t (ao\<lparr>ao_Lockup := drop_allowance i t (ao_Lockup ao)\<rparr>)
       else ao\<lparr>ao_Lockup := put_allowance i t (l\<lparr>aw_Amount := aw_Amount l - n\<rparr>) (ao_Lockup ao)\<rparr>, token_meta t ao))
      (allowance (ao_Lockup ao) i t))"
    unfolding ReleaseLockup_def mutate_def Let_def
    by (intro arg_cong2 [of _ _ _ _ gbind] refl ext) (simp add: map_option_case split: option.split)
  then show ?thesis
    by (simp only:) (rule refines_mutate, simp add: cell_unlock_def cut_allowance_def map_option_case split: option.splits)
qed

lemma refines_SubMandateBalance: "refines a (SubMandateBalance a t i n) (cell_mutate (cell_spend t i n))"
proof -
  have "SubMandateBalance a t i n = mutate a (\<lambda>ao. case allowance (ao_Mandate ao) i t of
      None \<Rightarrow> Some (Inl ErrMandateNotFound)
    | Some m \<Rightarrow> Some (Inr (ao\<lparr>ao_Mandate := cut_allowance i t n m (ao_Mandate ao)\<rparr>, ())))"
    unfolding SubMandateBalance_def mutate_def Let_def
    by (intro arg_cong2 [of _ _ _ _ gbind] refl ext)
      (simp add: cut_allowance_def split: option.split)
  then show ?thesis
    by (simp only:) (rule refines_mutate, simp add: cell_spend_def split: option.splits)
qed

lemma refines_ConsumeMandate:
  "refines a (ConsumeMandate a t i n) (gthen (cell_mutate (cell_spend t i n)) (cell_mutate (cell_sub t n)))"
  unfolding ConsumeMandate_def by (rule refines_gthen [OF refines_SubMandateBalance refines_SubBalance])

lemma refines_CreateMandate: "refines a (CreateMandate a t i n e) (cell_mutate (cell_mandate t i n e))"
proof -
  have "CreateMandate a t i n e = mutate a (\<lambda>ao. Some (Inr (ao\<lparr>ao_Mandate := (case map_of (ao_Mandate ao) i of
      None \<Rightarrow> [(i, [(t, \<lparr>aw_Amount = n, aw_ExpiresAt = e\<rparr>)])]
    | Some mandates \<Rightarrow> put_allowance i t \<lparr>aw_Amount = (case map_of mandates t of None \<Rightarrow> n | Some a \<Rightarrow> aw_Amount a + n),
        aw_ExpiresAt = e\<rparr> (ao_Mandate ao))\<rparr>, ())))"
    unfolding CreateMandate_def mutate_def Let_def
    by (intro arg_cong2 [of _ _ _ _ gbind] refl ext)
      (simp split: option.split)
  then show ?thesis
    by (simp only:) (rule refines_mutate, simp add: cell_mandate_def split: option.splits)
qed

lemma refines_DeleteMandate: "refines a (DeleteMandate a t i) (cell_mutate (cell_revoke t i))"
proof -
  have "DeleteMandate a t i = mutate a (\<lambda>ao. Some (Inr (ao\<lparr>ao_Mandate := drop_allowance i t (ao_Mandate ao)\<rparr>, ())))"
    unfolding DeleteMandate_def mutate_def
    by (intro arg_cong2 [of _ _ _ _ gbind] refl ext) simp
  then show ?thesis
    by (simp only:) (rule refines_mutate, simp add: cell_revoke_def)
qed

lemma refines_BurnAsset:
  "refines a (BurnAsset a n) (cell_mutate (cell_supply (\<lambda>p. p\<lparr>ad_CirculatingSupply := ad_CirculatingSupply p - n\<rparr>)))"
proof -
  have "BurnAsset a n = mutate a (\<lambda>ao. map_option (\<lambda>p. Inr
      (ao\<lparr>ao_Properties := Some (p\<lparr>ad_CirculatingSupply := ad_CirculatingSupply p - n\<rparr>)\<rparr>, ad_CirculatingSupply p - n)) (ao_Properties ao))"
    unfolding BurnAsset_def mutate_def Let_def
    by (intro arg_cong2 [of _ _ _ _ gbind] refl ext)
      (simp add: deref_def map_option_case split: option.split)
  then show ?thesis
    by (simp only:) (rule refines_mutate, simp add: cell_supply_def map_option_case split: option.splits)
qed

lemma insert_run:
  assumes none: "cell_of a s = None"
  obtains r s1 s2 where "new_asset ao s = Some (Inr r, s1)" and "InsertNewAssetObject a r s1 = Some (Inr (), s2)"
    and "local_change a s s2" and "cursor a s2 s2 r" and "mem_asset (fst s2) r = ao" and "cell_of a s2 = Some (strip ao)"
proof -
  obtain mem ob where s: "s = (mem, ob)" by (cases s)
  have own: "own_ref ob a = None" and tree: "\<exists>e. ob_assetTree ob a = Inl e"
    using none by (auto simp: s split: option.splits sum.splits)
  let ?r = "mem_next mem"
  let ?mem = "mem\<lparr>mem_asset := (mem_asset mem)(?r := ao), mem_next := Suc ?r\<rparr>"
  let ?ob = "ob\<lparr>ob_assetTreeTxn := Some ((case ob_assetTreeTxn ob of None \<Rightarrow> Map.empty | Some txn \<Rightarrow> txn)(a \<mapsto> ?r))\<rparr>"
  have "new_asset ao s = Some (Inr ?r, (?mem, ob))" by (simp add: s new_asset_def)
  moreover have "InsertNewAssetObject a ?r (?mem, ob) = Some (Inr (), (?mem, ?ob))"
    using own tree by (auto simp: InsertNewAssetObject_def getAssetObject_def updateAssetTree_def own_ref_def)
  moreover have "local_change a s (?mem, ?ob)" using own by (auto simp: s)
  moreover have "cursor a (?mem, ?ob) (?mem, ?ob) ?r" by (simp add: cursor_def)
  ultimately show thesis by (rule that) simp_all
qed

lemma insert_registered:
  assumes "cell_of a s = Some v" "owned a s" "InsertNewAssetObject a r s = Some (res, s')"
  shows "res = Inl ErrAssetAlreadyRegistered" "cell_of a s' = cell_of a s" "local_change a s s'"
  using assms getAssetObject_run [of a s]
  by (auto simp: InsertNewAssetObject_def cursor_def split: option.splits prod.splits sum.splits)

declare local_change.simps [simp del] cell_of.simps [simp del] owned.simps [simp del]

text \<open>Effects: what an operation on the asset objects of an account can do to a cell.\<close>

definition effects :: "Identifier \<Rightarrow> (ostate, 'a) gom \<Rightarrow> (Cell \<Rightarrow> state_error + unit \<Rightarrow> Cell \<Rightarrow> bool) \<Rightarrow> bool" where
  "effects a m P \<longleftrightarrow> (\<forall>s res s'. owned a s \<longrightarrow> m s = Some (res, s') \<longrightarrow>
     P (cell_of a s) (forget res) (cell_of a s') \<and> local_change a s s')"

lemma refines_effects: "refines a m n \<Longrightarrow> effects a m (\<lambda>c r c'. n c = Some (r, c'))"
  by (simp add: refines_def effects_def)

lemma effectsD:
  assumes "effects a m P" "owned a s" "m s = Some (res, s')"
  shows "P (cell_of a s) (forget res) (cell_of a s')" "local_change a s s'"
  using assms unfolding effects_def by blast+

lemma effects_mono: "effects a m P \<Longrightarrow> (\<And>c r c'. P c r c' \<Longrightarrow> Q c r c') \<Longrightarrow> effects a m Q"
  unfolding effects_def by blast

definition same_cell :: "Cell \<Rightarrow> state_error + unit \<Rightarrow> Cell \<Rightarrow> bool" where
  "same_cell c r c' \<longleftrightarrow> c' = c"

text \<open>Two cells that differ in the properties of the asset only.\<close>

definition same_holding :: "Cell \<Rightarrow> Cell \<Rightarrow> bool" where
  "same_holding c c' \<longleftrightarrow> map_option (\<lambda>v. v\<lparr>ao_Properties := None\<rparr>) c' = map_option (\<lambda>v. v\<lparr>ao_Properties := None\<rparr>) c"

lemma same_holding_refl [simp]: "same_holding c c"
  by (simp add: same_holding_def)

lemma effects_AddBalance: "effects a (AddBalance a t n md) (\<lambda>c r c'. cell_add t n c = Some (r, c'))"
  unfolding effects_def
proof (intro allI impI)
  fix s res s'
  assume s: "owned a s" and run: "AddBalance a t n md s = Some (res, s')"
  let ?c = "case cell_of a s of None \<Rightarrow> blank None | Some v \<Rightarrow> v"
  let ?first = "gcatch (getAssetObject a True)
    (\<lambda>_. gbind (new_asset (NewAssetObject None)) (\<lambda>r. gthen (InsertNewAssetObject a r) (gret r)))"
  have first: "\<exists>r s0. y = Inr r \<and> local_change a s s0 \<and> cursor a s0 s1 r \<and> strip (mem_asset (fst s1) r) = ?c"
    if "?first s = Some (y, s1)" for y s1
    using that
  proof (cases rule: gcatch_cases)
    case (error e s2)
    then have none: "cell_of a s = None" "s2 = s" using getAssetObject_run [OF s] by auto
    obtain r s3 s4 where "new_asset (NewAssetObject None) s = Some (Inr r, s3)" "InsertNewAssetObject a r s3 = Some (Inr (), s4)"
        "local_change a s s4" "cursor a s4 s4 r" "mem_asset (fst s4) r = NewAssetObject None"
      by (rule insert_run [OF none(1), of "NewAssetObject None"]) blast
    then show ?thesis using error(2) none by (intro exI [of _ r] exI [of _ s4]) (simp add: gbind_def gthen_def gret_def)
  next
    case (returns r)
    then have "cursor a s s1 r" using getAssetObject_run [OF s returns(1)] by auto
    then show ?thesis using returns(2) by (intro exI [of _ r] exI [of _ s]) (simp add: cursor_def)
  qed
  from run show "cell_add t n (cell_of a s) = Some (forget res, cell_of a s') \<and> local_change a s s'"
    unfolding AddBalance_def
  proof (cases rule: gbind_cases)
    case (error e)
    then show ?thesis using first by auto
  next
    case (returns r s1)
    obtain s0 where s0: "local_change a s s0" "cursor a s0 s1 r" "strip (mem_asset (fst s1) r) = ?c"
      using first [OF returns(1)] by auto
    let ?new = "credit t n (mem_asset (fst s1) r)"
    obtain ms where ms: "gthen (write_asset r (?new\<lparr>ao_TokenMetaData := ms\<rparr>)) (updateAssetTree a r) s1 = Some (res, s')"
    proof (cases md)
      case None
      then show thesis using returns(2) that [of "ao_TokenMetaData ?new"] by (cases s1) (simp add: read_then)
    next
      case (Some m)
      then show thesis using returns(2) that by (cases s1) (auto simp: read_then split: option.splits)
    qed
    define ao where "ao = ?new\<lparr>ao_TokenMetaData := ms\<rparr>"
    have ao: "strip ao = credit t n ?c" and rest: "gthen (write_asset r ao) (updateAssetTree a r) s1 = Some (res, s')"
      using s0(3) ms by (simp_all add: ao_def)
    obtain s2 where "gret () s2 = Some (res, s')" "cell_of a s2 = Some (strip ao)" "local_change a s0 s2"
      using cursor_write [OF s0(2), of ao "gret ()" res s'] rest by auto
    then show ?thesis using ao local_change_trans [OF s0(1)] by (auto simp: cell_add_def gret_def)
  qed
qed

lemma effects_CreateAsset:
  "effects (ad_AssetID d) (CreateAsset i d) (\<lambda>c r c'. if c = None then r = Inr () \<and> c' = Some (blank (Some d))
     else r = Inl ErrAssetAlreadyRegistered \<and> c' = c)"
  unfolding effects_def
proof (intro allI impI)
  fix s res s'
  let ?a = "ad_AssetID d"
  assume s: "owned ?a s" and run: "CreateAsset i d s = Some (res, s')"
  show "(if cell_of ?a s = None then forget res = Inr () \<and> cell_of ?a s' = Some (blank (Some d))
     else forget res = Inl ErrAssetAlreadyRegistered \<and> cell_of ?a s' = cell_of ?a s) \<and> local_change ?a s s'"
  proof (cases "cell_of ?a s")
    case None
    obtain r s3 s4 where "new_asset (NewAssetObject (Some d)) s = Some (Inr r, s3)" "InsertNewAssetObject ?a r s3 = Some (Inr (), s4)"
        "local_change ?a s s4" "cell_of ?a s4 = Some (blank (Some d))"
      by (rule insert_run [OF None, of "NewAssetObject (Some d)"]) simp
    then show ?thesis using run None by (auto simp: CreateAsset_def gbind_def)
  next
    case (Some v)
    obtain mem ob where s_eq: "s = (mem, ob)" by (cases s)
    let ?s1 = "(mem\<lparr>mem_asset := (mem_asset mem)(mem_next mem := NewAssetObject (Some d)), mem_next := Suc (mem_next mem)\<rparr>, ob)"
    have run1: "InsertNewAssetObject ?a (mem_next mem) ?s1 = Some (res, s')"
      using run by (simp add: CreateAsset_def gbind_def new_asset_def s_eq)
    have 1: "cell_of ?a ?s1 = Some v" "owned ?a ?s1" "local_change ?a s ?s1"
      using s Some by (auto simp: s_eq local_change.simps cell_of.simps owned.simps split: option.splits)
    show ?thesis
      using insert_registered [OF 1(1,2) run1] local_change_trans [OF 1(3)] 1(1) Some by simp
  qed
qed

text \<open>Reading, and operations that do not concern assets.\<close>

definition pure_op :: "('s, 'a) gom \<Rightarrow> bool" where
  "pure_op m \<longleftrightarrow> (\<forall>s res s'. m s = Some (res, s') \<longrightarrow> s' = s)"

lemma pure_ops [simp]: "pure_op (gret x)" "pure_op (gerr e)" "pure_op gpanic" "pure_op (gguard b e)" "pure_op (gcheck eo)"
  "pure_op (deref p)"
  by (auto simp: pure_op_def gret_def gerr_def gguard_def gcheck_def deref_def split: if_splits option.splits)

lemma pure_opD: "pure_op m \<Longrightarrow> m s = Some (res, s') \<Longrightarrow> s' = s"
  unfolding pure_op_def by blast

lemma effects_fetch:
  assumes "\<And>ao. pure_op (h ao)"
  shows "effects a (gbind (fetch_asset a) (\<lambda>r. gbind (read_asset r) h)) same_cell"
  unfolding effects_def
proof (intro allI impI)
  fix s res s'
  assume s: "owned a s" and "gbind (fetch_asset a) (\<lambda>r. gbind (read_asset r) h) s = Some (res, s')"
  from this(2) show "same_cell (cell_of a s) (forget res) (cell_of a s') \<and> local_change a s s'"
  proof (cases rule: gbind_cases)
    case (error e)
    then show ?thesis using fetch_asset_run [OF s error(1)] by (auto simp: same_cell_def)
  next
    case (returns r s1)
    have "cursor a s s1 r" using fetch_asset_run [OF s returns(1)] by auto
    moreover have "s' = s1" using returns(2) pure_opD [OF assms] by (cases s1) (simp only: read_then)
    ultimately show ?thesis by (auto simp: same_cell_def cursor_def)
  qed
qed

definition inert :: "(ostate, 'a) gom \<Rightarrow> bool" where
  "inert m \<longleftrightarrow> (\<forall>s res s'. m s = Some (res, s') \<longrightarrow>
     fst s' = fst s \<and> ob_assetTreeTxn (snd s') = ob_assetTreeTxn (snd s) \<and> ob_assetTree (snd s') = ob_assetTree (snd s))"

lemma inertD:
  assumes "inert m" "m s = Some (res, s')"
  shows "fst s' = fst s" "ob_assetTreeTxn (snd s') = ob_assetTreeTxn (snd s)" "ob_assetTree (snd s') = ob_assetTree (snd s)"
  using assms unfolding inert_def by blast+

lemma inert_effects:
  assumes "inert m"
  shows "effects a m same_cell"
  unfolding effects_def
proof (intro allI impI)
  fix s res s'
  assume "m s = Some (res, s')"
  from inertD [OF assms this] show "same_cell (cell_of a s) (forget res) (cell_of a s') \<and> local_change a s s'"
    by (cases s; cases s') (simp add: same_cell_def cell_of.simps local_change.simps own_ref_def cong: option.case_cong)
qed

lemma inert_gbind:
  assumes "inert m" "\<And>x. inert (f x)"
  shows "inert (gbind m f)"
  unfolding inert_def
proof (intro allI impI)
  fix s res s'
  assume "gbind m f s = Some (res, s')"
  then show "fst s' = fst s \<and> ob_assetTreeTxn (snd s') = ob_assetTreeTxn (snd s) \<and> ob_assetTree (snd s') = ob_assetTree (snd s)"
    by (cases rule: gbind_cases) (use inertD [OF assms(1)] inertD [OF assms(2)] in metis)+
qed

lemma inert_gthen: "inert m \<Longrightarrow> inert n \<Longrightarrow> inert (gthen m n)"
  unfolding gthen_def by (rule inert_gbind)

lemma inert_gcatch:
  assumes "inert m" "\<And>e. inert (h e)"
  shows "inert (gcatch m h)"
  unfolding inert_def
proof (intro allI impI)
  fix s res s'
  assume "gcatch m h s = Some (res, s')"
  then show "fst s' = fst s \<and> ob_assetTreeTxn (snd s') = ob_assetTreeTxn (snd s) \<and> ob_assetTree (snd s') = ob_assetTree (snd s)"
    by (cases rule: gcatch_cases) (use inertD [OF assms(1)] inertD [OF assms(2)] in metis)+
qed

lemma inert_pure: "inert (gret x)" "inert (gerr e)" "inert (gcheck eo)"
  by (auto simp: inert_def gret_def gerr_def gcheck_def split: option.splits)

lemma inert_ops:
  "inert (CreateDeedsEntry k)" "inert (createStorageTreeForLogic i)" "inert (put_entry i k v)" "inert (open_txn i)"
  "inert (GetStorageEntry i k)" "inert (\<lambda>(mem, ob). Some (Inr (ob_id ob), mem, ob))"
  by (auto simp: inert_def CreateDeedsEntry_def createStorageTreeForLogic_def put_entry_def open_txn_def GetStorageEntry_def
      gcheck_def gret_def gerr_def split: option.splits sum.splits if_splits)

lemma inert_SetStorageEntry: "inert (SetStorageEntry i k v)"
proof -
  have "inert (gthen (case ob_storageTreeTxns ob i of
         Some _ \<Rightarrow> gret ()
       | None \<Rightarrow> gthen (case ob_storageTrees ob i of
             Inr _ \<Rightarrow> gret ()
           | Inl ErrLogicStorageTreeNotFound \<Rightarrow> createStorageTreeForLogic i
           | Inl e \<Rightarrow> gerr e) (open_txn i)) (put_entry i k v))" for ob
    by (intro inert_gthen inert_ops)
      (auto intro!: inert_gthen inert_ops inert_pure split: option.split sum.split state_error.split)
  then show ?thesis
    unfolding SetStorageEntry_def inert_def by (simp add: split_beta del: split_paired_All) blast
qed

lemma inert_registration: "inert (AddAccountGenesisInfo gh enc i h)" "inert (IsAccountRegistered gh i)"
  by (auto simp: AddAccountGenesisInfo_def IsAccountRegistered_def
      intro!: inert_SetStorageEntry inert_gcatch inert_gthen inert_ops inert_pure split: sum.split)

lemma effects_reads:
  "effects a (GetLockup a t i) same_cell" "effects a (GetMandate a t i) same_cell" "effects a (GetProperties a) same_cell"
  "effects a (gbind (fetch_asset a) read_asset) same_cell"
proof -
  have "read_asset = (\<lambda>r. gbind (read_asset r) gret)"
    by (auto simp: fun_eq_iff gbind_def gret_def read_asset_def)
  then have "gbind (fetch_asset a) read_asset = gbind (fetch_asset a) (\<lambda>r. gbind (read_asset r) gret)" by simp
  then show "effects a (gbind (fetch_asset a) read_asset) same_cell" by (simp only:) (rule effects_fetch, simp)
qed (auto simp: GetLockup_def GetMandate_def GetProperties_def intro!: effects_fetch split: option.split)

text \<open>Changing a fetched object in place, and entering it in the transaction.\<close>

lemma write_then:
  "gthen (write_asset r ao) m (mem, ob) = m (mem\<lparr>mem_asset := (mem_asset mem)(r := ao)\<rparr>, ob)"
  by (simp add: gthen_def gbind_def write_asset_def)

lemma result_run [simp]: "gret x s = Some (Inr x, s)" "gerr e s = Some (Inl e, s)"
  by (simp_all add: gret_def gerr_def)

lemma cursorE:
  assumes "cursor a s s1 r"
  obtains mem mem1 ob where "s = (mem, ob)" "s1 = (mem1, ob)" "cell_of a s = Some (strip (mem_asset mem1 r))"
    "r < mem_next mem1" "local_change a (mem, ob) (mem1, ob)"
    "own_ref ob a = Some r \<or> own_ref ob a = None \<and> mem_next mem \<le> r"
  using assms by (cases s; cases s1) (simp add: cursor_def)

lemma cell_of_None: "own_ref ob a = None \<Longrightarrow> cell_of a (mem', ob) = cell_of a (mem, ob)"
  by (simp add: cell_of.simps)

lemma cell_of_Some: "own_ref ob a = Some r \<Longrightarrow> cell_of a (mem, ob) = Some (strip (mem_asset mem r))"
  by (simp add: cell_of.simps)

lemma cursor_touch:
  assumes "cursor a s (mem1, ob) r" and mem2: "mem_asset mem2 = (mem_asset mem1)(r := ao)" "mem_next mem1 \<le> mem_next mem2"
  shows "local_change a s (mem2, ob)"
    and "strip ao = strip (mem_asset mem1 r) \<Longrightarrow> cursor a s (mem2, ob) r"
    and "cell_of a (mem2, ob) = cell_of a s \<or> cell_of a (mem2, ob) = Some (strip ao)"
  using assms(1)
proof (atomize (full), cases rule: cursorE)
  case (1 mem mem1' ob')
  have lc: "local_change a s (mem2, ob)"
    using 1(2,5,6) mem2 unfolding 1(1) by (auto simp: local_change.simps)
  have cell: "cell_of a (mem2, ob) = (if own_ref ob a = None then cell_of a s else Some (strip ao))"
    using 1(2,6) mem2(1) cell_of_None [of ob a mem2 mem] unfolding 1(1) by (auto simp: cell_of_Some)
  show "local_change a s (mem2, ob) \<and> (strip ao = strip (mem_asset mem1 r) \<longrightarrow> cursor a s (mem2, ob) r)
    \<and> (cell_of a (mem2, ob) = cell_of a s \<or> cell_of a (mem2, ob) = Some (strip ao))"
    using lc cell 1 mem2 by (simp add: cursor_def)
qed

lemma cursor_enter:
  assumes c: "cursor a s s1 r" and run: "updateAssetTree a r s1 = Some (res, s2)"
  shows "cell_of a s2 = cell_of a s \<and> local_change a s s2 \<and> res = Inr ()"
  using c
proof (cases rule: cursorE)
  case (1 mem mem1 ob)
  let ?ob = "ob\<lparr>ob_assetTreeTxn := Some ((case ob_assetTreeTxn ob of None \<Rightarrow> Map.empty | Some txn \<Rightarrow> txn)(a \<mapsto> r))\<rparr>"
  have s2: "s2 = (mem1, ?ob)" "res = Inr ()" using run 1(2) by (simp_all add: updateAssetTree_def)
  have "cell_of a s2 = cell_of a s" unfolding s2 1(3) by (simp add: cell_of.simps)
  moreover have "local_change a s s2" using 1(4,5,6) unfolding s2 1(1) by (auto simp: local_change.simps)
  ultimately show ?thesis using s2 by simp
qed

lemma effects_cursor:
  assumes "\<And>s s1 s' r res. owned a s \<Longrightarrow> cursor a s s1 r \<Longrightarrow> m r s1 = Some (res, s')
    \<Longrightarrow> P (cell_of a s) (forget res) (cell_of a s') \<and> local_change a s s'"
    and "P None (Inl ErrAssetNotFound) None"
  shows "effects a (gbind (fetch_asset a) m) P"
  unfolding effects_def
proof (intro allI impI)
  fix s res s'
  assume s: "owned a s" and "gbind (fetch_asset a) m s = Some (res, s')"
  from this(2) show "P (cell_of a s) (forget res) (cell_of a s') \<and> local_change a s s'"
  proof (cases rule: gbind_cases)
    case (error e)
    then show ?thesis using fetch_asset_run [OF s error(1)] assms(2) by auto
  next
    case (returns r s1)
    then show ?thesis using fetch_asset_run [OF s returns(1)] assms(1) [OF s _ returns(2)] by auto
  qed
qed

lemma effects_MintAsset: "effects a (MintAsset a n) (\<lambda>c r c'. same_holding c c' \<and> (\<forall>e. r = Inl e \<longrightarrow> c' = c \<and> e = ErrAssetNotFound))"
  unfolding MintAsset_def
proof (rule effects_cursor)
  fix s s1 s' :: ostate and r res
  let ?ao = "mem_asset (fst s1) r"
  assume c: "cursor a s s1 r" and run: "gbind (read_asset r) (\<lambda>ao. gbind (deref (ao_Properties ao)) (\<lambda>p.
     let supply = ad_CirculatingSupply p + n in
     gthen (write_asset r (ao\<lparr>ao_Properties := Some (p\<lparr>ad_CirculatingSupply := supply\<rparr>)\<rparr>)) (gret supply))) s1 = Some (res, s')"
  obtain mem1 ob where s1: "s1 = (mem1, ob)" by (cases s1)
  obtain p where p: "res = Inr (ad_CirculatingSupply p + n)" "ao_Properties ?ao = Some p"
      "s' = (mem1\<lparr>mem_asset := (mem_asset mem1)(r := ?ao\<lparr>ao_Properties := Some (p\<lparr>ad_CirculatingSupply := ad_CirculatingSupply p + n\<rparr>)\<rparr>)\<rparr>, ob)"
    using run by (auto simp: s1 read_then deref_def write_then Let_def split: option.splits)
  let ?ao' = "?ao\<lparr>ao_Properties := Some (p\<lparr>ad_CirculatingSupply := ad_CirculatingSupply p + n\<rparr>)\<rparr>"
  have "local_change a s s'" "cell_of a s' = cell_of a s \<or> cell_of a s' = Some (strip ?ao')"
    unfolding p(3) by (rule cursor_touch [OF c [unfolded s1], of _ ?ao']; simp add: s1)+
  moreover have "cell_of a s = Some (strip ?ao)" using c by (simp add: cursor_def)
  ultimately show "(same_holding (cell_of a s) (cell_of a s') \<and> (\<forall>e. forget res = Inl e \<longrightarrow> cell_of a s' = cell_of a s \<and> e = ErrAssetNotFound)) \<and> local_change a s s'"
    using p(1) by (auto simp: same_holding_def)
qed simp

lemma effects_SetAssetMetadata: "effects a (SetAssetMetadata a st k v) (\<lambda>c r c'. same_holding c c')"
  unfolding SetAssetMetadata_def
proof (rule effects_cursor)
  fix s s1 s' :: ostate and r res
  let ?ao = "mem_asset (fst s1) r"
  assume c: "cursor a s s1 r" and run: "gbind (read_asset r) (\<lambda>ao. if st
     then gbind (deref (updateStaticMetadata k v ao)) (\<lambda>(e, ao').
       gthen (write_asset r ao') (gthen (updateAssetTree a r) (gcheck e)))
     else gbind (deref (updateDynamicMetadata k v ao)) (\<lambda>ao'.
       gthen (write_asset r ao') (updateAssetTree a r))) s1 = Some (res, s')"
  have cell: "cell_of a s = Some (strip ?ao)" using c by (simp add: cursor_def)
  obtain q e where q: "gthen (write_asset r (?ao\<lparr>ao_Properties := q\<rparr>)) (gthen (updateAssetTree a r) (gcheck e)) s1 = Some (res, s')"
  proof (cases st)
    case True
    then show thesis using run that [of "ao_Properties ?ao"] that
      by (cases s1) (auto simp: read_then deref_def updateStaticMetadata_def split: option.splits if_splits)
  next
    case False
    then show thesis using run that [of _ None]
      by (cases s1) (auto simp: read_then deref_def updateDynamicMetadata_def gcheck_def split: option.splits)
  qed
  obtain s2 where "gcheck e s2 = Some (res, s')" "cell_of a s2 = Some (strip (?ao\<lparr>ao_Properties := q\<rparr>))" "local_change a s s2"
    by (rule cursor_write [OF c q])
  moreover from this(1) have "s' = s2" by (rule pure_opD [rotated]) simp
  ultimately show "same_holding (cell_of a s) (cell_of a s') \<and> local_change a s s'"
    using cell by (simp add: same_holding_def)
qed simp

text \<open>Setting the meta data of a token fails for a token the account does not hold, or a key that exists.\<close>

definition tagged :: "TokenID \<Rightarrow> Cell \<Rightarrow> state_error + unit \<Rightarrow> Cell \<Rightarrow> bool" where
  "tagged t c r c' \<longleftrightarrow> c' = c \<and> (\<forall>e v. r = Inl e \<and> c = Some v \<and> hasTokenID t v \<longrightarrow> e = ErrKeyExists)"

lemma hasTokenID_strip [simp]: "hasTokenID t (strip ao) = hasTokenID t ao"
  by (simp add: hasTokenID_def)

lemma effects_SetTokenMetadata: "effects a (SetTokenMetadata a t st k v) (tagged t)"
  unfolding SetTokenMetadata_def
proof (rule effects_cursor)
  fix s s1 s' :: ostate and r res
  let ?ao = "mem_asset (fst s1) r"
  let ?pick = "\<lambda>ao. case Option.bind (ao_TokenMetaData ao) (\<lambda>ms. map_of ms t) of
           Some m \<Rightarrow> gret m
         | None \<Rightarrow> gbind (deref (ao_TokenMetaData ao)) (\<lambda>ms.
             gbind (new_meta \<lparr>md_static = Some Map.empty, md_dynamic = Some Map.empty\<rparr>) (\<lambda>m.
             gthen (write_asset r (ao\<lparr>ao_TokenMetaData := Some (AList.update t (Some m) ms)\<rparr>)) (gret (Some m))))"
  let ?set = "\<lambda>m. if st then updateStaticTokenMetaData m k v else updateDynamicTokenMetaData m k v"
  assume c: "cursor a s s1 r" and run: "gbind (read_asset r) (\<lambda>ao.
     gthen (gguard (hasTokenID t ao) ErrTokenNotFound) (gbind (?pick ao) (\<lambda>p. gbind (deref p) (\<lambda>m. gbind (?set m) (\<lambda>e.
     gthen (updateAssetTree a r) (gcheck e)))))) s1 = Some (res, s')"
  have pick: "cursor a s s2 r \<and> (\<exists>p. y = Inr p)" if "?pick ?ao s1 = Some (y, s2)" for y s2
    using that c cursor_touch(2) [of a s "fst s1" "snd s1" r "fst s2"]
    by (cases s1) (auto simp: deref_def new_meta_def write_then gbind_def split: option.splits)
  have set: "cursor a s s3 r \<and> (y = Inr None \<or> y = Inr (Some ErrKeyExists))" if "cursor a s s2 r" "?set m s2 = Some (y, s3)" for m y s2 s3
    using that cursor_touch(2) [of a s "fst s2" "snd s2" r "fst s3" "mem_asset (fst s2) r"]
    by (cases s2) (auto simp: updateStaticTokenMetaData_def updateDynamicTokenMetaData_def Let_def deref_def write_meta_def
        gthen_def gbind_def split: option.splits if_splits)
  have enter: "cell_of a s' = cell_of a s \<and> local_change a s s'"
    if "cursor a s s3 r" "gthen (updateAssetTree a r) (gcheck e) s3 = Some (res, s')" for s3 e
    using that(2)
  proof (cases rule: gthen_cases)
    case (returns x s4)
    then have "s' = s4" using pure_opD [of "gcheck e"] by simp
    then show ?thesis using cursor_enter [OF that(1) returns(1)] by simp
  qed (use cursor_enter [OF that(1)] in auto)
  show "tagged t (cell_of a s) (forget res) (cell_of a s') \<and> local_change a s s'"
  proof (cases "hasTokenID t ?ao")
    case False
    then show ?thesis using run c by (simp add: read_then gguard_def tagged_def cursor_def)
  next
    case True
    then have "gbind (?pick ?ao) (\<lambda>p. gbind (deref p) (\<lambda>m. gbind (?set m) (\<lambda>e.
       gthen (updateAssetTree a r) (gcheck e)))) s1 = Some (res, s')"
      using run by (simp add: read_then gguard_def)
    then obtain p s2 where p: "cursor a s s2 r" and rest: "gbind (deref p) (\<lambda>m. gbind (?set m) (\<lambda>e.
       gthen (updateAssetTree a r) (gcheck e))) s2 = Some (res, s')"
      by (cases rule: gbind_cases) (use pick in auto)
    then obtain m where "gbind (?set m) (\<lambda>e. gthen (updateAssetTree a r) (gcheck e)) s2 = Some (res, s')"
      by (cases p) (auto simp: deref_def)
    then show ?thesis
    proof (cases rule: gbind_cases)
      case (error e)
      then show ?thesis using set [OF p error(1)] by simp
    next
      case (returns e s3)
      have e: "res = Inl d \<Longrightarrow> d = ErrKeyExists" for d
        using returns set [OF p returns(1)] by (cases s3) (auto simp: gthen_def gbind_def updateAssetTree_def gcheck_def)
      show ?thesis using set [OF p returns(1)] returns(2) enter [of s3 e] e by (auto simp: tagged_def)
    qed
  qed
qed (simp add: tagged_def)

end
