(* ===== verification/Asset_Totals.thy ===== *)
theory Asset_Totals
  imports Asset_Ledger
begin

text \<open>
  The ledger of a whole transition: the cell of every account and asset, the invariant that no two of
  them share an asset object, and what the operations of the asset engine do to the ledger, to the
  total of a token and to the signs of the amounts.
\<close>

section \<open>The ledger of a transition\<close>

type_synonym Ledger = "Identifier \<Rightarrow> Identifier \<Rightarrow> Cell"

definition ledger :: "Transition \<Rightarrow> Ledger" where
  "ledger tr i a = (case tr_objects tr i of None \<Rightarrow> None | Some ob \<Rightarrow> cell_of a (tr_mem tr, ob))"

definition tref :: "Transition \<Rightarrow> Identifier \<Rightarrow> Identifier \<Rightarrow> nat option" where
  "tref tr i a = Option.bind (tr_objects tr i) (\<lambda>ob. own_ref ob a)"

text \<open>The asset objects that the transactions point to are allocated, and no two pointers are equal.\<close>

definition wf_transition :: "Transition \<Rightarrow> bool" where
  "wf_transition tr \<longleftrightarrow> finite (dom (tr_objects tr))
     \<and> (\<forall>i a r. tref tr i a = Some r \<longrightarrow> r < mem_next (tr_mem tr))
     \<and> (\<forall>i a j b r. tref tr i a = Some r \<longrightarrow> tref tr j b = Some r \<longrightarrow> i = j \<and> a = b)"

definition put_cell :: "Identifier \<Rightarrow> Identifier \<Rightarrow> Cell \<Rightarrow> Ledger \<Rightarrow> Ledger" where
  "put_cell i a c L = L(i := (L i)(a := c))"

lemma put_cell_apply: "put_cell i a c L j b = (if j = i \<and> b = a then c else L j b)"
  by (simp add: put_cell_def)

lemma put_cell_same [simp]: "put_cell i a (L i a) L = L"
  by (simp add: put_cell_def)

lemma cell_of_frame:
  assumes "own_ref ob' b = own_ref ob b" "ob_assetTree ob' = ob_assetTree ob"
    and "\<And>r. own_ref ob b = Some r \<Longrightarrow> mem_asset mem' r = mem_asset mem r"
  shows "cell_of b (mem', ob') = cell_of b (mem, ob)"
  using assms by (simp add: cell_of.simps split: option.split)

text \<open>An operation on one account changes one cell and keeps the invariant.\<close>

lemma on_object_effects:
  assumes wf: "wf_transition tr" and eff: "effects a m P" and run: "on_object (InObjects i) m tr = Some (res, tr')"
  shows "wf_transition tr'" "dom (tr_objects tr') = dom (tr_objects tr)" "i \<in> dom (tr_objects tr)"
    "\<exists>c. ledger tr' = put_cell i a c (ledger tr) \<and> P (ledger tr i a) (forget res) c"
proof -
  obtain ob mem' ob' where ob: "tr_objects tr i = Some ob" and m: "m (tr_mem tr, ob) = Some (res, mem', ob')"
    and tr': "tr' = tr\<lparr>tr_mem := mem', tr_objects := (tr_objects tr)(i \<mapsto> ob')\<rparr>"
    using run by (auto simp: on_object_def split: option.splits)
  have owned: "owned a (tr_mem tr, ob)"
    using wf ob by (simp add: wf_transition_def tref_def owned.simps) (metis bind.bind_lunit)
  note eff = effectsD [OF eff owned m]
  have lc: "mem_next (tr_mem tr) \<le> mem_next mem'"
      "\<And>r. r < mem_next (tr_mem tr) \<Longrightarrow> own_ref ob a \<noteq> Some r \<Longrightarrow> mem_asset mem' r = mem_asset (tr_mem tr) r"
      "\<And>b. b \<noteq> a \<Longrightarrow> own_ref ob' b = own_ref ob b"
      "own_ref ob' a = own_ref ob a \<or> (\<exists>r. own_ref ob' a = Some r \<and> mem_next (tr_mem tr) \<le> r \<and> r < mem_next mem')"
      "ob_assetTree ob' = ob_assetTree ob"
    using eff(2) by (auto simp: local_change.simps)
  have fresh: "tref tr j b = Some r \<Longrightarrow> r < mem_next (tr_mem tr)" for j b r
    using wf by (auto simp: wf_transition_def)
  have uniq: "tref tr j b = Some r \<Longrightarrow> tref tr k c = Some r \<Longrightarrow> j = k \<and> b = c" for j b k c r
    using wf by (auto simp: wf_transition_def)
  have own: "tref tr i a = own_ref ob a" by (simp add: tref_def ob)
  have tref: "tref tr' j b = (if j = i \<and> b = a then own_ref ob' a else tref tr j b)" for j b
    using ob lc(3) by (auto simp: tref_def tr')
  have ref: "tref tr j b = Some r \<or> j = i \<and> b = a \<and> mem_next (tr_mem tr) \<le> r \<and> r < mem_next mem'"
    if "tref tr' j b = Some r" for j b r
    using that lc(4) own by (auto simp: tref split: if_splits)
  show "dom (tr_objects tr') = dom (tr_objects tr)" "i \<in> dom (tr_objects tr)" using ob by (auto simp: tr')
  show "wf_transition tr'"
    unfolding wf_transition_def
  proof (intro conjI allI impI)
    show "finite (dom (tr_objects tr'))" using wf by (simp add: tr' wf_transition_def)
    fix j b r assume 1: "tref tr' j b = Some r"
    show "r < mem_next (tr_mem tr')"
      using ref [OF 1] fresh [of j b r] lc(1) by (auto simp: tr')
    fix k c assume 2: "tref tr' k c = Some r"
    show "j = k" "b = c"
      using ref [OF 1] ref [OF 2] uniq [of j b r k c] fresh [of j b r] fresh [of k c r] by auto
  qed
  have frame: "ledger tr' j b = ledger tr j b" if other: "\<not> (j = i \<and> b = a)" for j b
  proof (cases "tr_objects tr' j")
    case None
    then show ?thesis using ob by (auto simp: ledger_def tr' split: if_splits)
  next
    case (Some obj)
    obtain old where old: "tr_objects tr j = Some old" "own_ref obj b = own_ref old b" "ob_assetTree obj = ob_assetTree old"
      using Some ob lc(3,5) other by (auto simp: tr' split: if_splits)
    have keep: "mem_asset mem' r = mem_asset (tr_mem tr) r" if "own_ref old b = Some r" for r
    proof -
      have "tref tr j b = Some r" using old that by (simp add: tref_def)
      then show ?thesis using lc(2) fresh uniq [of j b r i a] own other by metis
    qed
    show ?thesis
      using Some old cell_of_frame [OF old(2,3) keep] by (simp add: ledger_def) (simp add: tr')
  qed
  show "\<exists>c. ledger tr' = put_cell i a c (ledger tr) \<and> P (ledger tr i a) (forget res) c"
  proof (intro exI conjI)
    show "ledger tr' = put_cell i a (ledger tr' i a) (ledger tr)"
      using frame by (auto simp: fun_eq_iff put_cell_apply)
    show "P (ledger tr i a) (forget res) (ledger tr' i a)"
      using eff(1) ob by (simp add: ledger_def tr')
  qed
qed

section \<open>Checks\<close>

text \<open>A check leaves the ledger as it is; what it returns, or that it returns, says something of the
  ledger. Its errors are its own: none is \<^verbatim>\<open>ErrKeyExists\<close>.\<close>

named_theorems observations

definition observes :: "Identifier set \<Rightarrow> (Transition, 'a) gom \<Rightarrow> ('a \<Rightarrow> Ledger \<Rightarrow> bool) \<Rightarrow> bool" where
  "observes D m Q \<longleftrightarrow> (\<forall>tr res tr'. wf_transition tr \<longrightarrow> dom (tr_objects tr) = D \<longrightarrow> m tr = Some (res, tr') \<longrightarrow>
     wf_transition tr' \<and> dom (tr_objects tr') = D \<and> ledger tr' = ledger tr
     \<and> (\<forall>x. res = Inr x \<longrightarrow> Q x (ledger tr)) \<and> res \<noteq> Inl ErrKeyExists)"

lemma observesD:
  assumes "observes D m Q" "wf_transition tr" "dom (tr_objects tr) = D" "m tr = Some (res, tr')"
  shows "wf_transition tr'" "dom (tr_objects tr') = D" "ledger tr' = ledger tr" "\<And>x. res = Inr x \<Longrightarrow> Q x (ledger tr)"
    "res \<noteq> Inl ErrKeyExists"
  using assms unfolding observes_def by blast+

lemma observes_gbind:
  assumes m: "observes D m Q" and f: "\<And>x. observes D (f x) (\<lambda>y L. Q x L \<longrightarrow> R y L)"
  shows "observes D (gbind m f) R"
  unfolding observes_def
proof (intro allI impI)
  fix tr res tr'
  assume tr: "wf_transition tr" "dom (tr_objects tr) = D" and "gbind m f tr = Some (res, tr')"
  from this(3) show "wf_transition tr' \<and> dom (tr_objects tr') = D \<and> ledger tr' = ledger tr
     \<and> (\<forall>x. res = Inr x \<longrightarrow> R x (ledger tr)) \<and> res \<noteq> Inl ErrKeyExists"
  proof (cases rule: gbind_cases)
    case (error e)
    then show ?thesis using observesD [OF m tr error(1)] by auto
  next
    case (returns x tr1)
    note 1 = observesD [OF m tr returns(1)]
    show ?thesis using observesD [OF f 1(1,2) returns(2)] 1 by auto
  qed
qed

lemma observes_mono: "observes D m Q \<Longrightarrow> (\<And>x L. Q x L \<Longrightarrow> R x L) \<Longrightarrow> observes D m R"
  unfolding observes_def by blast

lemma observes_gthen:
  assumes "observes D m Q" "observes D n (\<lambda>y L. (\<exists>x. Q x L) \<longrightarrow> R y L)"
  shows "observes D (gthen m n) R"
  unfolding gthen_def by (rule observes_gbind [OF assms(1)], rule observes_mono [OF assms(2)]) blast

lemma observes_simple:
  "observes D (gret x) (\<lambda>y L. y = x)"
  "e \<noteq> ErrKeyExists \<Longrightarrow> observes D (gerr e) R"
  "e \<noteq> ErrKeyExists \<Longrightarrow> observes D (gguard b e) (\<lambda>_ _. b)"
  "observes D (deref p) (\<lambda>y L. p = Some y)"
  by (simp_all add: observes_def gguard_def gcheck_def deref_def split: option.split)

lemma observes_gcheck: "eo \<noteq> Some ErrKeyExists \<Longrightarrow> observes D (gcheck eo) (\<lambda>_ _. eo = None)"
  by (cases eo) (auto simp: observes_def gcheck_def)

lemma observes_gcatch:
  assumes "observes D m Q" and h: "\<And>e. observes D (h e) R" and "\<And>x L. Q x L \<Longrightarrow> R x L"
  shows "observes D (gcatch m h) R"
  unfolding observes_def
proof (intro allI impI)
  fix tr res tr'
  assume tr: "wf_transition tr" "dom (tr_objects tr) = D" and "gcatch m h tr = Some (res, tr')"
  from this(3) show "wf_transition tr' \<and> dom (tr_objects tr') = D \<and> ledger tr' = ledger tr
     \<and> (\<forall>x. res = Inr x \<longrightarrow> R x (ledger tr)) \<and> res \<noteq> Inl ErrKeyExists"
  proof (cases rule: gcatch_cases)
    case (error e tr1)
    note 1 = observesD [OF assms(1) tr error(1)]
    show ?thesis using observesD [OF h 1(1,2) error(2)] 1 by auto
  next
    case (returns x)
    then show ?thesis using observesD [OF assms(1) tr returns(1)] assms(3) by auto
  qed
qed

lemma observes_GetObject:
  "observes D (tr_GetObject i) (\<lambda>ptr L. ptr = InObjects i)"
  "observes D (GetAuxiliaryObject i) (\<lambda>ptr L. ptr = InAuxiliary i)"
  by (auto simp: observes_def tr_GetObject_def GetAuxiliaryObject_def split: option.splits)

text \<open>The errors of an operation that is not about assets come from the trees; the checks replace them.\<close>

definition keeps :: "Identifier set \<Rightarrow> (Transition, 'a) gom \<Rightarrow> bool" where
  "keeps D m \<longleftrightarrow> (\<forall>tr res tr'. wf_transition tr \<longrightarrow> dom (tr_objects tr) = D \<longrightarrow> m tr = Some (res, tr') \<longrightarrow>
     wf_transition tr' \<and> dom (tr_objects tr') = D \<and> ledger tr' = ledger tr)"

lemma keepsD:
  assumes "keeps D m" "wf_transition tr" "dom (tr_objects tr) = D" "m tr = Some (res, tr')"
  shows "wf_transition tr'" "dom (tr_objects tr') = D" "ledger tr' = ledger tr"
  using assms unfolding keeps_def by blast+

lemma same_state:
  assumes "tr_mem tr' = tr_mem tr" "tr_objects tr' = tr_objects tr"
  shows "ledger tr' = ledger tr" "wf_transition tr' = wf_transition tr"
proof -
  have "tref tr' = tref tr" by (intro ext) (simp only: tref_def assms)
  then show "wf_transition tr' = wf_transition tr" by (simp only: wf_transition_def assms)
  show "ledger tr' = ledger tr" by (intro ext) (simp only: ledger_def assms)
qed

lemma keeps_inert:
  assumes "inert m"
  shows "keeps D (on_object ptr m)"
  unfolding keeps_def
proof (intro allI impI)
  fix tr res tr'
  assume wf: "wf_transition tr" and D: "dom (tr_objects tr) = D" and run: "on_object ptr m tr = Some (res, tr')"
  show "wf_transition tr' \<and> dom (tr_objects tr') = D \<and> ledger tr' = ledger tr"
  proof (cases ptr)
    case (InObjects i)
    then show ?thesis
      using on_object_effects [OF wf inert_effects [OF assms], of i res tr'] run D by (auto simp: same_cell_def)
  next
    case (InAuxiliary i)
    obtain ob mem' ob' where ob: "m (tr_mem tr, ob) = Some (res, mem', ob')"
      and tr': "tr' = tr\<lparr>tr_mem := mem', tr_auxiliaryObjects := (tr_auxiliaryObjects tr)(i \<mapsto> ob')\<rparr>"
      using run by (auto simp: InAuxiliary on_object_def split: option.splits)
    have "tr_mem tr' = tr_mem tr" "tr_objects tr' = tr_objects tr" using inertD(1) [OF assms ob] by (simp_all add: tr')
    from same_state [OF this] show ?thesis using wf D by (simp add: tr')
  qed
qed

lemma observes_guarded:
  assumes "keeps D m" "\<And>e. observes D (h e) R" "\<And>x L. R x L"
  shows "observes D (gcatch m h) R"
  unfolding observes_def
proof (intro allI impI)
  fix tr res tr'
  assume tr: "wf_transition tr" "dom (tr_objects tr) = D" and "gcatch m h tr = Some (res, tr')"
  from this(3) show "wf_transition tr' \<and> dom (tr_objects tr') = D \<and> ledger tr' = ledger tr
     \<and> (\<forall>x. res = Inr x \<longrightarrow> R x (ledger tr)) \<and> res \<noteq> Inl ErrKeyExists"
  proof (cases rule: gcatch_cases)
    case (error e tr1)
    note 1 = keepsD [OF assms(1) tr error(1)]
    show ?thesis using observesD [OF assms(2) 1(1,2) error(2)] 1 by auto
  next
    case (returns x)
    then show ?thesis using keepsD [OF assms(1) tr returns(1)] assms(3) by auto
  qed
qed

lemma observes_Identifier: "observes D (Object_Identifier ptr) (\<lambda>_ _. True)"
  unfolding observes_def
proof (intro allI impI)
  fix tr res tr'
  assume tr: "wf_transition tr" "dom (tr_objects tr) = D" and run: "Object_Identifier ptr tr = Some (res, tr')"
  have "\<exists>x. res = Inr x"
    using run by (auto simp: Object_Identifier_def on_object_def split: ObjectPtr.splits option.splits)
  then show "wf_transition tr' \<and> dom (tr_objects tr') = D \<and> ledger tr' = ledger tr
     \<and> (\<forall>x. res = Inr x \<longrightarrow> True) \<and> res \<noteq> Inl ErrKeyExists"
    using keepsD [OF keeps_inert [OF inert_ops(6)] tr, of ptr res tr'] run by (auto simp: Object_Identifier_def)
qed

text \<open>What an operation reads in a cell.\<close>

definition sees :: "Identifier \<Rightarrow> (ostate, 'a) gom \<Rightarrow> ('a \<Rightarrow> unit AssetObject \<Rightarrow> bool) \<Rightarrow> bool" where
  "sees a m Q \<longleftrightarrow> effects a m same_cell \<and> (\<forall>s res s'. owned a s \<longrightarrow> m s = Some (res, s') \<longrightarrow>
     (\<forall>x. res = Inr x \<longrightarrow> (\<exists>v. cell_of a s = Some v \<and> Q x v)) \<and> res \<noteq> Inl ErrKeyExists)"

lemma sees_fetch:
  assumes "\<And>ao. pure_op (h ao)"
    and h: "\<And>ao s res s'. h ao s = Some (res, s') \<Longrightarrow> (\<forall>x. res = Inr x \<longrightarrow> Q x (strip ao)) \<and> res \<noteq> Inl ErrKeyExists"
  shows "sees a (gbind (fetch_asset a) (\<lambda>r. gbind (read_asset r) h)) Q"
  unfolding sees_def
proof (intro conjI allI impI)
  show "effects a (gbind (fetch_asset a) (\<lambda>r. gbind (read_asset r) h)) same_cell" by (rule effects_fetch) fact
  fix s res s'
  assume s: "owned a s" and run: "gbind (fetch_asset a) (\<lambda>r. gbind (read_asset r) h) s = Some (res, s')"
  have *: "(\<forall>x. res = Inr x \<longrightarrow> (\<exists>v. cell_of a s = Some v \<and> Q x v)) \<and> res \<noteq> Inl ErrKeyExists"
    using run
  proof (cases rule: gbind_cases)
    case (error e)
    then show ?thesis using fetch_asset_run [OF s error(1)] by auto
  next
    case (returns r s1)
    have "cell_of a s = Some (strip (mem_asset (fst s1) r))"
      using fetch_asset_run [OF s returns(1)] by (auto simp: cursor_def)
    then show ?thesis using h [of "mem_asset (fst s1) r" s1 res s'] returns(2) by (simp add: read_then)
  qed
  then show "res \<noteq> Inl ErrKeyExists" by simp
  fix x assume "res = Inr x"
  then show "\<exists>v. cell_of a s = Some v \<and> Q x v" using * by simp
qed

lemma sees_reads:
  "sees a (GetLockup a t i) (\<lambda>x v. allowance (ao_Lockup v) i t = Some x)"
  "sees a (GetMandate a t i) (\<lambda>x v. allowance (ao_Mandate v) i t = Some x)"
  "sees a (GetProperties a) (\<lambda>x v. ao_Properties v = x)"
  "sees a (gbind (fetch_asset a) read_asset) (\<lambda>x v. strip x = v)"
proof -
  have "read_asset = (\<lambda>r. gbind (read_asset r) gret)"
    by (auto simp: fun_eq_iff gbind_def gret_def read_asset_def)
  then have "gbind (fetch_asset a) read_asset = gbind (fetch_asset a) (\<lambda>r. gbind (read_asset r) gret)" by simp
  then show "sees a (gbind (fetch_asset a) read_asset) (\<lambda>x v. strip x = v)" by (simp only:) (rule sees_fetch, auto)
qed (auto simp: GetLockup_def GetMandate_def GetProperties_def intro!: sees_fetch split: option.splits)

lemma observes_on_object:
  assumes "sees a m Q"
  shows "observes D (on_object (InObjects i) m) (\<lambda>x L. \<exists>v. L i a = Some v \<and> Q x v)"
  unfolding observes_def
proof (intro allI impI)
  fix tr res tr'
  assume wf: "wf_transition tr" and D: "dom (tr_objects tr) = D" and run: "on_object (InObjects i) m tr = Some (res, tr')"
  obtain ob mem' ob' where ob: "tr_objects tr i = Some ob" and m: "m (tr_mem tr, ob) = Some (res, mem', ob')"
    using run by (auto simp: on_object_def split: option.splits)
  have "owned a (tr_mem tr, ob)"
    using wf ob by (simp add: wf_transition_def tref_def owned.simps) (metis bind.bind_lunit)
  then have "(\<forall>x. res = Inr x \<longrightarrow> (\<exists>v. cell_of a (tr_mem tr, ob) = Some v \<and> Q x v)) \<and> res \<noteq> Inl ErrKeyExists"
    using assms m unfolding sees_def by blast
  moreover have "cell_of a (tr_mem tr, ob) = ledger tr i a" by (simp add: ledger_def ob)
  moreover have "effects a m same_cell" using assms by (simp add: sees_def)
  note on_object_effects [OF wf this run]
  ultimately show "wf_transition tr' \<and> dom (tr_objects tr') = D \<and> ledger tr' = ledger tr
     \<and> (\<forall>x. res = Inr x \<longrightarrow> (\<exists>v. ledger tr i a = Some v \<and> Q x v)) \<and> res \<noteq> Inl ErrKeyExists"
    using D by (auto simp: same_cell_def)
qed

lemmas observes_reads = sees_reads [THEN observes_on_object]

lemma observes_fetched: "observes D (fetched (InObjects i) a) (\<lambda>ao L. L i a = Some (strip ao))"
  unfolding fetched_def by (rule observes_mono [OF observes_reads(4)]) auto

section \<open>The checks of the engine\<close>

definition has_funds :: "Identifier \<Rightarrow> Identifier \<Rightarrow> TokenID \<Rightarrow> int \<Rightarrow> Ledger \<Rightarrow> bool" where
  "has_funds i a t n L \<longleftrightarrow> (\<exists>v bal. L i a = Some v \<and> map_of (ao_Balance v) t = Some bal \<and> n \<le> bal)"

lemma observes_HasBalance:
  "observes D (gbind (fetched (InObjects i) a) (\<lambda>ao. gcheck (HasBalance t n ao))) (\<lambda>_ L. has_funds i a t n L)"
  by (rule observes_gbind [OF observes_fetched], rule observes_mono [OF observes_gcheck])
    (auto simp: HasBalance_def has_funds_def split: option.splits if_splits)

text \<open>Rules for the steps of a check.\<close>

lemma observes_guard_then [observations]:
  assumes "e \<noteq> ErrKeyExists" "b \<Longrightarrow> observes D m R"
  shows "observes D (gthen (gguard b e) m) R"
proof (cases b)
  case True
  then show ?thesis using assms(2) by (simp add: gguard_def)
next
  case False
  then show ?thesis using observes_simple(2) [OF assms(1)] by (simp add: gguard_def)
qed

lemma observes_guard_last [observations]:
  assumes "e \<noteq> ErrKeyExists" "\<And>L. b \<Longrightarrow> R () L"
  shows "observes D (gguard b e) R"
  by (rule observes_mono [OF observes_simple(3) [OF assms(1)]]) (metis assms(2) old.unit.exhaust)

lemma observes_deref_then [observations]:
  assumes "\<And>x. p = Some x \<Longrightarrow> observes D (f x) R"
  shows "observes D (gbind (deref p) f) R"
proof (cases p)
  case None
  then show ?thesis by (simp add: deref_def observes_def)
next
  case (Some x)
  then show ?thesis using assms [of x] by (simp add: deref_def)
qed

lemma observes_Identifier_then [observations]:
  "(\<And>x. observes D (f x) R) \<Longrightarrow> observes D (gbind (Object_Identifier ptr) f) R"
  by (rule observes_gbind [OF observes_Identifier]) simp

lemma observes_fetched_then:
  "(\<And>ao. observes D (f ao) (\<lambda>y L. L i a = Some (strip ao) \<longrightarrow> R y L)) \<Longrightarrow> observes D (gbind (fetched (InObjects i) a) f) R"
  by (rule observes_gbind [OF observes_fetched])

lemma observes_properties_then [observations]:
  "(\<And>p. observes D (f p) (\<lambda>y L. (\<exists>v. L i a = Some v \<and> ao_Properties v = p) \<longrightarrow> R y L))
    \<Longrightarrow> observes D (gbind (on_object (InObjects i) (GetProperties a)) f) R"
  by (rule observes_gbind [OF observes_reads(3)])

lemma observes_catch_then:
  assumes "inert m" "\<And>x. observes D (f x) R" "\<And>e. observes D (h e) (\<lambda>_ _. True)"
  shows "observes D (gbind (gcatch (on_object ptr m) h) f) R"
  by (rule observes_gbind [OF observes_guarded [OF keeps_inert [OF assms(1)] assms(3)]]) (simp_all add: assms(2))

lemma observes_transfer:
  "observes D (validateAssetTransfer env (InObjects i) c s a t n acc) (\<lambda>_ L. 1 \<le> n \<and> has_funds i a t n L)"
  unfolding validateAssetTransfer_def
  by (intro observations observes_catch_then [OF inert_registration(2)] observes_mono [OF observes_HasBalance]
      observes_mono [OF observes_simple(1)]) simp_all

lemma observes_approve: "observes D (validateAssetApprove (InObjects i) a t n acc) (\<lambda>_ L. 1 \<le> n)"
  unfolding validateAssetApprove_def
  by (intro observes_Identifier_then observes_guard_then observes_mono [OF observes_HasBalance]) simp_all

lemma observes_lockup: "observes D (validateAssetLockup (InObjects i) b a t n acc) (\<lambda>_ L. 1 \<le> n \<and> has_funds i a t n L)"
  unfolding validateAssetLockup_def
  by (intro observes_Identifier_then observes_guard_then observes_mono [OF observes_HasBalance]) simp_all

lemma observes_revoke: "observes D (validateAssetRevoke (InObjects i) b a t acc) (\<lambda>_ _. True)"
  unfolding validateAssetRevoke_def
  by (intro observes_Identifier_then observes_guard_then observes_gthen [OF observes_reads(2)] observes_mono [OF observes_simple(1)])
    simp_all

lemma observes_mint:
  "observes D (validateAssetMint sid bid (InObjects i) a n acc) (\<lambda>_ L. 1 \<le> n \<and> hasMutateAccess acc [bid]
     \<and> (\<exists>v p. L i a = Some v \<and> ao_Properties v = Some p \<and> ad_Manager p = sid \<and> ad_CirculatingSupply p + n \<le> ad_MaxSupply p))"
  unfolding validateAssetMint_def
  by (intro observes_guard_then observes_properties_then observes_deref_then observes_guard_last)
    (auto simp: hasMutateAccess_def)

lemma observes_consume:
  "observes D (validateAssetConsume env opr c (InObjects i) s a t n acc) (\<lambda>_ L. has_funds i a t n L
     \<and> (\<exists>v m. L i a = Some v \<and> allowance (ao_Mandate v) opr t = Some m \<and> n \<le> aw_Amount m \<and> ae_now env \<le> aw_ExpiresAt m))"
  unfolding validateAssetConsume_def
proof (intro observes_Identifier_then)
  fix ci bi
  let ?R = "\<lambda>_ L. has_funds i a t n L \<and> (\<exists>v m. L i a = Some v \<and> allowance (ao_Mandate v) opr t = Some m \<and> n \<le> aw_Amount m \<and> ae_now env \<le> aw_ExpiresAt m)"
  let ?mandate = "\<lambda>ao. case allowance (ao_Mandate ao) opr t of
        None \<Rightarrow> gerr ErrMandateNotFound
      | Some mandate \<Rightarrow>
          gthen (gguard (\<not> aw_ExpiresAt mandate < ae_now env) ErrMandateExpired)
            (gguard (\<not> aw_Amount mandate < n) ErrInsufficientFunds)"
  have registered: "keeps D (gthen (on_object s (GetStorageEntry (SargaAccountID (ae_GetHash env)) ci)) (gret ()))"
    unfolding keeps_def
  proof (intro allI impI)
    fix tr res tr'
    assume tr: "wf_transition tr" "dom (tr_objects tr) = D"
      and "gthen (on_object s (GetStorageEntry (SargaAccountID (ae_GetHash env)) ci)) (gret ()) tr = Some (res, tr')"
    from this(3) show "wf_transition tr' \<and> dom (tr_objects tr') = D \<and> ledger tr' = ledger tr"
      by (cases rule: gthen_cases) (use keepsD [OF keeps_inert [OF inert_ops(5)] tr] in fastforce)+
  qed
  have mandate: "observes D (?mandate ao) (\<lambda>_ L. L i a = Some (strip ao) \<longrightarrow> has_funds i a t n L \<longrightarrow> ?R () L)" for ao
  proof (cases "allowance (ao_Mandate ao) opr t")
    case None
    then show ?thesis by (simp add: observes_simple(2))
  next
    case (Some m)
    then show ?thesis
      by (simp only: option.case) (intro observes_guard_then observes_guard_last, auto)
  qed
  have funds: "observes D (gthen (gcheck (HasBalance t n ao)) (?mandate ao)) (\<lambda>_ L. L i a = Some (strip ao) \<longrightarrow> ?R () L)" for ao
    by (rule observes_gthen [OF observes_gcheck], simp add: HasBalance_def split: option.split, rule observes_mono [OF mandate])
      (auto simp: HasBalance_def has_funds_def split: option.splits if_splits)
  show "observes D (gthen (gcatch (gthen (on_object s (GetStorageEntry (SargaAccountID (ae_GetHash env)) ci)) (gret ()))
            (\<lambda>_. gerr ErrBeneficiaryNotRegistered))
     (gthen (gguard (hasMutateAccess acc [ci, bi]) ErrInvalidAccess) (gbind (fetched (InObjects i) a) (\<lambda>ao.
       gthen (gcheck (HasBalance t n ao)) (?mandate ao))))) ?R"
    by (rule observes_gthen [OF observes_guarded [OF registered observes_simple(2), of _ "\<lambda>_ _. True"]], simp, simp)
      (intro observes_guard_then observes_fetched_then, simp, rule observes_mono [OF funds], simp)
qed

lemma observes_burn:
  "observes D (validateAssetBurn (InObjects i) (InObjects j) a t n acc) (\<lambda>_ L. 1 \<le> n \<and> has_funds i a t n L
     \<and> (\<exists>v p. L j a = Some v \<and> ao_Properties v = Some p))"
proof -
  have last: "observes D (case map_of (ao_Balance ao) t of
       None \<Rightarrow> gerr ErrTokenNotFound
     | Some bal \<Rightarrow> gthen (gguard (\<not> n < 1) ErrInvalidAmount) (gguard (\<not> bal < n) ErrInsufficientFunds))
     (\<lambda>_ L. L i a = Some (strip ao) \<longrightarrow> 1 \<le> n \<and> has_funds i a t n L)" for ao
  proof (cases "map_of (ao_Balance ao) t")
    case None
    then show ?thesis by (simp add: observes_simple(2))
  next
    case (Some bal)
    then show ?thesis
      by (simp only: option.case) (intro observes_guard_then observes_guard_last, auto simp: has_funds_def)
  qed
  show ?thesis
    unfolding validateAssetBurn_def
    by (intro observes_Identifier_then observes_guard_then observes_properties_then observes_deref_then observes_fetched_then
        observes_mono [OF last]) auto
qed

lemma observes_release:
  "observes D (validateAssetRelease opr (InObjects i) b a t n acc)
     (\<lambda>_ L. \<exists>v m. L i a = Some v \<and> allowance (ao_Lockup v) opr t = Some m \<and> n \<le> aw_Amount m)"
proof -
  have "observes D (gcatch (on_object (InObjects i) (GetLockup a t opr)) (\<lambda>_. gerr ErrLockupNotFound))
      (\<lambda>x L. \<exists>v. L i a = Some v \<and> allowance (ao_Lockup v) opr t = Some x)"
    by (rule observes_gcatch [OF observes_reads(1) observes_simple(2)]) auto
  then show ?thesis
    unfolding validateAssetRelease_def
    by (intro observes_Identifier_then observes_guard_then) (auto elim!: observes_gbind intro!: observes_guard_last)
qed

lemma observes_metadata:
  "observes D (validateSetMetaData (InObjects i) a b acc) (\<lambda>_ _. True)"
  "observes D (validateSetTokenMetaData b acc) (\<lambda>_ _. True)"
  unfolding validateSetMetaData_def validateSetTokenMetaData_def
  by (intro observes_guard_then observes_properties_then observes_deref_then observes_guard_last, simp_all)+

section \<open>What a cell holds\<close>

definition amount_of :: "AmountWithExpiry option \<Rightarrow> int" where
  "amount_of x = (case x of None \<Rightarrow> 0 | Some a \<Rightarrow> aw_Amount a)"

definition locked :: "TokenID \<Rightarrow> Allowances \<Rightarrow> int" where
  "locked t as = (\<Sum>i\<in>fst ` set as. amount_of (allowance as i t))"

fun held :: "TokenID \<Rightarrow> Cell \<Rightarrow> int" where
  "held t None = 0"
| "held t (Some v) = GetBalance t v + locked t (ao_Lockup v)"

fun good :: "Cell \<Rightarrow> bool" where
  "good None \<longleftrightarrow> True"
| "good (Some v) \<longleftrightarrow> (\<forall>t. 0 \<le> GetBalance t v) \<and> (\<forall>i t. 0 \<le> amount_of (allowance (ao_Lockup v) i t))
     \<and> (\<forall>i t. 0 \<le> amount_of (allowance (ao_Mandate v) i t))"

lemma allowance_put: "allowance (put_allowance i t a as) j u = (if j = i \<and> u = t then Some a else allowance as j u)"
  by (auto simp: allowance_def put_allowance_def update_conv' split: option.split)

lemma allowance_drop: "allowance (drop_allowance i t as) j u = (if j = i \<and> u = t then None else allowance as j u)"
proof (cases "map_of as i")
  case None
  then show ?thesis by (auto simp: allowance_def drop_allowance_def delete_conv')
next
  case (Some tokens)
  have "map_of tokens u = None" if "AList.delete t tokens = []" "u \<noteq> t"
    using that delete_conv' [of t tokens] by (metis fun_upd_other map_of.simps(1))
  then show ?thesis using Some by (auto simp: allowance_def drop_allowance_def Let_def delete_conv' update_conv')
qed

lemma amount_of_simps [simp]: "amount_of None = 0" "amount_of (Some a) = aw_Amount a"
  by (simp_all add: amount_of_def)

lemma amount_cut:
  "allowance as i t = Some a \<Longrightarrow> amount_of (allowance (cut_allowance i t n a as) j u)
     = (if j = i \<and> u = t then aw_Amount a - n else amount_of (allowance as j u))"
  by (auto simp: cut_allowance_def allowance_put allowance_drop)

lemma locked_eq:
  assumes "finite K" "fst ` set as \<subseteq> K"
  shows "locked t as = (\<Sum>i\<in>K. amount_of (allowance as i t))"
  unfolding locked_def
proof (rule sum.mono_neutral_left [OF assms])
  show "\<forall>i\<in>K - fst ` set as. amount_of (allowance as i t) = 0"
    by (auto simp: allowance_def dest: map_of_SomeD split: option.split)
      (metis amount_of_simps(1) bind.bind_lzero map_of_eq_None_iff)
qed

lemma locked_update:
  assumes "\<And>j. j \<noteq> i \<Longrightarrow> amount_of (allowance as' j t) = amount_of (allowance as j t)"
  shows "locked t as' = locked t as + amount_of (allowance as' i t) - amount_of (allowance as i t)"
proof -
  let ?K = "insert i (fst ` set as \<union> fst ` set as')"
  have "locked t as' = amount_of (allowance as' i t) + (\<Sum>j\<in>?K - {i}. amount_of (allowance as' j t))"
    using locked_eq [of ?K as' t] sum.remove [of ?K i "\<lambda>j. amount_of (allowance as' j t)"] by auto
  moreover have "locked t as = amount_of (allowance as i t) + (\<Sum>j\<in>?K - {i}. amount_of (allowance as j t))"
    using locked_eq [of ?K as t] sum.remove [of ?K i "\<lambda>j. amount_of (allowance as j t)"] by auto
  moreover have "(\<Sum>j\<in>?K - {i}. amount_of (allowance as' j t)) = (\<Sum>j\<in>?K - {i}. amount_of (allowance as j t))"
    by (rule sum.cong) (use assms in auto)
  ultimately show ?thesis by simp
qed

lemma GetBalance_put_or_drop:
  "GetBalance u (v\<lparr>ao_Balance := put_or_drop t n (ao_Balance v)\<rparr>) = (if u = t then n else GetBalance u v)"
  by (auto simp: GetBalance_def put_or_drop_def update_conv' delete_conv')

lemma GetBalance_Some: "map_of (ao_Balance v) t = Some bal \<Longrightarrow> GetBalance t v = bal"
  by (simp add: GetBalance_def)

lemma GetBalance_credit: "GetBalance t (credit t n v) = GetBalance t v + n"
  by (simp add: GetBalance_def credit_def update_conv' split: option.split)

lemma GetBalance_credit_other: "u \<noteq> t \<Longrightarrow> GetBalance u (credit t n v) \<in> {0, GetBalance u v}"
  by (simp add: GetBalance_def credit_def update_conv' split: option.split)

lemma GetBalance_fields [simp]:
  "GetBalance t (v\<lparr>ao_Lockup := x\<rparr>) = GetBalance t v"
  "GetBalance t (v\<lparr>ao_Mandate := x\<rparr>) = GetBalance t v"
  "GetBalance t (v\<lparr>ao_Properties := p\<rparr>) = GetBalance t v"
  "GetBalance t (v\<lparr>ao_Balance := b, ao_Lockup := x\<rparr>) = GetBalance t (v\<lparr>ao_Balance := b\<rparr>)"
  by (simp_all add: GetBalance_def)

lemma credit_fields [simp]:
  "ao_Lockup (credit t n v) = ao_Lockup v" "ao_Mandate (credit t n v) = ao_Mandate v"
  by (simp_all add: credit_def split: option.split)

lemma blank_fields [simp]:
  "ao_Lockup (blank p) = []" "ao_Mandate (blank p) = []" "GetBalance t (blank p) = 0" "locked t [] = 0" "allowance [] i t = None"
  by (simp_all add: blank_def GetBalance_def locked_def allowance_def)

text \<open>A fair operation: by how much it changes what is held of a token, and when it keeps all amounts
  non-negative.\<close>

definition fair :: "TokenID \<Rightarrow> int \<Rightarrow> (unit AssetObject \<Rightarrow> bool) \<Rightarrow> Cell \<Rightarrow> state_error + unit \<Rightarrow> Cell \<Rightarrow> bool" where
  "fair t d pre c r c' \<longleftrightarrow> held t c' = held t c + (if r = Inr () then d else 0)
     \<and> (good c \<and> (\<forall>v. c = Some v \<longrightarrow> pre v) \<longrightarrow> good c')"

lemma fair_mutate:
  assumes "cell_mutate h c = Some (r, c')"
    and "\<And>v v'. h v = Some (Inr v') \<Longrightarrow> held t (Some v') = held t (Some v) + d"
    and "\<And>v v'. h v = Some (Inr v') \<Longrightarrow> pre v \<Longrightarrow> good (Some v) \<Longrightarrow> good (Some v')"
  shows "fair t d pre c r c'"
  using assms by (auto simp: cell_mutate_def fair_def simp del: held.simps good.simps split: option.splits sum.splits)

definition funded :: "TokenID \<Rightarrow> int \<Rightarrow> unit AssetObject \<Rightarrow> bool" where
  "funded t n v \<longleftrightarrow> n \<le> GetBalance t v"

lemma fair_SubBalance: "effects a (SubBalance a t n) (fair t (- n) (funded t n))"
proof (rule effects_mono [OF refines_effects [OF refines_SubBalance]])
  fix c r c' assume "cell_mutate (cell_sub t n) c = Some (r, c')"
  then show "fair t (- n) (funded t n) c r c'"
    by (rule fair_mutate)
      (auto simp: cell_sub_def funded_def GetBalance_put_or_drop GetBalance_Some split: option.splits)
qed

lemma fair_AddBalance: "effects a (AddBalance a t n md) (\<lambda>c r c'. r = Inr () \<and> held t c' = held t c + n
    \<and> (0 \<le> n \<and> good c \<longrightarrow> good c') \<and> (\<exists>v. c' = Some v \<and> hasTokenID t v))"
proof (rule effects_mono [OF effects_AddBalance])
  fix c r c' assume *: "cell_add t n c = Some (r, c')"
  define v where "v = (case c of None \<Rightarrow> blank None | Some v \<Rightarrow> v)"
  have c': "r = Inr ()" "c' = Some (credit t n v)" using * by (auto simp: cell_add_def v_def)
  have v: "held t (Some v) = held t c" "good c \<Longrightarrow> good (Some v)" by (auto simp: v_def split: option.split)
  have "0 \<le> GetBalance u (credit t n v)" if "0 \<le> n" "good (Some v)" for u
    using that GetBalance_credit_other [of u t n v] GetBalance_credit [of t n v] by (cases "u = t") auto
  moreover have "hasTokenID t (credit t n v)"
    by (simp add: hasTokenID_def credit_def update_conv' split: option.split)
  ultimately show "r = Inr () \<and> held t c' = held t c + n \<and> (0 \<le> n \<and> good c \<longrightarrow> good c') \<and> (\<exists>v. c' = Some v \<and> hasTokenID t v)"
    using v by (auto simp: c' GetBalance_credit)
qed

lemma fair_CreateLockup: "effects a (CreateLockup a t i n) (fair t 0 (\<lambda>v. 0 \<le> n \<and> funded t n v))"
proof (rule effects_mono [OF refines_effects [OF refines_CreateLockup]])
  have cell: "\<exists>bal lockup. map_of (ao_Balance v) t = Some bal \<and> aw_Amount lockup = amount_of (allowance (ao_Lockup v) i t) + n
      \<and> v' = v\<lparr>ao_Balance := put_or_drop t (bal - n) (ao_Balance v), ao_Lockup := put_allowance i t lockup (ao_Lockup v)\<rparr>"
    if lock: "cell_lock t i n v = Some (Inr v')" for v v'
  proof -
    obtain bal lockup where bal: "map_of (ao_Balance v) t = Some bal"
      and lockup: "(case map_of (ao_Lockup v) i of None \<Rightarrow> Some \<lparr>aw_Amount = n, aw_ExpiresAt = 0\<rparr>
          | Some lockups \<Rightarrow> map_option (\<lambda>l. \<lparr>aw_Amount = aw_Amount l + n, aw_ExpiresAt = aw_ExpiresAt l\<rparr>) (map_of lockups t)) = Some lockup"
      and v': "v' = v\<lparr>ao_Balance := put_or_drop t (bal - n) (ao_Balance v), ao_Lockup := put_allowance i t lockup (ao_Lockup v)\<rparr>"
      using lock unfolding cell_lock_def by (cases "map_of (ao_Balance v) t") auto
    have "aw_Amount lockup = amount_of (allowance (ao_Lockup v) i t) + n"
      using lockup by (auto simp: allowance_def split: option.splits)
    then show ?thesis using bal v' by blast
  qed
  fix c r c' assume "cell_mutate (cell_lock t i n) c = Some (r, c')"
  then show "fair t 0 (\<lambda>v. 0 \<le> n \<and> funded t n v) c r c'"
  proof (rule fair_mutate)
    fix v v' assume "cell_lock t i n v = Some (Inr v')"
    then obtain bal lockup where v: "map_of (ao_Balance v) t = Some bal" "aw_Amount lockup = amount_of (allowance (ao_Lockup v) i t) + n"
      "v' = v\<lparr>ao_Balance := put_or_drop t (bal - n) (ao_Balance v), ao_Lockup := put_allowance i t lockup (ao_Lockup v)\<rparr>"
      using cell by blast
    show "held t (Some v') = held t (Some v) + 0"
      using v locked_update [of i "put_allowance i t lockup (ao_Lockup v)" t "ao_Lockup v"]
      by (simp add: allowance_put GetBalance_put_or_drop GetBalance_Some)
    assume "0 \<le> n \<and> funded t n v" "good (Some v)"
    then show "good (Some v')"
      using v by (auto simp: allowance_put GetBalance_put_or_drop GetBalance_Some funded_def)
  qed
qed

lemma fair_ReleaseLockup:
  "effects a (ReleaseLockup a t i n) (fair t (- n) (\<lambda>v. n \<le> amount_of (allowance (ao_Lockup v) i t)))"
proof (rule effects_mono [OF refines_effects [OF refines_ReleaseLockup]])
  fix c r c' assume "cell_mutate (cell_unlock t i n) c = Some (r, c')"
  then show "fair t (- n) (\<lambda>v. n \<le> amount_of (allowance (ao_Lockup v) i t)) c r c'"
  proof (rule fair_mutate)
    fix v v' assume "cell_unlock t i n v = Some (Inr v')"
    then obtain l where v: "allowance (ao_Lockup v) i t = Some l" "v' = v\<lparr>ao_Lockup := cut_allowance i t n l (ao_Lockup v)\<rparr>"
      by (auto simp: cell_unlock_def)
    show "held t (Some v') = held t (Some v) + - n"
      using v locked_update [of i "cut_allowance i t n l (ao_Lockup v)" t "ao_Lockup v"] by (simp add: amount_cut)
    assume "n \<le> amount_of (allowance (ao_Lockup v) i t)" "good (Some v)"
    then show "good (Some v')" using v by (auto simp: amount_cut)
  qed
qed

lemma fair_SubMandate: "effects a (SubMandateBalance a t i n) (fair t 0 (\<lambda>v. n \<le> amount_of (allowance (ao_Mandate v) i t)))"
proof (rule effects_mono [OF refines_effects [OF refines_SubMandateBalance]])
  fix c r c' assume "cell_mutate (cell_spend t i n) c = Some (r, c')"
  then show "fair t 0 (\<lambda>v. n \<le> amount_of (allowance (ao_Mandate v) i t)) c r c'"
    by (rule fair_mutate) (auto simp: cell_spend_def amount_cut split: option.splits)
qed

lemma fair_ConsumeMandate:
  "effects a (ConsumeMandate a t i n) (fair t (- n) (\<lambda>v. n \<le> amount_of (allowance (ao_Mandate v) i t) \<and> funded t n v))"
proof (rule effects_mono [OF refines_effects [OF refines_ConsumeMandate]])
  fix c r c'
  assume "gthen (cell_mutate (cell_spend t i n)) (cell_mutate (cell_sub t n)) c = Some (r, c')"
  then show "fair t (- n) (\<lambda>v. n \<le> amount_of (allowance (ao_Mandate v) i t) \<and> funded t n v) c r c'"
  proof (cases rule: gthen_cases)
    case (error e)
    then show ?thesis
      by (auto simp: fair_def cell_mutate_def cell_spend_def split: option.splits)
  next
    case (returns x c1)
    obtain v m where v: "c = Some v" "allowance (ao_Mandate v) i t = Some m"
      "c1 = Some (v\<lparr>ao_Mandate := cut_allowance i t n m (ao_Mandate v)\<rparr>)"
      using returns(1) by (auto simp: cell_mutate_def cell_spend_def split: option.splits)
    have "fair t (- n) (funded t n) c1 r c'"
      using returns(2) by (rule fair_mutate)
        (auto simp: cell_sub_def funded_def GetBalance_put_or_drop GetBalance_Some split: option.splits)
    moreover have "held t c1 = held t c" using v by simp
    moreover have "good c \<Longrightarrow> n \<le> aw_Amount m \<Longrightarrow> good c1" using v by (auto simp: amount_cut)
    moreover have "funded t n v \<Longrightarrow> c1 = Some w \<Longrightarrow> funded t n w" for w using v by (auto simp: funded_def)
    ultimately show ?thesis using v by (auto simp: fair_def)
  qed
qed

lemma fair_mandates:
  "effects a (CreateMandate a t i n e) (fair t 0 (\<lambda>_. 0 \<le> n))"
  "effects a (DeleteMandate a t i) (fair t 0 (\<lambda>_. True))"
proof -
  show "effects a (CreateMandate a t i n e) (fair t 0 (\<lambda>_. 0 \<le> n))"
  proof (rule effects_mono [OF refines_effects [OF refines_CreateMandate]])
    fix c r c' assume "cell_mutate (cell_mandate t i n e) c = Some (r, c')"
    then show "fair t 0 (\<lambda>_. 0 \<le> n) c r c'"
    proof (rule fair_mutate)
      fix v v' assume v': "cell_mandate t i n e v = Some (Inr v')"
      show "held t (Some v') = held t (Some v) + 0" using v' by (auto simp: cell_mandate_def)
      assume n: "0 \<le> n" and g: "good (Some v)"
      have single: "0 \<le> amount_of (allowance [(i, [(t, \<lparr>aw_Amount = n, aw_ExpiresAt = e\<rparr>)])] j u)" for j u
        using n by (auto simp: allowance_def)
      have "0 \<le> aw_Amount m" if "map_of (ao_Mandate v) i = Some ms" "map_of ms t = Some m" for ms m
        using g that by (auto simp: allowance_def dest!: spec [of _ i] spec [of _ t])
      then show "good (Some v')"
        using v' n g single by (auto simp: cell_mandate_def allowance_put split: option.splits)
    qed
  qed
  show "effects a (DeleteMandate a t i) (fair t 0 (\<lambda>_. True))"
  proof (rule effects_mono [OF refines_effects [OF refines_DeleteMandate]])
    fix c r c' assume "cell_mutate (cell_revoke t i) c = Some (r, c')"
    then show "fair t 0 (\<lambda>_. True) c r c'"
      by (rule fair_mutate) (auto simp: cell_revoke_def allowance_drop)
  qed
qed

end
