(* ===== verification/Asset_Runs.thy ===== *)
theory Asset_Runs
  imports Asset_Totals
begin

text \<open>
  Runs of the asset engine: any sequence of calls that the logic of an asset makes, with their errors.
  The total of a token over the accounts of the transition changes by what the calls of the run minted
  and burned, and no balance, lockup or mandate becomes negative.
\<close>

section \<open>Ledger effects\<close>

definition acts :: "Identifier set \<Rightarrow> (Transition, 'a) gom \<Rightarrow> (Ledger \<Rightarrow> state_error + unit \<Rightarrow> Ledger \<Rightarrow> bool) \<Rightarrow> bool" where
  "acts D m P \<longleftrightarrow> (\<forall>tr res tr'. wf_transition tr \<longrightarrow> dom (tr_objects tr) = D \<longrightarrow> m tr = Some (res, tr') \<longrightarrow>
     wf_transition tr' \<and> dom (tr_objects tr') = D \<and> P (ledger tr) (forget res) (ledger tr'))"

lemma actsI:
  assumes "\<And>tr res tr'. wf_transition tr \<Longrightarrow> dom (tr_objects tr) = D \<Longrightarrow> m tr = Some (res, tr') \<Longrightarrow>
    wf_transition tr' \<and> dom (tr_objects tr') = D \<and> P (ledger tr) (forget res) (ledger tr')"
  shows "acts D m P"
  unfolding acts_def by (intro allI impI) (rule assms)

lemma acts_run:
  assumes "acts D m P" "wf_transition tr" "dom (tr_objects tr) = D" "m tr = Some (res, tr')"
  shows "wf_transition tr' \<and> dom (tr_objects tr') = D \<and> P (ledger tr) (forget res) (ledger tr')"
  by (rule assms(1) [unfolded acts_def, rule_format, OF assms(2-4)])

lemmas actsD = acts_run [THEN conjunct1] acts_run [THEN conjunct2, THEN conjunct1] acts_run [THEN conjunct2, THEN conjunct2]

lemma acts_mono:
  assumes "acts D m P" "\<And>L r L'. P L r L' \<Longrightarrow> Q L r L'"
  shows "acts D m Q"
proof (rule actsI)
  fix tr res tr'
  assume "wf_transition tr" "dom (tr_objects tr) = D" "m tr = Some (res, tr')"
  note run = acts_run [OF assms(1) this]
  show "wf_transition tr' \<and> dom (tr_objects tr') = D \<and> Q (ledger tr) (forget res) (ledger tr')"
    by (intro conjI run [THEN conjunct1] run [THEN conjunct2, THEN conjunct1] assms(2) run [THEN conjunct2, THEN conjunct2])
qed

lemma acts_gret: "acts D (gret x) (\<lambda>L r L'. L' = L \<and> r = Inr ())"
  by (simp add: acts_def)

lemma acts_keeps:
  assumes "keeps D m"
  shows "acts D m (\<lambda>L r L'. L' = L)"
proof (rule actsI)
  fix tr res tr'
  assume "wf_transition tr" "dom (tr_objects tr) = D" "m tr = Some (res, tr')"
  from keepsD [OF assms this] show "wf_transition tr' \<and> dom (tr_objects tr') = D \<and> ledger tr' = ledger tr" by simp
qed

lemma acts_gbind:
  assumes m: "acts D m P" and f: "\<And>x. acts D (f x) Q"
  shows "acts D (gbind m f) (\<lambda>L r L''. (\<exists>e. r = Inl e \<and> P L (Inl e) L'') \<or> (\<exists>L'. P L (Inr ()) L' \<and> Q L' r L''))"
proof (rule actsI)
  fix tr res tr'
  assume tr: "wf_transition tr" "dom (tr_objects tr) = D" and "gbind m f tr = Some (res, tr')"
  from this(3) show "wf_transition tr' \<and> dom (tr_objects tr') = D \<and> ((\<exists>e. forget res = Inl e \<and> P (ledger tr) (Inl e) (ledger tr'))
    \<or> (\<exists>L'. P (ledger tr) (Inr ()) L' \<and> Q L' (forget res) (ledger tr')))"
  proof (cases rule: gbind_cases)
    case (error e)
    then show ?thesis using actsD [OF m tr error(1)] by auto
  next
    case (returns x tr1)
    note 1 = actsD [OF m tr returns(1)]
    show ?thesis using actsD [OF f 1(1,2) returns(2)] 1 by auto
  qed
qed

lemmas acts_gthen = acts_gbind [where f = "\<lambda>_. n" for n, folded gthen_def]

lemma acts_observe:
  assumes m: "observes D m Q" and f: "\<And>x. acts D (f x) (\<lambda>L r L'. Q x L \<longrightarrow> P L r L')"
    and P: "\<And>L e. e \<noteq> ErrKeyExists \<Longrightarrow> P L (Inl e) L"
  shows "acts D (gbind m f) P"
proof (rule actsI)
  fix tr res tr'
  assume tr: "wf_transition tr" "dom (tr_objects tr) = D" and "gbind m f tr = Some (res, tr')"
  from this(3) show "wf_transition tr' \<and> dom (tr_objects tr') = D \<and> P (ledger tr) (forget res) (ledger tr')"
  proof (cases rule: gbind_cases)
    case (error e)
    then show ?thesis using observesD [OF m tr error(1)] P by auto
  next
    case (returns x tr1)
    note 1 = observesD [OF m tr returns(1)]
    show ?thesis using actsD [OF f 1(1,2) returns(2)] 1 by auto
  qed
qed

lemma acts_observe_then:
  assumes "observes D m Q" "acts D n (\<lambda>L r L'. (\<exists>x. Q x L) \<longrightarrow> P L r L')" "\<And>L e. e \<noteq> ErrKeyExists \<Longrightarrow> P L (Inl e) L"
  shows "acts D (gthen m n) P"
  unfolding gthen_def
proof (rule acts_observe [OF assms(1)])
  show "acts D n (\<lambda>L r L'. Q x L \<longrightarrow> P L r L')" for x by (rule acts_mono [OF assms(2)]) blast
qed (rule assms(3))

lemma acts_GetObject:
  assumes "i \<in> D \<Longrightarrow> acts D (f (InObjects i)) P" and "\<And>L. i \<notin> D \<Longrightarrow> P L (Inl ErrObjectNotFound) L"
  shows "acts D (gbind (tr_GetObject i) f) P"
proof (rule actsI)
  fix tr res tr'
  assume tr: "wf_transition tr" "dom (tr_objects tr) = D" and run: "gbind (tr_GetObject i) f tr = Some (res, tr')"
  show "wf_transition tr' \<and> dom (tr_objects tr') = D \<and> P (ledger tr) (forget res) (ledger tr')"
  proof (cases "tr_objects tr i")
    case None
    then have "i \<notin> D" using tr(2) by auto
    moreover have "res = Inl ErrObjectNotFound" "tr' = tr" using run None by (simp_all add: gbind_def tr_GetObject_def)
    ultimately show ?thesis using tr assms(2) by simp
  next
    case (Some ob)
    then have "i \<in> D" using tr(2) by auto
    moreover have "f (InObjects i) tr = Some (res, tr')" using run Some by (simp add: gbind_def tr_GetObject_def)
    ultimately show ?thesis using actsD [OF assms(1) tr] by simp
  qed
qed

lemma acts_on_object:
  assumes "effects a m P"
  shows "acts D (on_object (InObjects i) m)
    (\<lambda>L r L'. finite D \<and> i \<in> D \<and> (\<exists>c. L' = put_cell i a c L \<and> P (L i a) r c))"
proof (rule actsI)
  fix tr res tr'
  assume wf: "wf_transition tr" and D: "dom (tr_objects tr) = D" and run: "on_object (InObjects i) m tr = Some (res, tr')"
  have "finite D" using wf D by (simp add: wf_transition_def)
  then show "wf_transition tr' \<and> dom (tr_objects tr') = D \<and> finite D \<and> i \<in> D
      \<and> (\<exists>c. ledger tr' = put_cell i a c (ledger tr) \<and> P (ledger tr i a) (forget res) c)"
    using on_object_effects [OF wf assms run] D by simp
qed

section \<open>Totals\<close>

definition delta :: "Identifier set \<Rightarrow> Identifier \<Rightarrow> TokenID \<Rightarrow> int \<Rightarrow> Ledger \<Rightarrow> Ledger \<Rightarrow> bool" where
  "delta D a t d L L' \<longleftrightarrow> (\<Sum>i\<in>D. held t (L' i a)) = (\<Sum>i\<in>D. held t (L i a)) + d \<and> (\<forall>i b. b \<noteq> a \<longrightarrow> L' i b = L i b)"

definition solvent :: "Ledger \<Rightarrow> bool" where
  "solvent L \<longleftrightarrow> (\<forall>i a. good (L i a))"

lemma delta_refl [simp]: "delta D a t 0 L L"
  by (simp add: delta_def)

lemma delta_trans: "delta D a t d L L' \<Longrightarrow> delta D a t d' L' L'' \<Longrightarrow> delta D a t (d + d') L L''"
  by (simp add: delta_def)

lemma delta_put_cell:
  assumes "finite D" "i \<in> D"
  shows "delta D a t (held t c - held t (L i a)) L (put_cell i a c L)"
proof -
  have "(\<Sum>j\<in>D. held t (put_cell i a c L j a)) = held t c + (\<Sum>j\<in>D - {i}. held t (L j a))"
    using assms by (subst sum.remove [of D i]) (auto simp: put_cell_apply intro!: sum.cong)
  moreover have "(\<Sum>j\<in>D. held t (L j a)) = held t (L i a) + (\<Sum>j\<in>D - {i}. held t (L j a))"
    using assms by (rule sum.remove)
  ultimately show ?thesis by (simp add: delta_def put_cell_apply)
qed

lemma solvent_put_cell: "solvent L \<Longrightarrow> good c \<Longrightarrow> solvent (put_cell i a c L)"
  by (simp add: solvent_def put_cell_apply)

lemma acts_fair:
  assumes "effects a m (fair t d pre)"
  shows "acts D (on_object (InObjects i) m) (\<lambda>L r L'. delta D a t (if r = Inr () then d else 0) L L'
    \<and> ((\<forall>v. L i a = Some v \<longrightarrow> pre v) \<and> solvent L \<longrightarrow> solvent L'))"
proof (rule acts_mono [OF acts_on_object [OF assms]])
  fix L r L'
  assume *: "finite D \<and> i \<in> D \<and> (\<exists>c. L' = put_cell i a c L \<and> fair t d pre (L i a) r c)"
  then obtain c where c: "L' = put_cell i a c L" "fair t d pre (L i a) r c" by blast
  have "delta D a t (if r = Inr () then d else 0) L L'"
    using delta_put_cell [of D i a t c L] * c by (simp add: fair_def)
  moreover have "solvent L'" if "\<forall>v. L i a = Some v \<longrightarrow> pre v" "solvent L"
    using that c solvent_put_cell [of L c i a] by (auto simp: fair_def solvent_def)
  ultimately show "delta D a t (if r = Inr () then d else 0) L L' \<and> ((\<forall>v. L i a = Some v \<longrightarrow> pre v) \<and> solvent L \<longrightarrow> solvent L')"
    by blast
qed

lemma acts_AddBalance:
  "acts D (on_object (InObjects i) (AddBalance a t n md)) (\<lambda>L r L'. r = Inr () \<and> delta D a t n L L'
    \<and> (0 \<le> n \<and> solvent L \<longrightarrow> solvent L') \<and> i \<in> D \<and> (\<exists>v. L' i a = Some v \<and> hasTokenID t v))"
proof (rule acts_mono [OF acts_on_object [OF fair_AddBalance]])
  fix L r L'
  assume *: "finite D \<and> i \<in> D \<and> (\<exists>c. L' = put_cell i a c L \<and> r = Inr () \<and> held t c = held t (L i a) + n
    \<and> (0 \<le> n \<and> good (L i a) \<longrightarrow> good c) \<and> (\<exists>v. c = Some v \<and> hasTokenID t v))"
  then obtain c where c: "L' = put_cell i a c L" "held t c = held t (L i a) + n" "0 \<le> n \<and> good (L i a) \<longrightarrow> good c" by blast
  have "delta D a t n L L'" using delta_put_cell [of D i a t c L] * c by simp
  moreover have "solvent L'" if "0 \<le> n" "solvent L"
    using that c solvent_put_cell [of L c i a] by (auto simp: solvent_def)
  ultimately show "r = Inr () \<and> delta D a t n L L' \<and> (0 \<le> n \<and> solvent L \<longrightarrow> solvent L') \<and> i \<in> D \<and> (\<exists>v. L' i a = Some v \<and> hasTokenID t v)"
    using * by (auto simp: put_cell_apply)
qed

section \<open>The operations of the engine\<close>

definition lands :: "Identifier set \<Rightarrow> Identifier \<Rightarrow> TokenID \<Rightarrow> (state_error + unit \<Rightarrow> int) \<Rightarrow> bool \<Rightarrow> Ledger
    \<Rightarrow> state_error + unit \<Rightarrow> Ledger \<Rightarrow> bool" where
  "lands D a t d pre L r L' \<longleftrightarrow> delta D a t (d r) L L' \<and> (pre \<and> solvent L \<longrightarrow> solvent L')"

lemma lands_error [simp]: "d (Inl e) = 0 \<Longrightarrow> lands D a t d pre L (Inl e) L"
  by (simp add: lands_def)

lemma has_funds_funded: "has_funds i a t n L \<Longrightarrow> L i a = Some v \<Longrightarrow> funded t n v"
  by (auto simp: has_funds_def funded_def GetBalance_Some)

text \<open>Taking from one account and giving to another.\<close>

lemma acts_move:
  assumes "effects a m (fair t (- n) pre)"
  shows "acts D (gbind (on_object (InObjects i) m) (\<lambda>md. on_object (InObjects j) (AddBalance a t n md)))
    (\<lambda>L r L'. delta D a t 0 L L' \<and> (0 \<le> n \<and> (\<forall>v. L i a = Some v \<longrightarrow> pre v) \<and> solvent L \<longrightarrow> solvent L'))"
proof (rule acts_mono [OF acts_gbind [OF acts_fair [OF assms] acts_AddBalance]])
  fix L r L''
  assume *: "(\<exists>e. r = Inl e \<and> delta D a t (if (Inl e :: state_error + unit) = Inr () then - n else 0) L L''
        \<and> ((\<forall>v. L i a = Some v \<longrightarrow> pre v) \<and> solvent L \<longrightarrow> solvent L''))
    \<or> (\<exists>L'. (delta D a t (if (Inr () :: state_error + unit) = Inr () then - n else 0) L L'
        \<and> ((\<forall>v. L i a = Some v \<longrightarrow> pre v) \<and> solvent L \<longrightarrow> solvent L'))
        \<and> r = Inr () \<and> delta D a t n L' L'' \<and> (0 \<le> n \<and> solvent L' \<longrightarrow> solvent L'') \<and> j \<in> D
        \<and> (\<exists>v. L'' j a = Some v \<and> hasTokenID t v))"
  then show "delta D a t 0 L L'' \<and> (0 \<le> n \<and> (\<forall>v. L i a = Some v \<longrightarrow> pre v) \<and> solvent L \<longrightarrow> solvent L'')"
  proof (elim disjE exE conjE)
    fix L'
    assume "delta D a t (if (Inr () :: state_error + unit) = Inr () then - n else 0) L L'" "delta D a t n L' L''"
    then have "delta D a t 0 L L''" using delta_trans [of D a t "- n" L L' n L''] by simp
    moreover assume "(\<forall>v. L i a = Some v \<longrightarrow> pre v) \<and> solvent L \<longrightarrow> solvent L'" "0 \<le> n \<and> solvent L' \<longrightarrow> solvent L''"
    ultimately show ?thesis by blast
  qed auto
qed

lemma acts_fuel:
  assumes "acts D m P"
  shows "acts D (gthen m (gret x)) P"
proof (rule acts_mono [OF acts_gthen [OF assms acts_gret]])
  fix L r L''
  assume "(\<exists>e. r = Inl e \<and> P L (Inl e) L'') \<or> (\<exists>L'. P L (Inr ()) L' \<and> L'' = L' \<and> r = Inr ())"
  then show "P L r L''" by auto
qed

lemma lands_transfer:
  "acts D (gthen (validateAssetTransfer env (InObjects i) (InObjects j) s a t n acc)
     (gthen (transferAsset (InObjects i) (InObjects j) a t n) (gret x))) (lands D a t (\<lambda>_. 0) True)"
proof (rule acts_observe_then [OF observes_transfer acts_fuel])
  show "acts D (transferAsset (InObjects i) (InObjects j) a t n)
    (\<lambda>L r L'. (\<exists>x :: unit. 1 \<le> n \<and> has_funds i a t n L) \<longrightarrow> lands D a t (\<lambda>_. 0) True L r L')"
    unfolding transferAsset_def
    by (rule acts_mono [OF acts_move [OF fair_SubBalance]]) (auto simp: lands_def has_funds_funded)
qed simp

lemma lands_consume:
  "acts D (gthen (validateAssetConsume env opr (InObjects j) (InObjects i) s a t n acc)
     (gthen (consumeMandate opr (InObjects i) (InObjects j) a t n) (gret x))) (lands D a t (\<lambda>_. 0) (0 \<le> n))"
proof (rule acts_observe_then [OF observes_consume acts_fuel])
  show "acts D (consumeMandate opr (InObjects i) (InObjects j) a t n)
    (\<lambda>L r L'. (\<exists>x :: unit. has_funds i a t n L \<and> (\<exists>v m. L i a = Some v \<and> allowance (ao_Mandate v) opr t = Some m \<and> n \<le> aw_Amount m \<and> ae_now env \<le> aw_ExpiresAt m))
      \<longrightarrow> lands D a t (\<lambda>_. 0) (0 \<le> n) L r L')"
    unfolding consumeMandate_def
    by (rule acts_mono [OF acts_move [OF fair_ConsumeMandate]]) (auto simp: lands_def has_funds_funded)
qed simp

lemma lands_release:
  "acts D (gthen (validateAssetRelease opr (InObjects i) b a t n acc)
     (gthen (releaseAsset opr (InObjects i) (InObjects j) a t n) (gret x))) (lands D a t (\<lambda>_. 0) (0 \<le> n))"
proof (rule acts_observe_then [OF observes_release acts_fuel])
  show "acts D (releaseAsset opr (InObjects i) (InObjects j) a t n)
    (\<lambda>L r L'. (\<exists>x :: unit. \<exists>v m. L i a = Some v \<and> allowance (ao_Lockup v) opr t = Some m \<and> n \<le> aw_Amount m)
      \<longrightarrow> lands D a t (\<lambda>_. 0) (0 \<le> n) L r L')"
    unfolding releaseAsset_def
    by (rule acts_mono [OF acts_move [OF fair_ReleaseLockup]]) (auto simp: lands_def)
qed simp

lemma lands_lockup:
  "acts D (gthen (validateAssetLockup (InObjects i) b a t n acc) (gthen (lockupAsset (InObjects i) b a t n) (gret x)))
     (lands D a t (\<lambda>_. 0) True)"
proof (rule acts_observe_then [OF observes_lockup acts_fuel])
  show "acts D (lockupAsset (InObjects i) b a t n)
    (\<lambda>L r L'. (\<exists>x :: unit. 1 \<le> n \<and> has_funds i a t n L) \<longrightarrow> lands D a t (\<lambda>_. 0) True L r L')"
    unfolding lockupAsset_def
    by (rule acts_mono [OF acts_fair [OF fair_CreateLockup]]) (auto simp: lands_def has_funds_funded split: if_splits)
qed simp

lemma lands_approve:
  "acts D (gthen (validateAssetApprove (InObjects i) a t n acc)
     (gthen (on_object (InObjects i) (CreateMandate a t b n ex)) (gret x))) (lands D a t (\<lambda>_. 0) True)"
proof (rule acts_observe_then [OF observes_approve acts_fuel])
  show "acts D (on_object (InObjects i) (CreateMandate a t b n ex))
    (\<lambda>L r L'. (\<exists>x :: unit. 1 \<le> n) \<longrightarrow> lands D a t (\<lambda>_. 0) True L r L')"
    by (rule acts_mono [OF acts_fair [OF fair_mandates(1)]]) (auto simp: lands_def split: if_splits)
qed simp

lemma lands_revoke:
  "acts D (gthen (validateAssetRevoke (InObjects i) b a t acc) (gthen (revokeAsset (InObjects i) b a t) (gret x)))
     (lands D a t (\<lambda>_. 0) True)"
proof (rule acts_observe_then [OF observes_revoke acts_fuel])
  show "acts D (revokeAsset (InObjects i) b a t) (\<lambda>L r L'. (\<exists>x :: unit. True) \<longrightarrow> lands D a t (\<lambda>_. 0) True L r L')"
    unfolding revokeAsset_def
    by (rule acts_mono [OF acts_fair [OF fair_mandates(2)]]) (auto simp: lands_def split: if_splits)
qed simp

text \<open>Operations on the properties of an asset change no holding.\<close>

lemma effects_conj: "effects a m P \<Longrightarrow> effects a m Q \<Longrightarrow> effects a m (\<lambda>c r c'. P c r c' \<and> Q c r c')"
  unfolding effects_def by blast

definition props :: "Cell \<Rightarrow> AssetDescriptor option" where
  "props c = Option.bind c ao_Properties"

lemma same_holding_fair: "same_holding c c' \<Longrightarrow> fair t 0 (\<lambda>_. True) c r c'"
proof -
  assume same: "same_holding c c'"
  show ?thesis
  proof (cases c)
    case None
    then show ?thesis using same by (simp add: same_holding_def fair_def)
  next
    case (Some v)
    then obtain v' where v': "c' = Some v'" "v'\<lparr>ao_Properties := None\<rparr> = v\<lparr>ao_Properties := None\<rparr>"
      using same by (auto simp: same_holding_def)
    have "ao_Balance v' = ao_Balance v" "ao_Lockup v' = ao_Lockup v" "ao_Mandate v' = ao_Mandate v"
      using arg_cong [OF v'(2), of ao_Balance] arg_cong [OF v'(2), of ao_Lockup] arg_cong [OF v'(2), of ao_Mandate] by simp_all
    then show ?thesis using Some v'(1) by (simp add: fair_def GetBalance_def)
  qed
qed

lemma effects_Sub_props: "effects a (SubBalance a t n) (\<lambda>c r c'. props c' = props c)"
  by (rule effects_mono [OF refines_effects [OF refines_SubBalance]])
    (auto simp: cell_mutate_def cell_sub_def props_def split: option.splits)

lemma effects_Burn: "effects a (BurnAsset a n) (\<lambda>c r c'. fair t 0 (\<lambda>_. True) c r c' \<and> (props c \<noteq> None \<longrightarrow> r = Inr ()))"
proof (rule effects_mono [OF refines_effects [OF refines_BurnAsset]])
  fix c r c'
  assume *: "cell_mutate (cell_supply (\<lambda>p. p\<lparr>ad_CirculatingSupply := ad_CirculatingSupply p - n\<rparr>)) c = Some (r, c')"
  have "same_holding c c'" "props c \<noteq> None \<longrightarrow> r = Inr ()"
    using * by (auto simp: cell_mutate_def cell_supply_def same_holding_def props_def split: option.splits sum.splits)
  then show "fair t 0 (\<lambda>_. True) c r c' \<and> (props c \<noteq> None \<longrightarrow> r = Inr ())" by (simp add: same_holding_fair)
qed

lemma lands_burn:
  "acts D (gthen (validateAssetBurn (InObjects i) (InObjects j) a t n acc)
     (gthen (burnAsset (InObjects i) (InObjects j) a t n) (gret x))) (lands D a t (\<lambda>r. if r = Inr () then - n else 0) True)"
proof (rule acts_observe_then [OF observes_burn acts_fuel])
  have burn: "acts D (gthen (on_object (InObjects j) (BurnAsset a n)) (gret ()))
      (\<lambda>L r L'. delta D a t 0 L L' \<and> (solvent L \<longrightarrow> solvent L') \<and> (props (L j a) \<noteq> None \<longrightarrow> r = Inr ()))"
  proof (rule acts_fuel, rule acts_mono [OF acts_on_object [OF effects_Burn]])
    fix L and r :: "state_error + unit" and L'
    assume *: "finite D \<and> j \<in> D \<and> (\<exists>c. L' = put_cell j a c L \<and> fair t 0 (\<lambda>_. True) (L j a) r c \<and> (props (L j a) \<noteq> None \<longrightarrow> r = Inr ()))"
    then obtain c where c: "L' = put_cell j a c L" "fair t 0 (\<lambda>_. True) (L j a) r c" by blast
    then show "delta D a t 0 L L' \<and> (solvent L \<longrightarrow> solvent L') \<and> (props (L j a) \<noteq> None \<longrightarrow> r = Inr ())"
      using * delta_put_cell [of D j a t c L] solvent_put_cell [of L c j a] by (auto simp: fair_def solvent_def)
  qed
  have sub: "acts D (on_object (InObjects i) (SubBalance a t n)) (\<lambda>L r L'. delta D a t (if r = Inr () then - n else 0) L L'
      \<and> (has_funds i a t n L \<and> solvent L \<longrightarrow> solvent L') \<and> props (L' j a) = props (L j a))"
  proof (rule acts_mono [OF acts_on_object [OF effects_conj [OF fair_SubBalance effects_Sub_props]]])
    fix L and r :: "state_error + unit" and L'
    assume *: "finite D \<and> i \<in> D \<and> (\<exists>c. L' = put_cell i a c L \<and> fair t (- n) (funded t n) (L i a) r c \<and> props c = props (L i a))"
    then obtain c where c: "L' = put_cell i a c L" "fair t (- n) (funded t n) (L i a) r c" "props c = props (L i a)" by blast
    then show "delta D a t (if r = Inr () then - n else 0) L L' \<and> (has_funds i a t n L \<and> solvent L \<longrightarrow> solvent L')
        \<and> props (L' j a) = props (L j a)"
      using * delta_put_cell [of D i a t c L] solvent_put_cell [of L c i a] has_funds_funded [of i a t n L]
      by (auto simp: fair_def solvent_def put_cell_apply)
  qed
  show "acts D (burnAsset (InObjects i) (InObjects j) a t n)
    (\<lambda>L r L'. (\<exists>x :: unit. 1 \<le> n \<and> has_funds i a t n L \<and> (\<exists>v p. L j a = Some v \<and> ao_Properties v = Some p))
      \<longrightarrow> lands D a t (\<lambda>r. if r = Inr () then - n else 0) True L r L')"
    unfolding burnAsset_def
  proof (rule acts_mono [OF acts_gthen [OF sub burn]], intro impI, elim exE disjE conjE)
    fix L and r :: "state_error + unit" and L'' L' v p
    assume "delta D a t (if (Inr () :: state_error + unit) = Inr () then - n else 0) L L'" "delta D a t 0 L' L''"
      "has_funds i a t n L \<and> solvent L \<longrightarrow> solvent L'" "solvent L' \<longrightarrow> solvent L''" "props (L' j a) = props (L j a)"
      "props (L' j a) \<noteq> None \<longrightarrow> r = Inr ()" "has_funds i a t n L" "L j a = Some v" "ao_Properties v = Some p"
    then show "lands D a t (\<lambda>r. if r = Inr () then - n else 0) True L r L''"
      using delta_trans [of D a t "- n" L L' 0 L''] by (simp add: lands_def props_def)
  qed (auto simp: lands_def)
qed simp

lemma acts_MintAsset:
  "acts D (on_object (InObjects i) (MintAsset a n)) (\<lambda>L r L'. delta D a t 0 L L' \<and> (solvent L \<longrightarrow> solvent L') \<and> (\<forall>e. r = Inl e \<longrightarrow> L' = L \<and> e = ErrAssetNotFound))"
proof (rule acts_mono [OF acts_on_object [OF effects_MintAsset]])
  fix L and r :: "state_error + unit" and L'
  assume *: "finite D \<and> i \<in> D \<and> (\<exists>c. L' = put_cell i a c L \<and> same_holding (L i a) c \<and> (\<forall>e. r = Inl e \<longrightarrow> c = L i a \<and> e = ErrAssetNotFound))"
  then obtain c where c: "L' = put_cell i a c L" "same_holding (L i a) c" "\<forall>e. r = Inl e \<longrightarrow> c = L i a \<and> e = ErrAssetNotFound" by blast
  then show "delta D a t 0 L L' \<and> (solvent L \<longrightarrow> solvent L') \<and> (\<forall>e. r = Inl e \<longrightarrow> L' = L \<and> e = ErrAssetNotFound)"
    using * delta_put_cell [of D i a t c L] solvent_put_cell [of L c i a] same_holding_fair [of "L i a" c t r]
    by (auto simp: fair_def solvent_def)
qed

text \<open>Minting, with the meta data of the token.\<close>

definition has_token :: "Identifier \<Rightarrow> Identifier \<Rightarrow> TokenID \<Rightarrow> Ledger \<Rightarrow> bool" where
  "has_token i a t L \<longleftrightarrow> (\<exists>v. L i a = Some v \<and> hasTokenID t v)"

lemma acts_SetTokenMetadata:
  "acts D (on_object (InObjects i) (SetTokenMetadata a t st k v))
    (\<lambda>L r L'. L' = L \<and> (\<forall>e. r = Inl e \<and> has_token i a t L \<longrightarrow> e = ErrKeyExists))"
  by (rule acts_mono [OF acts_on_object [OF effects_SetTokenMetadata]]) (auto simp: tagged_def has_token_def)

lemma acts_SetStaticTokenMetaData:
  "acts D (SetStaticTokenMetaData a i t k v acc)
    (\<lambda>L r L'. L' = L \<and> (\<forall>e. r = Inl e \<and> has_token i a t L \<and> hasMutateAccess acc [i] \<and> i \<in> D \<longrightarrow> e = ErrKeyExists))"
proof (cases "hasMutateAccess acc [i]")
  case True
  then show ?thesis
    unfolding SetStaticTokenMetaData_def validateSetTokenMetaData_def gguard_def
    by (simp, intro acts_GetObject) (auto intro: acts_mono [OF acts_SetTokenMetadata])
next
  case False
  then show ?thesis
    by (simp add: SetStaticTokenMetaData_def validateSetTokenMetaData_def gguard_def acts_def)
qed

lemma acts_set_static_entries:
  "acts D (set_static_entries a i t es acc)
    (\<lambda>L r L'. L' = L \<and> (\<forall>e. r = Inl e \<and> has_token i a t L \<and> hasMutateAccess acc [i] \<and> i \<in> D \<longrightarrow> e = ErrKeyExists))"
proof (induction es)
  case Nil
  show ?case unfolding set_static_entries.simps by (rule acts_mono [OF acts_gret]) simp
next
  case (Cons kv es)
  obtain k v where kv: "kv = (k, v)" by (cases kv)
  show ?case
    unfolding kv set_static_entries.simps
    by (rule acts_mono [OF acts_gthen [OF acts_SetStaticTokenMetaData Cons.IH]]) auto
qed

definition minted :: "int \<Rightarrow> state_error + unit \<Rightarrow> int" where
  "minted n r = (if r = Inr () \<or> r = Inl ErrKeyExists then n else 0)"

lemma lands_mint:
  "acts D (gthen (validateAssetMint sid i (InObjects j) a n acc) (gthen (mintAsset (InObjects i) (InObjects j) a t n)
     (gthen (set_static_entries a i t es acc) (gret x)))) (lands D a t (minted n) True)"
proof (rule acts_observe_then [OF observes_mint])
  have mint: "acts D (mintAsset (InObjects i) (InObjects j) a t n) (\<lambda>L r L'.
      (\<exists>e. r = Inl e \<and> L' = L \<and> e = ErrAssetNotFound) \<or> (r = Inr () \<and> delta D a t n L L' \<and> (0 \<le> n \<and> solvent L \<longrightarrow> solvent L')
        \<and> i \<in> D \<and> has_token i a t L'))"
    unfolding mintAsset_def
  proof (rule acts_mono [OF acts_gthen [OF acts_MintAsset [where t = t] acts_AddBalance]], elim exE disjE conjE)
    fix L and r :: "state_error + unit" and L'' L' v
    assume "delta D a t 0 L L'" "delta D a t n L' L''" "solvent L \<longrightarrow> solvent L'" "0 \<le> n \<and> solvent L' \<longrightarrow> solvent L''"
      "r = Inr ()" "i \<in> D" "L'' i a = Some v" "hasTokenID t v"
    then show "(\<exists>e. r = Inl e \<and> L'' = L \<and> e = ErrAssetNotFound) \<or> (r = Inr () \<and> delta D a t n L L'' \<and> (0 \<le> n \<and> solvent L \<longrightarrow> solvent L'')
        \<and> i \<in> D \<and> has_token i a t L'')"
      using delta_trans [of D a t 0 L L' n L''] by (auto simp: has_token_def)
  qed auto
  show "acts D (gthen (mintAsset (InObjects i) (InObjects j) a t n) (gthen (set_static_entries a i t es acc) (gret x)))
    (\<lambda>L r L'. (\<exists>x :: unit. 1 \<le> n \<and> hasMutateAccess acc [i] \<and> (\<exists>v p. L j a = Some v \<and> ao_Properties v = Some p \<and> ad_Manager p = sid
      \<and> ad_CirculatingSupply p + n \<le> ad_MaxSupply p)) \<longrightarrow> lands D a t (minted n) True L r L')"
  proof (rule acts_mono [OF acts_gthen [OF mint acts_fuel [OF acts_set_static_entries]]], intro impI)
    fix L and r :: "state_error + unit" and L''
    assume *: "(\<exists>e. r = Inl e \<and> ((\<exists>e'. (Inl e :: state_error + unit) = Inl e' \<and> L'' = L \<and> e' = ErrAssetNotFound)
        \<or> ((Inl e :: state_error + unit) = Inr () \<and> delta D a t n L L'' \<and> (0 \<le> n \<and> solvent L \<longrightarrow> solvent L'') \<and> i \<in> D \<and> has_token i a t L'')))
      \<or> (\<exists>L'. ((\<exists>e'. (Inr () :: state_error + unit) = Inl e' \<and> L' = L \<and> e' = ErrAssetNotFound)
        \<or> ((Inr () :: state_error + unit) = Inr () \<and> delta D a t n L L' \<and> (0 \<le> n \<and> solvent L \<longrightarrow> solvent L') \<and> i \<in> D \<and> has_token i a t L'))
        \<and> L'' = L' \<and> (\<forall>e. r = Inl e \<and> has_token i a t L' \<and> hasMutateAccess acc [i] \<and> i \<in> D \<longrightarrow> e = ErrKeyExists))"
      and pre: "\<exists>x :: unit. 1 \<le> n \<and> hasMutateAccess acc [i] \<and> (\<exists>v p. L j a = Some v \<and> ao_Properties v = Some p \<and> ad_Manager p = sid
        \<and> ad_CirculatingSupply p + n \<le> ad_MaxSupply p)"
    have n: "1 \<le> n" "hasMutateAccess acc [i]" using pre by auto
    from * show "lands D a t (minted n) True L r L''"
      using n by (cases r) (auto simp: lands_def minted_def)
  qed
qed (simp add: minted_def)

lemma lands_metadata:
  "acts D (SetStaticMetaData a b k v acc) (lands D a t (\<lambda>_. 0) True)"
  "acts D (SetDynamicMetaData a b k v acc) (lands D a t (\<lambda>_. 0) True)"
  "acts D (SetStaticTokenMetaData a i u k v acc) (lands D a t (\<lambda>_. 0) True)"
  "acts D (SetDynamicTokenMetaData a i u k v acc) (lands D a t (\<lambda>_. 0) True)"
proof -
  have set: "acts D (on_object (InObjects a) (SetAssetMetadata a st k v)) (lands D a t (\<lambda>_. 0) True)" for st
  proof -
    have "effects a (SetAssetMetadata a st k v) (fair t 0 (\<lambda>_. True))"
      by (rule effects_mono [OF effects_SetAssetMetadata]) (rule same_holding_fair)
    then show ?thesis by (rule acts_mono [OF acts_fair]) (auto simp: lands_def split: if_splits)
  qed
  show "acts D (SetStaticMetaData a b k v acc) (lands D a t (\<lambda>_. 0) True)"
    "acts D (SetDynamicMetaData a b k v acc) (lands D a t (\<lambda>_. 0) True)"
    unfolding SetStaticMetaData_def SetDynamicMetaData_def
    by (rule acts_GetObject, rule acts_observe_then [OF observes_metadata(1)], rule acts_mono [OF set], simp_all)+
  show "acts D (SetStaticTokenMetaData a i u k v acc) (lands D a t (\<lambda>_. 0) True)"
    by (rule acts_mono [OF acts_SetStaticTokenMetaData]) (simp add: lands_def)
  show "acts D (SetDynamicTokenMetaData a i u k v acc) (lands D a t (\<lambda>_. 0) True)"
    unfolding SetDynamicTokenMetaData_def
    by (rule acts_observe_then [OF observes_metadata(2)], rule acts_GetObject, rule acts_mono [OF acts_SetTokenMetadata])
      (simp_all add: lands_def)
qed

text \<open>Creating an asset.\<close>

lemma acts_inert: "inert m \<Longrightarrow> acts D (on_object ptr m) (\<lambda>L r L'. L' = L)"
  by (rule acts_keeps [OF keeps_inert])

lemma acts_same_bind:
  assumes "acts D m (\<lambda>L r L'. L' = L)" "\<And>x. acts D (f x) (\<lambda>L r L'. L' = L)"
  shows "acts D (gbind m f) (\<lambda>L r L'. L' = L)"
  by (rule acts_mono [OF acts_gbind [OF assms]]) auto

lemma acts_IsGenesis: "acts D (tr_IsGenesis i) (\<lambda>L r L'. L' = L)"
  by (rule actsI) (auto simp: tr_IsGenesis_def split: option.splits if_splits)

lemma acts_addNewAccounts: "acts D (addNewAccountsToSargaAccount env h ids) (\<lambda>L r L'. L' = L)"
proof (induction ids)
  case Nil
  show ?case unfolding addNewAccountsToSargaAccount.simps by (rule acts_mono [OF acts_gret]) simp
next
  case (Cons i ids)
  have sarga: "observes D (gcatch (tr_GetObject (SargaAccountID (ae_GetHash env))) (\<lambda>_. gerr (ErrState ''sarga object not found'')))
      (\<lambda>_ _. True)"
    by (rule observes_gcatch [OF observes_GetObject(1) observes_simple(2)]) simp_all
  have error: "acts D (gerr e :: (Transition, unit) gom) (\<lambda>L r L'. L' = L)" for e by (simp add: acts_def)
  have new: "acts D (if registered then gerr ErrAccountAlreadyRegistered
      else gthen (on_object p (AddAccountGenesisInfo (ae_GetHash env) (ae_genesisBytes env) i h)) (addNewAccountsToSargaAccount env h ids))
      (\<lambda>L r L'. L' = L)" for registered p
    unfolding gthen_def using acts_same_bind [OF acts_inert [OF inert_registration(1)] Cons.IH] error by simp
  have "acts D (gbind (on_object p (IsAccountRegistered (ae_GetHash env) i)) (\<lambda>registered. if registered then gerr ErrAccountAlreadyRegistered
      else gthen (on_object p (AddAccountGenesisInfo (ae_GetHash env) (ae_genesisBytes env) i h)) (addNewAccountsToSargaAccount env h ids)))
      (\<lambda>L r L'. L' = L)" for p
    by (rule acts_same_bind [OF acts_inert [OF inert_registration(2)] new])
  note found = acts_observe [OF sarga acts_mono [OF this]]
  show ?case
    unfolding addNewAccountsToSargaAccount.simps
  proof (rule acts_same_bind [OF acts_IsGenesis])
    fix genesis
    show "acts D (if \<not> genesis then addNewAccountsToSargaAccount env h ids
      else gbind (gcatch (tr_GetObject (SargaAccountID (ae_GetHash env))) (\<lambda>_. gerr (ErrState ''sarga object not found''))) (\<lambda>sarga.
       gbind (on_object sarga (IsAccountRegistered (ae_GetHash env) i)) (\<lambda>registered.
       if registered then gerr ErrAccountAlreadyRegistered
       else gthen (on_object sarga (AddAccountGenesisInfo (ae_GetHash env) (ae_genesisBytes env) i h))
         (addNewAccountsToSargaAccount env h ids)))) (\<lambda>L r L'. L' = L)"
      using Cons.IH found by (cases genesis) simp_all
  qed
qed

lemma acts_CreateAsset:
  assumes "ad_AssetID d = a"
  shows "acts D (on_object (InObjects i) (CreateAsset j d)) (lands D a t (\<lambda>_. 0) True)"
proof -
  have "effects a (CreateAsset j d) (fair t 0 (\<lambda>_. True))"
    using effects_CreateAsset [of d j] unfolding assms
    by (rule effects_mono) (auto simp: fair_def split: if_splits)
  then show ?thesis by (rule acts_mono [OF acts_fair]) (auto simp: lands_def split: if_splits)
qed

lemma lands_then_same:
  assumes "acts D m (lands D a t (\<lambda>_. 0) True)" "\<And>x. acts D (f x) (\<lambda>L r L'. L' = L)"
  shows "acts D (gbind m f) (lands D a t (\<lambda>_. 0) True)"
  by (rule acts_mono [OF acts_gbind [OF assms]]) (auto simp: lands_def)

lemma lands_create:
  assumes "ad_AssetID d = a"
  shows "acts D (gthen (createAsset (InObjects i) (InObjects a) d)
      (gbind (Object_Identifier (InObjects a)) (\<lambda>ident. gthen (addNewAccountsToSargaAccount env h [ident]) (gret x))))
    (lands D a t (\<lambda>_. 0) True)"
proof -
  have ident: "acts D (Object_Identifier (InObjects a)) (\<lambda>L r L'. L' = L)"
    unfolding Object_Identifier_def by (rule acts_inert [OF inert_ops(6)])
  have same: "acts D (gret y) (\<lambda>L r L'. L' = L)" for y :: 'z by (rule acts_mono [OF acts_gret]) simp
  have deed: "acts D (gthen (on_object (InObjects i) (CreateDeedsEntry a)) (gret a)) (\<lambda>L r L'. L' = L)"
    unfolding gthen_def by (rule acts_same_bind [OF acts_inert [OF inert_ops(1)] same])
  have create: "acts D (createAsset (InObjects i) (InObjects a) d) (lands D a t (\<lambda>_. 0) True)"
    unfolding createAsset_def assms gthen_def [of "on_object (InObjects a) _"]
    by (rule acts_mono [OF acts_gbind [OF ident lands_then_same [OF acts_CreateAsset [OF assms] deed]]]) auto
  show ?thesis
    unfolding gthen_def [of "createAsset _ _ _"]
    by (rule lands_then_same [OF create], rule acts_same_bind [OF ident], unfold gthen_def, rule acts_same_bind [OF acts_addNewAccounts same])
qed

section \<open>Calls and runs\<close>

text \<open>The calls that change state. The operations on meta data return no fuel.\<close>

datatype EngineCall =
    CallCreate Hash Identifier string u8 u8 Identifier Identifier int "string \<rightharpoonup> u8 list" "string \<rightharpoonup> u8 list" bool Identifier Access
  | CallTransfer Identifier TokenID Identifier Identifier Identifier int Access
  | CallMint Identifier TokenID Identifier Identifier int "(string \<times> u8 list) list" Access
  | CallBurn Identifier TokenID Identifier int Access
  | CallApprove Identifier TokenID Identifier Identifier int u64 Access
  | CallRevoke Identifier TokenID Identifier Identifier Access
  | CallLockup Identifier TokenID Identifier Identifier int Access
  | CallRelease Identifier TokenID Identifier Identifier Identifier int Access
  | CallStatic Identifier Identifier string "u8 list" Access
  | CallDynamic Identifier Identifier string "u8 list" Access
  | CallTokenStatic Identifier Identifier TokenID string "u8 list" Access
  | CallTokenDynamic Identifier Identifier TokenID string "u8 list" Access

fun engine_call :: "AssetEnv \<Rightarrow> EngineCall \<Rightarrow> fuelled" where
  "engine_call env (CallCreate h a symb dec dim manager creator maxSupply sm dm ev logicID acc) =
     engine_CreateAsset env h a symb dec dim manager creator maxSupply sm dm ev logicID acc"
| "engine_call env (CallTransfer a t opr ben bnf n acc) = engine_Transfer env a t opr ben bnf n acc"
| "engine_call env (CallMint a t sid bnf n sm acc) = engine_Mint a t sid bnf n sm acc"
| "engine_call env (CallBurn a t ben n acc) = engine_Burn a t ben n acc"
| "engine_call env (CallApprove a t ben bnf n ex acc) = engine_Approve a t ben bnf n ex acc"
| "engine_call env (CallRevoke a t ben bnf acc) = engine_Revoke a t ben bnf acc"
| "engine_call env (CallLockup a t ben bnf n acc) = engine_Lockup a t ben bnf n acc"
| "engine_call env (CallRelease a t opr ben bnf n acc) = engine_Release a t opr ben bnf n acc"
| "engine_call env (CallStatic a b k v acc) = with_fuel 0 (gthen (SetStaticMetaData a b k v acc) (gret 0))"
| "engine_call env (CallDynamic a b k v acc) = with_fuel 0 (gthen (SetDynamicMetaData a b k v acc) (gret 0))"
| "engine_call env (CallTokenStatic a b t k v acc) = with_fuel 0 (gthen (SetStaticTokenMetaData a b t k v acc) (gret 0))"
| "engine_call env (CallTokenDynamic a b t k v acc) = with_fuel 0 (gthen (SetDynamicTokenMetaData a b t k v acc) (gret 0))"

fun call_asset :: "EngineCall \<Rightarrow> Identifier" where
  "call_asset (CallCreate h a symb dec dim manager creator maxSupply sm dm ev logicID acc) = a"
| "call_asset (CallTransfer a t opr ben bnf n acc) = a"
| "call_asset (CallMint a t sid bnf n sm acc) = a"
| "call_asset (CallBurn a t ben n acc) = a"
| "call_asset (CallApprove a t ben bnf n ex acc) = a"
| "call_asset (CallRevoke a t ben bnf acc) = a"
| "call_asset (CallLockup a t ben bnf n acc) = a"
| "call_asset (CallRelease a t opr ben bnf n acc) = a"
| "call_asset (CallStatic a b k v acc) = a"
| "call_asset (CallDynamic a b k v acc) = a"
| "call_asset (CallTokenStatic a b t k v acc) = a"
| "call_asset (CallTokenDynamic a b t k v acc) = a"

text \<open>The token whose amounts a call moves.\<close>

fun call_token :: "EngineCall \<Rightarrow> TokenID option" where
  "call_token (CallTransfer a t opr ben bnf n acc) = Some t"
| "call_token (CallMint a t sid bnf n sm acc) = Some t"
| "call_token (CallBurn a t ben n acc) = Some t"
| "call_token (CallApprove a t ben bnf n ex acc) = Some t"
| "call_token (CallRevoke a t ben bnf acc) = Some t"
| "call_token (CallLockup a t ben bnf n acc) = Some t"
| "call_token (CallRelease a t opr ben bnf n acc) = Some t"
| "call_token _ = None"

text \<open>The two amounts that the engine does not check.\<close>

fun call_nonneg :: "EngineCall \<Rightarrow> bool" where
  "call_nonneg (CallTransfer a t opr ben bnf n acc) \<longleftrightarrow> id_IsNil ben \<or> 0 \<le> n"
| "call_nonneg (CallRelease a t opr ben bnf n acc) \<longleftrightarrow> 0 \<le> n"
| "call_nonneg _ \<longleftrightarrow> True"

text \<open>A mint that fails at the meta data of the token has credited the amount.\<close>

fun supply_change :: "EngineCall \<Rightarrow> state_error option \<Rightarrow> int" where
  "supply_change (CallMint a t sid bnf n sm acc) e = (if e = None \<or> e = Some ErrKeyExists then n else 0)"
| "supply_change (CallBurn a t ben n acc) e = (if e = None then - n else 0)"
| "supply_change _ e = 0"

definition res_of :: "state_error option \<Rightarrow> state_error + unit" where
  "res_of e = (case e of None \<Rightarrow> Inr () | Some err \<Rightarrow> Inl err)"

lemma with_fuel_acts:
  assumes "acts D m P" "wf_transition tr" "dom (tr_objects tr) = D" "with_fuel f m tr = Some ((used, e), tr')"
  shows "wf_transition tr'" "dom (tr_objects tr') = D" "P (ledger tr) (res_of e) (ledger tr')"
proof -
  obtain res where res: "m tr = Some (res, tr')" "forget res = res_of e"
    using assms(4) by (auto simp: with_fuel_def res_of_def split: option.splits sum.splits prod.splits)
  show "wf_transition tr'" "dom (tr_objects tr') = D" "P (ledger tr) (res_of e) (ledger tr')"
    using acts_run [OF assms(1-3) res(1)] res(2) by simp_all
qed

lemma transfer_acts:
  assumes transfer: "\<And>s. id_IsNil ben \<Longrightarrow> acts D (gthen (validateAssetTransfer env (InObjects opr) (InObjects bnf) s a t n acc)
        (gthen (transferAsset (InObjects opr) (InObjects bnf) a t n) (gret x))) P"
    and consume: "\<And>s. \<not> id_IsNil ben \<Longrightarrow> acts D (gthen (validateAssetConsume env opr (InObjects bnf) (InObjects ben) s a t n acc)
        (gthen (consumeMandate opr (InObjects ben) (InObjects bnf) a t n) (gret x))) P"
    and error: "\<And>L e. P L (Inl e) L"
  shows "acts D (gbind (tr_GetObject opr) (\<lambda>operator. gbind (tr_GetObject bnf) (\<lambda>beneficiary.
      gbind (gcatch (tr_GetObject (SargaAccountID (ae_GetHash env))) (\<lambda>_. GetAuxiliaryObject (SargaAccountID (ae_GetHash env)))) (\<lambda>sarga.
      if id_IsNil ben
      then gthen (validateAssetTransfer env operator beneficiary sarga a t n acc)
        (gthen (transferAsset operator beneficiary a t n) (gret x))
      else gbind (tr_GetObject ben) (\<lambda>benefactor.
        gthen (validateAssetConsume env opr beneficiary benefactor sarga a t n acc)
        (gthen (consumeMandate opr benefactor beneficiary a t n) (gret x))))))) P"
proof (intro acts_GetObject error)
  have sarga: "observes D (gcatch (tr_GetObject (SargaAccountID (ae_GetHash env))) (\<lambda>_. GetAuxiliaryObject (SargaAccountID (ae_GetHash env))))
      (\<lambda>_ _. True)"
    by (rule observes_gcatch [OF observes_GetObject(1) observes_mono [OF observes_GetObject(2)]]) simp_all
  show "acts D (gbind (gcatch (tr_GetObject (SargaAccountID (ae_GetHash env))) (\<lambda>_. GetAuxiliaryObject (SargaAccountID (ae_GetHash env)))) (\<lambda>sarga.
      if id_IsNil ben
      then gthen (validateAssetTransfer env (InObjects opr) (InObjects bnf) sarga a t n acc)
        (gthen (transferAsset (InObjects opr) (InObjects bnf) a t n) (gret x))
      else gbind (tr_GetObject ben) (\<lambda>benefactor.
        gthen (validateAssetConsume env opr (InObjects bnf) benefactor sarga a t n acc)
        (gthen (consumeMandate opr benefactor (InObjects bnf) a t n) (gret x))))) P"
  proof (rule acts_observe [OF sarga])
    fix s
    show "acts D (if id_IsNil ben
      then gthen (validateAssetTransfer env (InObjects opr) (InObjects bnf) s a t n acc)
        (gthen (transferAsset (InObjects opr) (InObjects bnf) a t n) (gret x))
      else gbind (tr_GetObject ben) (\<lambda>benefactor.
        gthen (validateAssetConsume env opr (InObjects bnf) benefactor s a t n acc)
        (gthen (consumeMandate opr benefactor (InObjects bnf) a t n) (gret x)))) (\<lambda>L r L'. True \<longrightarrow> P L r L')"
    proof (cases "id_IsNil ben")
      case True
      then show ?thesis using transfer by simp
    next
      case False
      have "acts D (gbind (tr_GetObject ben) (\<lambda>benefactor.
          gthen (validateAssetConsume env opr (InObjects bnf) benefactor s a t n acc)
          (gthen (consumeMandate opr benefactor (InObjects bnf) a t n) (gret x)))) P"
        by (rule acts_GetObject) (rule consume [OF False], rule error)
      then show ?thesis using False by simp
    qed
  qed (rule error)
qed

lemma lands_Transfer:
  "acts D (gbind (tr_GetObject opr) (\<lambda>operator. gbind (tr_GetObject bnf) (\<lambda>beneficiary.
      gbind (gcatch (tr_GetObject (SargaAccountID (ae_GetHash env))) (\<lambda>_. GetAuxiliaryObject (SargaAccountID (ae_GetHash env)))) (\<lambda>sarga.
      if id_IsNil ben
      then gthen (validateAssetTransfer env operator beneficiary sarga a t n acc)
        (gthen (transferAsset operator beneficiary a t n) (gret x))
      else gbind (tr_GetObject ben) (\<lambda>benefactor.
        gthen (validateAssetConsume env opr beneficiary benefactor sarga a t n acc)
        (gthen (consumeMandate opr benefactor beneficiary a t n) (gret x)))))))
     (lands D a t (\<lambda>_. 0) (id_IsNil ben \<or> 0 \<le> n))"
  by (rule transfer_acts, rule acts_mono [OF lands_transfer], simp add: lands_def, rule acts_mono [OF lands_consume])
    (simp_all add: lands_def)

definition err_of :: "state_error + unit \<Rightarrow> state_error option" where
  "err_of r = (case r of Inl e \<Rightarrow> Some e | Inr _ \<Rightarrow> None)"

lemma err_of_simps [simp]: "err_of (Inl e) = Some e" "err_of (Inr u) = None" "err_of (res_of eo) = eo"
  by (simp_all add: err_of_def res_of_def split: option.split)

lemma minted_err: "(if err_of r = None \<or> err_of r = Some ErrKeyExists then n else 0) = minted n r"
  by (cases r) (auto simp: minted_def)

lemma burned_err: "(if err_of r = None then - n else 0) = (if r = Inr () then - n else (0 :: int))"
  by (cases r) auto

lemma engine_call_acts:
  assumes "call_token c = None \<or> call_token c = Some t"
  shows "\<exists>f m. engine_call env c = with_fuel f m
    \<and> acts D m (lands D (call_asset c) t (\<lambda>r. supply_change c (err_of r)) (call_nonneg c))"
proof (cases c)
  case (CallCreate h a symb dec dim manager creator maxSupply sm dm ev logicID acc)
  show ?thesis
    unfolding CallCreate engine_call.simps engine_CreateAsset_def call_asset.simps supply_change.simps call_nonneg.simps
    by (rule exI, rule exI, rule conjI [OF refl], rule acts_GetObject, rule acts_GetObject, rule lands_create)
      (simp_all add: NewAssetDescriptor_def)
next
  case (CallTransfer a u opr ben bf n acc)
  then have u: "u = t" using assms by simp
  show ?thesis
    unfolding u CallTransfer engine_call.simps engine_Transfer_def call_asset.simps supply_change.simps call_nonneg.simps
    by (rule exI, rule exI, rule conjI [OF refl], rule lands_Transfer)
next
  case (CallMint a u sid bf n sm acc)
  then have u: "u = t" using assms by simp
  show ?thesis
    unfolding u CallMint engine_call.simps engine_Mint_def call_asset.simps supply_change.simps call_nonneg.simps minted_err
    by (rule exI, rule exI, rule conjI [OF refl], rule acts_GetObject, rule acts_GetObject, rule lands_mint) (simp_all add: minted_def)
next
  case (CallBurn a u ben n acc)
  then have u: "u = t" using assms by simp
  show ?thesis
    unfolding u CallBurn engine_call.simps engine_Burn_def call_asset.simps supply_change.simps call_nonneg.simps burned_err
    by (rule exI, rule exI, rule conjI [OF refl], rule acts_GetObject, rule acts_GetObject, rule lands_burn) (simp_all)
next
  case (CallApprove a u ben bf n ex acc)
  then have u: "u = t" using assms by simp
  show ?thesis
    unfolding u CallApprove engine_call.simps engine_Approve_def call_asset.simps supply_change.simps call_nonneg.simps
    by (rule exI, rule exI, rule conjI [OF refl], rule acts_GetObject, rule lands_approve) (simp_all)
next
  case (CallRevoke a u ben bf acc)
  then have u: "u = t" using assms by simp
  show ?thesis
    unfolding u CallRevoke engine_call.simps engine_Revoke_def call_asset.simps supply_change.simps call_nonneg.simps
    by (rule exI, rule exI, rule conjI [OF refl], rule acts_GetObject, rule lands_revoke) (simp_all)
next
  case (CallLockup a u ben bf n acc)
  then have u: "u = t" using assms by simp
  show ?thesis
    unfolding u CallLockup engine_call.simps engine_Lockup_def call_asset.simps supply_change.simps call_nonneg.simps
    by (rule exI, rule exI, rule conjI [OF refl], rule acts_GetObject, rule lands_lockup) (simp_all)
next
  case (CallRelease a u opr ben bf n acc)
  then have u: "u = t" using assms by simp
  show ?thesis
    unfolding u CallRelease engine_call.simps engine_Release_def call_asset.simps supply_change.simps call_nonneg.simps
    by (rule exI, rule exI, rule conjI [OF refl], rule acts_GetObject, rule acts_GetObject, rule lands_release) (simp_all)
next
  case (CallStatic a b k v acc)
  show ?thesis
    unfolding CallStatic engine_call.simps call_asset.simps supply_change.simps call_nonneg.simps
    by (rule exI, rule exI, rule conjI [OF refl], rule acts_fuel, rule lands_metadata(1))
next
  case (CallDynamic a b k v acc)
  show ?thesis
    unfolding CallDynamic engine_call.simps call_asset.simps supply_change.simps call_nonneg.simps
    by (rule exI, rule exI, rule conjI [OF refl], rule acts_fuel, rule lands_metadata(2))
next
  case (CallTokenStatic a b u k v acc)
  show ?thesis
    unfolding CallTokenStatic engine_call.simps call_asset.simps supply_change.simps call_nonneg.simps
    by (rule exI, rule exI, rule conjI [OF refl], rule acts_fuel, rule lands_metadata(3))
next
  case (CallTokenDynamic a b u k v acc)
  show ?thesis
    unfolding CallTokenDynamic engine_call.simps call_asset.simps supply_change.simps call_nonneg.simps
    by (rule exI, rule exI, rule conjI [OF refl], rule acts_fuel, rule lands_metadata(4))
qed

definition total_held :: "Identifier \<Rightarrow> TokenID \<Rightarrow> Transition \<Rightarrow> int" where
  "total_held a t tr = (\<Sum>i\<in>dom (tr_objects tr). held t (ledger tr i a))"

definition uses_token :: "Identifier \<Rightarrow> TokenID \<Rightarrow> EngineCall \<Rightarrow> bool" where
  "uses_token a t c \<longleftrightarrow> (call_asset c = a \<longrightarrow> call_token c = None \<or> call_token c = Some t)"

definition change_of :: "Identifier \<Rightarrow> EngineCall \<Rightarrow> u64 \<times> state_error option \<Rightarrow> int" where
  "change_of a c out = (if call_asset c = a then supply_change c (snd out) else 0)"

lemma engine_call_step:
  assumes wf: "wf_transition tr" and uses: "uses_token a t c" and run: "engine_call env c tr = Some (out, tr')"
  shows "wf_transition tr'" "total_held a t tr' = total_held a t tr + change_of a c out"
    "call_nonneg c \<Longrightarrow> solvent (ledger tr) \<Longrightarrow> solvent (ledger tr')"
proof -
  obtain used e where out: "out = (used, e)" by (cases out)
  obtain u where u: "call_token c = None \<or> call_token c = Some u" "call_asset c = a \<Longrightarrow> u = t"
  proof (cases "call_asset c = a")
    case True
    then show thesis using uses that [of t] by (simp add: uses_token_def)
  next
    case False
    then show thesis using that by (cases "call_token c") auto
  qed
  let ?D = "dom (tr_objects tr)"
  obtain f m where m: "engine_call env c = with_fuel f m"
    "acts ?D m (lands ?D (call_asset c) u (\<lambda>r. supply_change c (err_of r)) (call_nonneg c))"
    using engine_call_acts [OF u(1)] by blast
  note step = with_fuel_acts [OF m(2) wf refl run [unfolded m(1) out]]
  then have d: "delta ?D (call_asset c) u (supply_change c e) (ledger tr) (ledger tr')"
    by (simp add: lands_def)
  show "wf_transition tr'" by (rule step(1))
  show "total_held a t tr' = total_held a t tr + change_of a c out"
  proof (cases "call_asset c = a")
    case True
    then show ?thesis using d u(2) step(2) by (simp add: total_held_def delta_def change_of_def out)
  next
    case False
    then have "ledger tr' i a = ledger tr i a" for i using d by (simp add: delta_def)
    then show ?thesis using False step(2) by (simp add: total_held_def change_of_def)
  qed
  show "solvent (ledger tr')" if "call_nonneg c" "solvent (ledger tr)"
    using step(3) that by (simp add: lands_def)
qed

text \<open>Any run of a machine with a total: the interface, and the runs of its clients.\<close>

fun run_calls :: "('c \<Rightarrow> 's \<Rightarrow> ('o \<times> 's) option) \<Rightarrow> 'c list \<Rightarrow> 's \<Rightarrow> (('c \<times> 'o) list \<times> 's) option" where
  "run_calls step [] s = Some ([], s)"
| "run_calls step (c # cs) s = (case step c s of
     None \<Rightarrow> None
   | Some (out, s') \<Rightarrow> map_option (\<lambda>(log, s''). ((c, out) # log, s'')) (run_calls step cs s'))"

locale metered =
  fixes step :: "'c \<Rightarrow> 's \<Rightarrow> ('o \<times> 's) option"
    and inv :: "'s \<Rightarrow> bool"
    and total :: "'s \<Rightarrow> int"
    and allowed :: "'c \<Rightarrow> bool"
    and change :: "'c \<Rightarrow> 'o \<Rightarrow> int"
  assumes step_inv: "inv s \<Longrightarrow> allowed c \<Longrightarrow> step c s = Some (out, s') \<Longrightarrow> inv s'"
    and step_total: "inv s \<Longrightarrow> allowed c \<Longrightarrow> step c s = Some (out, s') \<Longrightarrow> total s' = total s + change c out"
begin

lemma run_metered:
  "inv s \<Longrightarrow> list_all allowed cs \<Longrightarrow> run_calls step cs s = Some (log, s')
    \<Longrightarrow> inv s' \<and> total s' = total s + (\<Sum>(c, out)\<leftarrow>log. change c out)"
proof (induction cs arbitrary: s log)
  case Nil
  then show ?case by simp
next
  case (Cons c cs)
  obtain out s1 rest where step: "step c s = Some (out, s1)" and rest: "run_calls step cs s1 = Some (rest, s')"
    and log: "log = (c, out) # rest"
    using Cons.prems(3) by (auto split: option.splits)
  have "inv s1" "total s1 = total s + change c out"
    using step_inv [OF Cons.prems(1) _ step] step_total [OF Cons.prems(1) _ step] Cons.prems(2) by simp_all
  then show ?case using Cons.IH [OF \<open>inv s1\<close> _ rest] Cons.prems(2) by (simp add: log)
qed

end

interpretation ledger_run: metered "engine_call env" wf_transition "total_held a t" "uses_token a t" "change_of a" for env a t
  by unfold_locales (rule engine_call_step; assumption)+

interpretation solvent_run: metered "engine_call env" "\<lambda>tr. wf_transition tr \<and> solvent (ledger tr)" "\<lambda>_. 0"
  "\<lambda>c. call_nonneg c" "\<lambda>_ _. 0" for env
proof unfold_locales
  fix s c out s'
  assume s: "wf_transition s \<and> solvent (ledger s)" and c: "call_nonneg c" and step: "engine_call env c s = Some (out, s')"
  have "uses_token (call_asset c) (case call_token c of None \<Rightarrow> 0 | Some u \<Rightarrow> u) c"
    by (simp add: uses_token_def split: option.split)
  then show "wf_transition s' \<and> solvent (ledger s')"
    using engine_call_step [of s _ _ c env out s'] s c step by blast
qed simp

definition call_change :: "Identifier \<Rightarrow> (EngineCall \<times> u64 \<times> state_error option) list \<Rightarrow> int" where
  "call_change a log = (\<Sum>(c, out)\<leftarrow>log. change_of a c out)"

section \<open>A transfer\<close>

definition balance_in :: "Ledger \<Rightarrow> Identifier \<Rightarrow> Identifier \<Rightarrow> TokenID \<Rightarrow> int" where
  "balance_in L i a t = (case L i a of None \<Rightarrow> 0 | Some v \<Rightarrow> GetBalance t v)"

text \<open>The payer lets the operator spend the amount, and the mandate has not expired.\<close>

definition mandated :: "Ledger \<Rightarrow> u64 \<Rightarrow> Identifier \<Rightarrow> Identifier \<Rightarrow> Identifier \<Rightarrow> TokenID \<Rightarrow> int \<Rightarrow> bool" where
  "mandated L now opr i a t n \<longleftrightarrow> (\<exists>v m. L i a = Some v \<and> allowance (ao_Mandate v) opr t = Some m \<and> n \<le> aw_Amount m
     \<and> now \<le> aw_ExpiresAt m)"

definition moved :: "Identifier \<Rightarrow> Identifier \<Rightarrow> Identifier \<Rightarrow> TokenID \<Rightarrow> int \<Rightarrow> Ledger \<Rightarrow> Ledger \<Rightarrow> bool" where
  "moved i j a t n L L' \<longleftrightarrow>
     (if i = j then balance_in L' i a t = balance_in L i a t
      else balance_in L' i a t = balance_in L i a t - n \<and> balance_in L' j a t = balance_in L j a t + n)
     \<and> (\<forall>k b. (k, b) \<noteq> (i, a) \<longrightarrow> (k, b) \<noteq> (j, a) \<longrightarrow> L' k b = L k b)"

definition pays :: "TokenID \<Rightarrow> int \<Rightarrow> (unit AssetObject \<Rightarrow> bool) \<Rightarrow> Cell \<Rightarrow> state_error + unit \<Rightarrow> Cell \<Rightarrow> bool" where
  "pays t n pre c r c' \<longleftrightarrow> (\<forall>v. c = Some v \<and> pre v \<longrightarrow> r = Inr () \<and> (\<exists>v'. c' = Some v' \<and> GetBalance t v' = GetBalance t v - n))"

lemma GetBalance_put: "GetBalance t (v\<lparr>ao_Balance := put_or_drop t n al\<rparr>) = n"
  by (simp add: GetBalance_def put_or_drop_def update_conv' delete_conv')

lemma pays_Sub: "effects a (SubBalance a t n) (pays t n (\<lambda>v. map_of (ao_Balance v) t \<noteq> None))"
  by (rule effects_mono [OF refines_effects [OF refines_SubBalance]])
    (auto simp: pays_def cell_mutate_def cell_sub_def GetBalance_put_or_drop GetBalance_Some)

lemma pays_Consume:
  "effects a (ConsumeMandate a t i n) (pays t n (\<lambda>v. map_of (ao_Balance v) t \<noteq> None \<and> allowance (ao_Mandate v) i t \<noteq> None))"
  by (rule effects_mono [OF refines_effects [OF refines_ConsumeMandate]])
    (auto simp: pays_def gthen_def gbind_def cell_mutate_def cell_spend_def cell_sub_def GetBalance_put GetBalance_Some
      split: option.splits)

lemma acts_pay:
  assumes "effects a m (pays t n pre)"
  shows "acts D (gbind (on_object (InObjects i) m) (\<lambda>md. on_object (InObjects j) (AddBalance a t n md)))
    (\<lambda>L r L'. (\<exists>v. L i a = Some v \<and> pre v) \<longrightarrow> r = Inr () \<and> moved i j a t n L L')"
proof (rule acts_mono [OF acts_gbind [OF acts_on_object [OF assms] acts_on_object [OF effects_AddBalance]]], intro impI)
  fix L and r :: "state_error + unit" and L''
  assume pre: "\<exists>v. L i a = Some v \<and> pre v" and
    *: "(\<exists>e. r = Inl e \<and> finite D \<and> i \<in> D \<and> (\<exists>c. L'' = put_cell i a c L \<and> pays t n pre (L i a) (Inl e) c))
      \<or> (\<exists>L'. (finite D \<and> i \<in> D \<and> (\<exists>c. L' = put_cell i a c L \<and> pays t n pre (L i a) (Inr ()) c))
        \<and> finite D \<and> j \<in> D \<and> (\<exists>c. L'' = put_cell j a c L' \<and> cell_add t n (L' j a) = Some (r, c)))"
  obtain v where v: "L i a = Some v" "pre v" using pre by blast
  obtain v' c' where v': "GetBalance t v' = GetBalance t v - n" "r = Inr ()" and
    L'': "L'' = put_cell j a c' (put_cell i a (Some v') L)" and
    c': "c' = Some (credit t n (case put_cell i a (Some v') L j a of None \<Rightarrow> blank None | Some w \<Rightarrow> w))"
    using * v by (auto simp: pays_def cell_add_def)
  have "balance_in L'' j a t = balance_in (put_cell i a (Some v') L) j a t + n"
    by (auto simp: L'' c' balance_in_def put_cell_apply GetBalance_credit split: option.split)
  then show "r = Inr () \<and> moved i j a t n L L''"
    using v v' by (auto simp: moved_def L'' balance_in_def put_cell_apply)
qed

lemma acts_transfer_spec:
  "acts D (gthen (validateAssetTransfer env (InObjects i) (InObjects j) s a t n acc)
     (gthen (transferAsset (InObjects i) (InObjects j) a t n) (gret x)))
     (\<lambda>L r L'. if r = Inr () then 1 \<le> n \<and> has_funds i a t n L \<and> moved i j a t n L L' else L' = L)"
proof (rule acts_observe_then [OF observes_transfer acts_fuel])
  show "acts D (transferAsset (InObjects i) (InObjects j) a t n)
    (\<lambda>L r L'. (\<exists>x :: unit. 1 \<le> n \<and> has_funds i a t n L)
      \<longrightarrow> (if r = Inr () then 1 \<le> n \<and> has_funds i a t n L \<and> moved i j a t n L L' else L' = L))"
    unfolding transferAsset_def by (rule acts_mono [OF acts_pay [OF pays_Sub]]) (auto simp: has_funds_def)
qed simp

lemma acts_consume_spec:
  "acts D (gthen (validateAssetConsume env opr (InObjects j) (InObjects i) s a t n acc)
     (gthen (consumeMandate opr (InObjects i) (InObjects j) a t n) (gret x)))
     (\<lambda>L r L'. if r = Inr () then has_funds i a t n L \<and> mandated L (ae_now env) opr i a t n \<and> moved i j a t n L L' else L' = L)"
proof (rule acts_observe_then [OF observes_consume acts_fuel])
  show "acts D (consumeMandate opr (InObjects i) (InObjects j) a t n)
    (\<lambda>L r L'. (\<exists>x :: unit. has_funds i a t n L \<and> (\<exists>v m. L i a = Some v \<and> allowance (ao_Mandate v) opr t = Some m \<and> n \<le> aw_Amount m
        \<and> ae_now env \<le> aw_ExpiresAt m))
      \<longrightarrow> (if r = Inr () then has_funds i a t n L \<and> mandated L (ae_now env) opr i a t n \<and> moved i j a t n L L' else L' = L))"
    unfolding consumeMandate_def
    by (rule acts_mono [OF acts_pay [OF pays_Consume]]) (auto simp: has_funds_def mandated_def)
qed simp

end
