(* ===== verification/Asset_Properties.thy ===== *)
theory Asset_Properties
  imports Asset_Runs
begin

text \<open>
  The properties of the asset engine, a transition on which they are exercised, and what the model
  shows of the code beside them: a supply that is not recorded, balances and mandates that are lost,
  a panic, and changes that a revert does not undo.
\<close>

section \<open>An example\<close>

abbreviation (input) alice :: Identifier where "alice \<equiv> [1]"
abbreviation (input) bob :: Identifier where "bob \<equiv> [2]"
abbreviation (input) coin :: Identifier where "coin \<equiv> [9]"

definition ex_env :: AssetEnv where
  "ex_env = \<lparr>ae_GetHash = (\<lambda>_. replicate 32 7), ae_now = 5, ae_genesisBytes = (\<lambda>h. Inr [1])\<rparr>"

definition ex_descriptor :: AssetDescriptor where
  "ex_descriptor = NewAssetDescriptor coin ''COIN'' 0 0 alice alice 100 Map.empty Map.empty False Nil_id"

definition ex_object :: "Identifier \<Rightarrow> Object" where
  "ex_object i = \<lparr>ob_id = i, ob_isGenesis = False, ob_assetTreeTxn = None,
     ob_assetTree = (\<lambda>a. if i = coin \<and> a = coin then Inr (NewAssetObject (Some ex_descriptor)) else Inl ErrKeyNotFound),
     ob_deeds = Inr {}, ob_storageTreeTxns = Map.empty, ob_storageTrees = (\<lambda>_. Inr (\<lambda>_. Inr [1])),
     ob_newTree = (\<lambda>_. Inl ErrKeyNotFound)\<rparr>"

text \<open>The accounts of two participants and of an asset, all untouched; the registry is auxiliary.\<close>

definition ex_transition :: Transition where
  "ex_transition = \<lparr>tr_mem = \<lparr>mem_asset = (\<lambda>_. NewAssetObject None), mem_meta = (\<lambda>_. \<lparr>md_static = None, md_dynamic = None\<rparr>), mem_next = 0\<rparr>,
     tr_objects = [alice \<mapsto> ex_object alice, bob \<mapsto> ex_object bob, coin \<mapsto> ex_object coin], tr_systemObject = None,
     tr_auxiliaryObjects = (\<lambda>i. Some (ex_object i))\<rparr>"

definition ex_access :: Access where
  "ex_access = (\<lambda>_. Some 0)"

definition ex_calls :: "EngineCall list" where
  "ex_calls = [CallMint coin 0 alice alice 50 [] ex_access, CallTransfer coin 0 alice Nil_id bob 20 ex_access,
     CallTransfer coin 0 alice Nil_id bob 1000 ex_access, CallLockup coin 0 alice [5] 10 ex_access,
     CallApprove coin 0 bob alice 15 9 ex_access, CallTransfer coin 0 alice bob alice 15 ex_access,
     CallRelease coin 0 [5] alice bob 4 ex_access, CallBurn coin 0 alice 5 ex_access]"

lemma ex_run: "map_option (\<lambda>(log, tr). (map (snd \<circ> snd) log, call_change coin log)) (run_calls (engine_call ex_env) ex_calls ex_transition)
    = Some ([None, None, Some ErrInsufficientFunds, None, None, None, None, None], 45)"
  by code_simp

lemma ex_run_Some:
  obtains log tr where "run_calls (engine_call ex_env) ex_calls ex_transition = Some (log, tr)" and "call_change coin log = 45"
  using ex_run by auto

lemma ex_refs: "tref ex_transition i a = None"
  by (auto simp: tref_def own_ref_def ex_transition_def ex_object_def)

lemma ex_wf: "wf_transition ex_transition"
  using ex_refs by (auto simp: wf_transition_def ex_transition_def)

lemma ex_solvent: "solvent (ledger ex_transition)"
  by (auto simp: solvent_def ledger_def ex_transition_def ex_object_def cell_of.simps own_ref_def)

lemma ex_calls_ok: "list_all (uses_token coin 0) ex_calls" "list_all call_nonneg ex_calls"
  by (simp_all add: ex_calls_def uses_token_def)

section \<open>Conservation, solvency and transfers\<close>



text \<open>C5: If no balance, lockup or mandate is negative, then none is after any sequence of calls of the engine whose
  consumed and released amounts are not negative; the other amounts the engine checks itself.\<close>

theorem engine_keeps_solvent:
  assumes "wf_transition tr" and "solvent (ledger tr)" and "list_all call_nonneg cs"
    and "run_calls (engine_call env) cs tr = Some (log, tr')"
  shows "solvent (ledger tr')"
  using solvent_run.run_metered [of tr cs env log tr'] assms by blast

theorem engine_keeps_solvent_witness:
  "\<exists>log tr. run_calls (engine_call ex_env) ex_calls ex_transition = Some (log, tr) \<and> solvent (ledger ex_transition)
     \<and> list_all call_nonneg ex_calls \<and> solvent (ledger tr)"
proof -
  obtain log tr where run: "run_calls (engine_call ex_env) ex_calls ex_transition = Some (log, tr)"
    by (rule ex_run_Some)
  then show ?thesis using engine_keeps_solvent [OF ex_wf ex_solvent ex_calls_ok(2) run] ex_solvent ex_calls_ok(2) by auto
qed

text \<open>C6: A transfer that fails leaves every balance, lockup and mandate of every account as it was. One that succeeds
  has found the amount in the balance of the payer, who is the operator or has given the operator a mandate for the
  amount that has not expired; it moves exactly the amount from the payer to the beneficiary and changes no other
  account and no other asset.\<close>

theorem transfer_spec:
  assumes "wf_transition tr" and "engine_Transfer env a t opr benefactor beneficiary n acc tr = Some ((used, e), tr')"
  shows "if e \<noteq> None then ledger tr' = ledger tr
    else (let payer = (if id_IsNil benefactor then opr else benefactor) in
      has_funds payer a t n (ledger tr) \<and> moved payer beneficiary a t n (ledger tr) (ledger tr')
      \<and> (if id_IsNil benefactor then 1 \<le> n else mandated (ledger tr) (ae_now env) opr payer a t n))"
proof -
  let ?P = "\<lambda>L (r :: state_error + unit) L'. if r \<noteq> Inr () then L' = L else (let payer = (if id_IsNil benefactor then opr else benefactor) in
      has_funds payer a t n L \<and> moved payer beneficiary a t n L L'
      \<and> (if id_IsNil benefactor then 1 \<le> n else mandated L (ae_now env) opr payer a t n))"
  let ?D = "dom (tr_objects tr)"
  have "acts ?D (gbind (tr_GetObject opr) (\<lambda>operator. gbind (tr_GetObject beneficiary) (\<lambda>ben.
      gbind (gcatch (tr_GetObject (SargaAccountID (ae_GetHash env))) (\<lambda>_. GetAuxiliaryObject (SargaAccountID (ae_GetHash env)))) (\<lambda>sarga.
      if id_IsNil benefactor
      then gthen (validateAssetTransfer env operator ben sarga a t n acc) (gthen (transferAsset operator ben a t n) (gret 100))
      else gbind (tr_GetObject benefactor) (\<lambda>bf. gthen (validateAssetConsume env opr ben bf sarga a t n acc)
        (gthen (consumeMandate opr bf ben a t n) (gret 100))))))) ?P"
    (is "acts _ ?m _")
  proof (rule transfer_acts)
    show "acts ?D (gthen (validateAssetTransfer env (InObjects opr) (InObjects beneficiary) s a t n acc)
        (gthen (transferAsset (InObjects opr) (InObjects beneficiary) a t n) (gret 100))) ?P" if "id_IsNil benefactor" for s
      by (rule acts_mono [OF acts_transfer_spec]) (use that in \<open>auto split: if_splits\<close>)
    show "acts ?D (gthen (validateAssetConsume env opr (InObjects beneficiary) (InObjects benefactor) s a t n acc)
        (gthen (consumeMandate opr (InObjects benefactor) (InObjects beneficiary) a t n) (gret 100))) ?P" if "\<not> id_IsNil benefactor" for s
      by (rule acts_mono [OF acts_consume_spec]) (use that in \<open>auto split: if_splits\<close>)
  qed simp
  from with_fuel_acts(3) [OF this assms(1) refl assms(2) [unfolded engine_Transfer_def]]
  show ?thesis by (cases e) (auto simp: res_of_def)
qed

definition ex_start :: Transition where
  "ex_start = snd (the (run_calls (engine_call ex_env) [CallMint coin 0 alice alice 50 [] ex_access] ex_transition))"

lemma ex_start_run: "\<exists>log. run_calls (engine_call ex_env) [CallMint coin 0 alice alice 50 [] ex_access] ex_transition = Some (log, ex_start)"
proof -
  have "run_calls (engine_call ex_env) [CallMint coin 0 alice alice 50 [] ex_access] ex_transition \<noteq> None"
    unfolding Option.is_none_def [symmetric] by code_simp
  then show ?thesis by (cases "run_calls (engine_call ex_env) [CallMint coin 0 alice alice 50 [] ex_access] ex_transition")
      (auto simp: ex_start_def)
qed

lemma ex_start_wf: "wf_transition ex_start"
  using ex_start_run ledger_run.run_metered [OF ex_wf, of coin 0 "[CallMint coin 0 alice alice 50 [] ex_access]" ex_env]
  by (auto simp: uses_token_def)

theorem transfer_spec_witness:
  "\<exists>tr. engine_Transfer ex_env coin 0 alice Nil_id bob 20 ex_access ex_start = Some ((100, None), tr)
     \<and> has_funds alice coin 0 20 (ledger ex_start) \<and> moved alice bob coin 0 20 (ledger ex_start) (ledger tr)"
proof -
  have "map_option fst (engine_Transfer ex_env coin 0 alice Nil_id bob 20 ex_access ex_start) = Some (100, None)"
    unfolding ex_start_def by code_simp
  then obtain tr where "engine_Transfer ex_env coin 0 alice Nil_id bob 20 ex_access ex_start = Some ((100, None), tr)" by auto
  with transfer_spec [OF ex_start_wf this] show ?thesis by (simp add: id_IsNil_def Let_def)
qed

section \<open>What the code loses\<close>

text \<open>Crediting a token that the account does not hold drops its other tokens of the asset.\<close>

lemma AddBalance_drops_other_tokens:
  "map_of (ao_Balance v) t = None \<Longrightarrow> u \<noteq> t \<Longrightarrow> GetBalance u (credit t n v) = 0"
  by (simp add: credit_def GetBalance_def)

text \<open>A mandate for a new beneficiary drops the mandates of all others.\<close>

lemma CreateMandate_drops_others:
  assumes "owned a s" "cell_of a s = Some v" "map_of (ao_Mandate v) i = None" "j \<noteq> i"
    and "CreateMandate a t i n e s = Some (res, s')"
  shows "\<exists>v'. cell_of a s' = Some v' \<and> allowance (ao_Mandate v') j u = None"
proof -
  have "cell_of a s' = Some (v\<lparr>ao_Mandate := [(i, [(t, \<lparr>aw_Amount = n, aw_ExpiresAt = e\<rparr>)])]\<rparr>)"
    using refinesD(1) [OF refines_CreateMandate assms(1,5)] assms(2,3) by (simp add: cell_mutate_def cell_mandate_def)
  then show ?thesis using assms(4) by (simp add: allowance_def)
qed

text \<open>A second lockup for a beneficiary, of another token, panics.\<close>

lemma CreateLockup_panics:
  assumes "owned a s" "cell_of a s = Some v" "map_of (ao_Balance v) t = Some bal"
    "map_of (ao_Lockup v) i = Some lockups" "map_of lockups t = None"
  shows "CreateLockup a t i n s = None"
proof (cases "CreateLockup a t i n s")
  case (Some p)
  then obtain res s' where "CreateLockup a t i n s = Some (res, s')" by (cases p) auto
  from refinesD(1) [OF refines_CreateLockup assms(1) this] assms(2-5) show ?thesis
    by (simp add: cell_mutate_def cell_lock_def)
qed simp

text \<open>The supply of an asset that is not yet in the transaction is increased in a copy that nobody keeps.\<close>

lemma MintAsset_not_recorded:
  assumes "own_ref ob a = None" "MintAsset a n (mem, ob) = Some (res, mem', ob')"
  shows "ob' = ob" "cell_of a (mem', ob') = cell_of a (mem, ob)"
proof -
  show ob': "ob' = ob"
    using assms
    by (auto simp: MintAsset_def fetch_asset_def getAssetObject_def own_ref_def load_asset_def gcatch_def gbind_def gthen_def
        read_asset_def write_asset_def deref_def gret_def gerr_def gpanic_def Let_def split: option.splits sum.splits)
  show "cell_of a (mem', ob') = cell_of a (mem, ob)" unfolding ob' by (rule cell_of_None [OF assms(1)])
qed

text \<open>So the maximal supply does not bound what is minted.\<close>

lemma mint_exceeds_max_supply:
  "ad_MaxSupply ex_descriptor = 100"
  "map_option (\<lambda>(log, tr). map (snd \<circ> snd) log) (run_calls (engine_call ex_env)
     [CallMint coin 0 alice alice 100 [] ex_access, CallMint coin 0 alice bob 100 [] ex_access] ex_transition) = Some [None, None]"
  by (simp add: ex_descriptor_def NewAssetDescriptor_def) code_simp

text \<open>An operator with a mandate can consume a negative amount, which takes from the beneficiary.\<close>

lemma consume_negative_amount:
  "Option.bind (run_calls (engine_call ex_env) [CallMint coin 0 alice alice 50 [] ex_access,
     CallApprove coin 0 alice bob 1 9 ex_access, CallTransfer coin 0 bob alice bob (- 7) ex_access] ex_transition)
   (\<lambda>(log, tr). Option.bind (tr_objects tr bob) (\<lambda>ob. Option.bind (own_ref ob coin) (\<lambda>r. map_of (ao_Balance (mem_asset (tr_mem tr) r)) 0)))
   = Some (- 7)"
  by code_simp

text \<open>A snapshot shares the asset objects: what a reverted call changed in place stays changed.\<close>

lemma revert_keeps_changes:
  "Option.bind (run_calls (engine_call ex_env) [CallTransfer coin 0 alice Nil_id alice 20 ex_access, CallBurn coin 0 alice 30 ex_access] ex_start)
   (\<lambda>(log, tr). let back = UpdateSnapshot (Snapshot ex_start) tr in
     Option.bind (tr_objects back alice) (\<lambda>ob. Option.bind (own_ref ob coin) (\<lambda>r. map_of (ao_Balance (mem_asset (tr_mem back) r)) 0)))
   = Some 20"
  unfolding ex_start_def by code_simp

text \<open>\<^verbatim>\<open>BalanceOf\<close> reads the committed tree, not the transaction.\<close>

lemma BalanceOf_ignores_transaction:
  assumes "BalanceOf a t (mem, ob) = Some (res, s)"
  shows "map_option fst (BalanceOf a t (mem', ob\<lparr>ob_assetTreeTxn := txn\<rparr>)) = Some res"
  using assms
  by (auto simp: BalanceOf_def getAssetObject_def load_asset_def decoded_asset_def gcatch_def gbind_def read_asset_def gret_def gerr_def Let_def
      split: option.splits sum.splits)

text \<open>Writing an empty value to a storage key removes the pending entry only: the committed value is read again.\<close>

lemma SetStorageEntry_delete_keeps_committed:
  assumes "ob_storageTreeTxns ob i = Some txn" "ob_storageTrees ob i = Inr tree" "tree k = Inr v"
    and "SetStorageEntry i k [] (mem, ob) = Some (Inr (), mem', ob')"
  shows "map_option fst (GetStorageEntry i k (mem', ob')) = Some (Inr v)"
  using assms by (auto simp: SetStorageEntry_def GetStorageEntry_def put_entry_def gthen_def gbind_def gret_def)

end
